(* ===== verification/Prelude.thy ===== *)
theory Prelude
  imports Main "HOL-Library.Word"
begin

text \<open>
  What every component of the development shares: the names of the machine integer types,
  Rust's saturating arithmetic, the error monad behind the question-mark operator, and the
  correspondence between a machine word and the list of its bits, most significant first,
  on which the wire formats are specified.

  Conventions.  \<open>usize\<close> values (lengths, positions, counters of packets held in memory) are
  \<open>nat\<close>: their \<open>saturating_sub\<close> is the truncating subtraction of \<open>nat\<close>, and their
  additions cannot reach the top of the type because they are bounded by the size of an object
  in memory.  Values of a fixed width are words of that width.  A \<open>debug_assert!\<close> is not part
  of a release build and is not modelled; where it states a property, the property is a lemma.
\<close>

unbundle bit_operations_syntax

type_synonym u8 = "8 word"
type_synonym u16 = "16 word"
type_synonym u32 = "32 word"
type_synonym u64 = "64 word"

named_theorems res_simps \<open>unfolding of the error monad and of saturating arithmetic\<close>
named_theorems bit_simps_pb \<open>bits of words and of bit lists\<close>

subsection \<open>Results\<close>

text \<open>\<open>and_then m f\<close> is Rust's \<open>m?\<close> followed by \<open>f\<close>: an error is returned at once.\<close>

definition and_then :: "'e + 'a \<Rightarrow> ('a \<Rightarrow> 'e + 'b) \<Rightarrow> 'e + 'b" where
  "and_then m f = (case m of Inl e \<Rightarrow> Inl e | Inr x \<Rightarrow> f x)"

text \<open>\<open>map_err\<close> changes the error only; it also models an implicit \<open>From\<close> conversion.\<close>

definition map_err :: "('e \<Rightarrow> 'f) \<Rightarrow> 'e + 'a \<Rightarrow> 'f + 'a" where
  "map_err g m = (case m of Inl e \<Rightarrow> Inl (g e) | Inr x \<Rightarrow> Inr x)"

definition is_ok :: "'e + 'a \<Rightarrow> bool" where
  "is_ok m = (case m of Inl e \<Rightarrow> False | Inr x \<Rightarrow> True)"

text \<open>\<open>ok_or\<close> of an option.\<close>

definition ok_or :: "'e \<Rightarrow> 'a option \<Rightarrow> 'e + 'a" where
  "ok_or e v = (case v of None \<Rightarrow> Inl e | Some x \<Rightarrow> Inr x)"

text \<open>\<open>slice.get(i)\<close> and \<open>Vec::get\<close>.\<close>

definition get_at :: "'a list \<Rightarrow> nat \<Rightarrow> 'a option" where
  "get_at xs i = (if i < length xs then Some (xs ! i) else None)"

text \<open>\<open>slice.get(a..b)\<close>.\<close>

definition get_range :: "'a list \<Rightarrow> nat \<Rightarrow> nat \<Rightarrow> 'a list option" where
  "get_range xs a b = (if a \<le> b \<and> b \<le> length xs then Some (take (b - a) (drop a xs)) else None)"

text \<open>\<open>ArrayVec::try_push\<close> with capacity \<open>n\<close>.\<close>

definition try_push :: "nat \<Rightarrow> 'e \<Rightarrow> 'a list \<Rightarrow> 'a \<Rightarrow> 'e + 'a list" where
  "try_push n e xs x = (if length xs < n then Inr (xs @ [x]) else Inl e)"

lemma and_then_simps [simp, res_simps]:
  "and_then (Inl e) f = Inl e"
  "and_then (Inr x) f = f x"
  by (simp_all add: and_then_def)

lemma map_err_simps [simp, res_simps]:
  "map_err g (Inl e) = Inl (g e)"
  "map_err g (Inr x) = Inr x"
  by (simp_all add: map_err_def)

lemma is_ok_simps [simp]: "\<not> is_ok (Inl e)" "is_ok (Inr x)"
  by (simp_all add: is_ok_def)

lemma ok_or_simps [simp]: "ok_or e None = Inl e" "ok_or e (Some x) = Inr x"
  by (simp_all add: ok_or_def)

lemma and_then_Inr_iff: "and_then m f = Inr y \<longleftrightarrow> (\<exists>x. m = Inr x \<and> f x = Inr y)"
  by (cases m) auto

lemma and_then_Inl_iff: "and_then m f = Inl e \<longleftrightarrow> m = Inl e \<or> (\<exists>x. m = Inr x \<and> f x = Inl e)"
  by (cases m) auto

lemma map_err_Inr_iff: "map_err g m = Inr y \<longleftrightarrow> m = Inr y"
  by (cases m) auto

lemma ok_or_Inr_iff: "ok_or e v = Inr x \<longleftrightarrow> v = Some x"
  by (cases v) auto

lemma try_push_Inr_iff: "try_push n e xs x = Inr ys \<longleftrightarrow> length xs < n \<and> ys = xs @ [x]"
  by (auto simp: try_push_def)

lemma if_error: "(if c then Inl e else m) = Inr y \<Longrightarrow> m = Inr y"
  by (auto split: if_splits)

lemma and_then_Inr_pair: "and_then m (\<lambda>(a, b). f a b) = Inr y \<longleftrightarrow> (\<exists>a b. m = Inr (a, b) \<and> f a b = Inr y)"
  by (auto simp: and_then_Inr_iff)

lemma and_then_Inr_triple:
  "and_then m (\<lambda>(a, b, c). f a b c) = Inr y \<longleftrightarrow> (\<exists>a b c. m = Inr (a, b, c) \<and> f a b c = Inr y)"
  by (auto simp: and_then_Inr_iff)

lemmas result_iffs = and_then_Inr_iff map_err_Inr_iff ok_or_Inr_iff try_push_Inr_iff

lemma get_at_Some_iff: "get_at xs i = Some x \<longleftrightarrow> i < length xs \<and> xs ! i = x"
  by (auto simp: get_at_def)

lemma get_at_in_set: "get_at xs i = Some x \<Longrightarrow> x \<in> set xs"
  by (auto simp: get_at_def split: if_splits)

lemma and_then_assoc:
  "and_then (and_then m f) g = and_then m (\<lambda>x. and_then (f x) g)"
  "and_then (and_then k (\<lambda>(a, b). h a b)) g = and_then k (\<lambda>(a, b). and_then (h a b) g)"
  by (cases m; cases k; auto)+

lemma and_then_cong [fundef_cong]:
  "m = m' \<Longrightarrow> (\<And>x. m' = Inr x \<Longrightarrow> f x = g x) \<Longrightarrow> and_then m f = and_then m' g"
  by (cases m') simp_all

text \<open>
  The loops of a reader over an input \<open>'r\<close>: \<open>repeat_n n p\<close> is \<open>for _ in 0..n { v.push(p()?) }\<close> with
  a fresh \<open>v\<close>, \<open>each_mut p xs\<close> is \<open>for x in &mut xs { p(x)? }\<close>.  \<open>each_ref p xs\<close> is the loop
  \<open>for x in &xs { p(x)? }\<close> of a writer.
\<close>

fun repeat_n :: "nat \<Rightarrow> ('r \<Rightarrow> 'e + ('a \<times> 'r)) \<Rightarrow> 'r \<Rightarrow> 'e + ('a list \<times> 'r)" where
  "repeat_n 0 p r = Inr ([], r)"
| "repeat_n (Suc n) p r = and_then (p r) (\<lambda>(x, r).
     and_then (repeat_n n p r) (\<lambda>(xs, r). Inr (x # xs, r)))"

fun each_mut :: "('b \<Rightarrow> 'r \<Rightarrow> 'e + ('a \<times> 'r)) \<Rightarrow> 'b list \<Rightarrow> 'r \<Rightarrow> 'e + ('a list \<times> 'r)" where
  "each_mut p [] r = Inr ([], r)"
| "each_mut p (x # xs) r = and_then (p x r) (\<lambda>(y, r).
     and_then (each_mut p xs r) (\<lambda>(ys, r). Inr (y # ys, r)))"

fun each_ref :: "('b \<Rightarrow> 'w \<Rightarrow> 'e + 'w) \<Rightarrow> 'b list \<Rightarrow> 'w \<Rightarrow> 'e + 'w" where
  "each_ref p [] w = Inr w"
| "each_ref p (x # xs) w = and_then (p x w) (each_ref p xs)"

lemma list_all2_right: "list_all2 P xs ys \<Longrightarrow> y \<in> set ys \<Longrightarrow> \<exists>x \<in> set xs. P x y"
  by (induction rule: list_all2_induct) auto

subsection \<open>Saturating arithmetic on words\<close>

definition sat_add :: "'a::len word \<Rightarrow> 'a word \<Rightarrow> 'a word" where
  "sat_add x y = (if x + y < x then - 1 else x + y)"

definition sat_sub :: "'a::len word \<Rightarrow> 'a word \<Rightarrow> 'a word" where
  "sat_sub x y = (if y \<le> x then x - y else 0)"

definition sat_mul :: "'a::len word \<Rightarrow> 'a word \<Rightarrow> 'a word" where
  "sat_mul x y = (if unat x * unat y < 2 ^ LENGTH('a) then x * y else - 1)"

text \<open>
  A shift by a variable amount, as a release build performs it: the amount is reduced modulo the
  width.
\<close>

definition wshl :: "'a::len word \<Rightarrow> nat \<Rightarrow> 'a word" where
  "wshl x k = push_bit (k mod LENGTH('a)) x"

definition wshr :: "'a::len word \<Rightarrow> nat \<Rightarrow> 'a word" where
  "wshr x k = drop_bit (k mod LENGTH('a)) x"

lemma unat_bounds:
  "unat (a :: u8) < 256" "unat (b :: u16) < 65536" "unat (c :: u32) < 4294967296"
  "unat (d :: u64) < 18446744073709551616"
  by (rule order_less_le_trans [OF unsigned_less], simp)+

lemma unat_of_nat_fits: "n < 2 ^ LENGTH('a) \<Longrightarrow> unat (of_nat n :: 'a::len word) = n"
  by (simp add: unat_of_nat)

lemma unat_drop_bit: "unat (drop_bit k x) = unat x div 2 ^ k" for x :: "'a::len word"
  unfolding unsigned_drop_bit_eq by (simp add: drop_bit_eq_div take_bit_nat_eq_self)

lemma unat_plus_of_nat:
  "unat x + n < 2 ^ LENGTH('a) \<Longrightarrow> unat (x + of_nat n) = unat x + n" for x :: "'a::len word"
  using unat_of_nat_fits [of "unat x + n", where 'a = 'a] by simp

lemma plus_less_left_iff: "x + y < x \<longleftrightarrow> 2 ^ LENGTH('a) \<le> unat x + unat y"
  for x y :: "'a::len word"
  by (simp add: not_le [symmetric] no_olen_add_nat)

lemma unat_sat_add: "unat (sat_add x y) = min (unat x + unat y) (2 ^ LENGTH('a) - 1)"
  for x y :: "'a::len word"
proof (cases "x + y < x")
  case True
  then have "2 ^ LENGTH('a) \<le> unat x + unat y" by (simp add: plus_less_left_iff)
  with True show ?thesis
    by (simp add: sat_add_def unsigned_minus_1_eq_mask mask_eq_exp_minus_1)
next
  case False
  then have "unat x + unat y < 2 ^ LENGTH('a)" by (simp add: plus_less_left_iff)
  with False show ?thesis
    by (simp add: sat_add_def unat_add_lem [THEN iffD1])
qed

lemma unat_sat_sub: "unat (sat_sub x y) = unat x - unat y"
  by (simp add: sat_sub_def unat_sub word_le_nat_alt)

subsection \<open>Words as lists of bits\<close>

text \<open>
  \<open>word_bits n v\<close> is the \<open>n\<close>-bit field that holds \<open>v\<close>, most significant bit first;
  \<open>bits_word bs\<close> is the number a field spells.
\<close>

definition word_bits :: "nat \<Rightarrow> 'a::len word \<Rightarrow> bool list" where
  "word_bits n v = rev (map (bit v) [0..<n])"

definition bits_word :: "bool list \<Rightarrow> 'a::len word" where
  "bits_word bs = horner_sum of_bool 2 (rev bs)"

lemma length_word_bits [simp]: "length (word_bits n v) = n"
  by (simp add: word_bits_def)

lemma word_bits_0 [simp]: "word_bits 0 v = []"
  by (simp add: word_bits_def)

lemma nth_word_bits [bit_simps_pb]: "i < n \<Longrightarrow> word_bits n v ! i = bit v (n - 1 - i)"
  by (simp add: word_bits_def rev_nth)

lemma bit_bits_word [bit_simps_pb]:
  "bit (bits_word bs :: 'a::len word) i \<longleftrightarrow>
     i < LENGTH('a) \<and> i < length bs \<and> bs ! (length bs - 1 - i)"
  by (auto simp: bits_word_def bit_horner_sum_bit_word_iff rev_nth)

lemma bits_word_word_bits [simp]: "bits_word (word_bits n v) = take_bit n v"
  by (rule bit_word_eqI) (auto simp: bit_simps_pb bit_take_bit_iff)

lemma bits_word_Nil [simp]: "bits_word [] = 0"
  by (simp add: bits_word_def)

lemma take_bit_fits: "unat v < 2 ^ n \<Longrightarrow> take_bit n v = v"
  for v :: "'a::len word"
  by (metis take_bit_nat_eq_self unsigned_take_bit_eq word_unat_eq_iff)

lemma bits_word_fits: "unat v < 2 ^ n \<Longrightarrow> bits_word (word_bits n v) = v"
  by (simp add: take_bit_fits)

lemma bits_word_less: "n \<le> m \<Longrightarrow> length bs = n \<Longrightarrow> unat (bits_word bs :: 'a::len word) < 2 ^ m"
proof -
  assume "n \<le> m" "length bs = n"
  then have "take_bit m (bits_word bs :: 'a word) = bits_word bs"
    by (intro bit_word_eqI) (auto simp: bit_simps_pb bit_take_bit_iff)
  then show ?thesis
    by (metis take_bit_nat_less_exp unsigned_take_bit_eq)
qed

lemma bits_word_append:
  "(bits_word (xs @ ys) :: 'a::len word) = push_bit (length ys) (bits_word xs) OR bits_word ys"
proof (rule bit_word_eqI)
  fix i assume i: "i < LENGTH('a)"
  show "bit (bits_word (xs @ ys) :: 'a word) i \<longleftrightarrow>
        bit (push_bit (length ys) (bits_word xs) OR bits_word ys :: 'a word) i"
  proof (cases "i < length ys")
    case True
    then show ?thesis
      using i by (auto simp: bit_simps_pb bit_or_iff bit_push_bit_iff nth_append)
  next
    case False
    then have "length xs + length ys - Suc i = length xs - Suc (i - length ys)" by simp
    with False show ?thesis
      using i by (auto simp: bit_simps_pb bit_or_iff bit_push_bit_iff nth_append)
  qed
qed

lemma word_bits_split:
  assumes "k \<le> n"
  shows "word_bits n v = word_bits k (drop_bit (n - k) v) @ word_bits (n - k) v"
  by (rule nth_equalityI)
    (use assms in \<open>auto simp: bit_simps_pb nth_append bit_drop_bit_eq not_less\<close>)

lemma word_bits_cong: "(\<And>i. i < n \<Longrightarrow> bit v i \<longleftrightarrow> bit w i) \<Longrightarrow> word_bits n v = word_bits n w"
  by (rule nth_equalityI) (auto simp: bit_simps_pb)

lemma word_bits_zero [simp]: "word_bits n 0 = replicate n False"
  by (rule nth_equalityI) (auto simp: bit_simps_pb)

lemma mask_by_shift:
  "n < LENGTH('a) \<Longrightarrow> sat_sub (wshl 1 n) 1 = (mask n :: 'a::len word)"
proof -
  assume n: "n < LENGTH('a)"
  have "(1 :: 'a word) \<le> 2 ^ n"
    using n by (simp add: word_le_sub1)
  with n show ?thesis
    by (simp add: sat_sub_def wshl_def push_bit_of_1 mask_eq_exp_minus_1)
qed

lemma take_prefix_append [simp]: "length xs = n \<Longrightarrow> take n (xs @ ys) = xs"
  by simp

lemma drop_prefix_append [simp]: "length xs = n \<Longrightarrow> drop n (xs @ ys) = ys"
  by simp

end
