(* ===== verification/DD_Bits.thy ===== *)
theory DD_Bits
  imports Prelude
begin

text \<open>
  The bit reader and the bit writer of \<open>crates/pulsebeam-core/src/dd/bits.rs\<close>, which read and
  write fields of up to 32 bits, most significant bit first, one byte-sized chunk per iteration,
  and the non-symmetric code \<open>ns(n)\<close> on top of them.

  Specification: a byte buffer is the list of its bits (\<open>stream_bits\<close>); a reader is the bits it
  has not read (\<open>pending\<close>), a writer the bits it has written (\<open>written\<close>).  The locales
  \<open>bit_source\<close> and \<open>bit_sink\<close> state what a client may rely on, and are interpreted on the
  reader and the writer below.
\<close>

subsection \<open>The code\<close>

datatype Truncated = Truncated

datatype Overflow = Overflow

record BitReader =
  br_buf :: "u8 list"
  br_pos :: nat

record BitWriter =
  bw_buf :: "u8 list"
  bw_pos :: nat

definition reader_new :: "u8 list \<Rightarrow> BitReader" where
  "reader_new buf = \<lparr>br_buf = buf, br_pos = 0\<rparr>"

definition with_offset :: "u8 list \<Rightarrow> nat \<Rightarrow> BitReader" where
  "with_offset buf bit_offset = \<lparr>br_buf = buf, br_pos = min bit_offset (length buf * 8)\<rparr>"

definition remaining :: "BitReader \<Rightarrow> nat" where
  "remaining r = length (br_buf r) * 8 - br_pos r"

function read_bits_loop :: "u8 list \<Rightarrow> nat \<Rightarrow> nat \<Rightarrow> u32 \<Rightarrow> Truncated + (nat \<times> u32)" where
  "read_bits_loop buf pos left out =
     (if left = 0 then Inr (pos, out)
      else case get_at buf (pos div 8) of
        None \<Rightarrow> Inl Truncated
      | Some byte \<Rightarrow>
          let bit_in_byte = pos mod 8;
              avail = 8 - bit_in_byte;
              tk = min avail left;
              shift = avail - tk;
              msk = (if tk = 8 then 0xff else sat_sub (wshl 1 tk) 1)
          in read_bits_loop buf (pos + tk) (left - tk)
               (wshl out tk OR (wshr (ucast byte) shift AND msk)))"
  by pat_completeness auto
termination
  by (relation "measure (\<lambda>(buf, pos, left, out). left)") auto

declare read_bits_loop.simps [simp del]

definition read_bits :: "nat \<Rightarrow> BitReader \<Rightarrow> Truncated + (u32 \<times> BitReader)" where
  "read_bits n r =
     (if n = 0 then Inr (0, r)
      else if remaining r < n then Inl Truncated
      else and_then (read_bits_loop (br_buf r) (br_pos r) n 0)
             (\<lambda>(pos, out). Inr (out, r\<lparr>br_pos := pos\<rparr>)))"

definition read_bit :: "BitReader \<Rightarrow> Truncated + (u32 \<times> BitReader)" where
  "read_bit r = read_bits 1 r"

definition read_bits_u8 :: "nat \<Rightarrow> BitReader \<Rightarrow> Truncated + (u8 \<times> BitReader)" where
  "read_bits_u8 n r = and_then (read_bits (min n 8) r) (\<lambda>(v, r). Inr (ucast v, r))"

definition read_bits_u16 :: "nat \<Rightarrow> BitReader \<Rightarrow> Truncated + (u16 \<times> BitReader)" where
  "read_bits_u16 n r = and_then (read_bits (min n 16) r) (\<lambda>(v, r). Inr (ucast v, r))"

definition leading_zeros :: "'a::len word \<Rightarrow> nat" where
  "leading_zeros v = length (takeWhile Not (word_bits LENGTH('a) v))"

definition floor_log2 :: "u32 \<Rightarrow> nat" where
  "floor_log2 v = 32 - 1 - leading_zeros v"

definition read_ns :: "u32 \<Rightarrow> BitReader \<Rightarrow> Truncated + (u32 \<times> BitReader)" where
  "read_ns n r =
     (if n \<le> 1 then Inr (0, r)
      else let w = floor_log2 n + 1;
               m = sat_sub (wshl 1 w) n
           in and_then (read_bits (w - 1) r) (\<lambda>(v, r).
                if v < m then Inr (v, r)
                else and_then (read_bit r) (\<lambda>(b, r).
                       Inr (sat_add (sat_sub (push_bit 1 v) m) b, r))))"

definition read_ns_u8 :: "u32 \<Rightarrow> BitReader \<Rightarrow> Truncated + (u8 \<times> BitReader)" where
  "read_ns_u8 n r = and_then (read_ns (min n 256) r) (\<lambda>(v, r). Inr (ucast v, r))"

definition skip :: "nat \<Rightarrow> BitReader \<Rightarrow> Truncated + BitReader" where
  "skip n r = (if remaining r < n then Inl Truncated else Inr (r\<lparr>br_pos := br_pos r + n\<rparr>))"

definition writer_new :: "u8 list \<Rightarrow> BitWriter" where
  "writer_new buf = \<lparr>bw_buf = replicate (length buf) 0, bw_pos = 0\<rparr>"

function write_bits_loop :: "u32 \<Rightarrow> u8 list \<Rightarrow> nat \<Rightarrow> nat \<Rightarrow> Overflow + (u8 list \<times> nat)" where
  "write_bits_loop v buf pos left =
     (if left = 0 then Inr (buf, pos)
      else case get_at buf (pos div 8) of
        None \<Rightarrow> Inl Overflow
      | Some byte \<Rightarrow>
          let bit_in_byte = pos mod 8;
              avail = 8 - bit_in_byte;
              tk = min avail left;
              chunk = wshr v (left - tk) AND sat_sub (wshl 1 tk) 1;
              chunk8 = ucast chunk
          in write_bits_loop v (buf[pos div 8 := byte OR wshl chunk8 (avail - tk)])
               (pos + tk) (left - tk))"
  by pat_completeness auto
termination
  by (relation "measure (\<lambda>(v, buf, pos, left). left)") auto

declare write_bits_loop.simps [simp del]

definition write_bits :: "u32 \<Rightarrow> nat \<Rightarrow> BitWriter \<Rightarrow> Overflow + BitWriter" where
  "write_bits v n w =
     (if n = 0 then Inr w
      else if length (bw_buf w) * 8 - bw_pos w < n then Inl Overflow
      else let v = (if n = 32 then v else v AND sat_sub (wshl 1 n) 1)
           in and_then (write_bits_loop v (bw_buf w) (bw_pos w) n)
                (\<lambda>(buf, pos). Inr (w\<lparr>bw_buf := buf, bw_pos := pos\<rparr>)))"

definition write_bit :: "bool \<Rightarrow> BitWriter \<Rightarrow> Overflow + BitWriter" where
  "write_bit b w = write_bits (of_bool b) 1 w"

definition write_ns :: "u32 \<Rightarrow> u32 \<Rightarrow> BitWriter \<Rightarrow> Overflow + BitWriter" where
  "write_ns v n w =
     (if n \<le> 1 then Inr w
      else let wd = floor_log2 n + 1;
               m = sat_sub (wshl 1 wd) n
           in if v < m then write_bits v (wd - 1) w
              else let x = sat_add v m
                   in and_then (write_bits (drop_bit 1 x) (wd - 1) w)
                        (write_bit (x AND 1 = 1)))"

definition finish :: "BitWriter \<Rightarrow> nat" where
  "finish w = (bw_pos w + 7) div 8"

subsection \<open>Specification\<close>

definition stream_bits :: "u8 list \<Rightarrow> bool list" where
  "stream_bits buf = concat (map (word_bits 8) buf)"

definition pending :: "BitReader \<Rightarrow> bool list" where
  "pending r = drop (br_pos r) (stream_bits (br_buf r))"

definition written :: "BitWriter \<Rightarrow> bool list" where
  "written w = take (bw_pos w) (stream_bits (bw_buf w))"

text \<open>Between writes the cursor is inside the buffer and everything after it is still zero.\<close>

definition writer_inv :: "BitWriter \<Rightarrow> bool" where
  "writer_inv w \<longleftrightarrow> bw_pos w \<le> 8 * length (bw_buf w) \<and>
     drop (bw_pos w) (stream_bits (bw_buf w)) = replicate (8 * length (bw_buf w) - bw_pos w) False"

text \<open>The \<open>ns(n)\<close> code word of \<open>v\<close>.\<close>

definition ns_bits :: "u32 \<Rightarrow> u32 \<Rightarrow> bool list" where
  "ns_bits n v =
     (if n \<le> 1 then []
      else let w = floor_log2 n + 1; m = 2 ^ w - n
           in if v < m then word_bits (w - 1) v else word_bits w (v + m))"

text \<open>
  \<open>decodes pend p bs x\<close>: with the bits \<open>bs\<close> in front, \<open>p\<close> returns \<open>x\<close> and leaves exactly what
  follows them.  \<open>emits iv wri room full p bs\<close>: with room for \<open>bs\<close> bits, \<open>p\<close> appends exactly
  \<open>bs\<close>; without it, \<open>p\<close> reports \<open>full\<close>.  \<open>puts\<close> is that statement for the bit writer.
\<close>

definition decodes :: "('r \<Rightarrow> bool list) \<Rightarrow> ('r \<Rightarrow> 'e + ('a \<times> 'r)) \<Rightarrow> bool list \<Rightarrow> 'a \<Rightarrow> bool" where
  "decodes pend p bs x \<longleftrightarrow>
     (\<forall>r rest. pend r = bs @ rest \<longrightarrow> (\<exists>r'. p r = Inr (x, r') \<and> pend r' = rest))"

definition emits ::
  "('w \<Rightarrow> bool) \<Rightarrow> ('w \<Rightarrow> bool list) \<Rightarrow> ('w \<Rightarrow> nat) \<Rightarrow> 'e \<Rightarrow> ('w \<Rightarrow> 'e + 'w) \<Rightarrow> bool list \<Rightarrow> bool" where
  "emits iv wri room full p bs \<longleftrightarrow>
     (\<forall>w. iv w \<longrightarrow>
        (if length bs \<le> room w
         then \<exists>w'. p w = Inr w' \<and> iv w' \<and> wri w' = wri w @ bs \<and> room w' = room w - length bs
         else p w = Inl full))"

definition bw_room :: "BitWriter \<Rightarrow> nat" where
  "bw_room w = length (bw_buf w) * 8 - bw_pos w"

abbreviation puts :: "'e \<Rightarrow> (BitWriter \<Rightarrow> 'e + BitWriter) \<Rightarrow> bool list \<Rightarrow> bool" where
  "puts full p bs \<equiv> emits writer_inv written bw_room full p bs"

subsection \<open>Bits of a buffer\<close>

lemma length_stream_bits [simp]: "length (stream_bits buf) = 8 * length buf"
  by (induction buf) (simp_all add: stream_bits_def)

lemma stream_bits_Nil [simp]: "stream_bits [] = []"
  by (simp add: stream_bits_def)

lemma stream_bits_append: "stream_bits (xs @ ys) = stream_bits xs @ stream_bits ys"
  by (simp add: stream_bits_def)

lemma stream_bits_replicate_0 [simp]: "stream_bits (replicate n 0) = replicate (8 * n) False"
  by (induction n) (simp_all add: stream_bits_def flip: replicate_add)

lemma nth_stream_bits:
  "p < 8 * length buf \<Longrightarrow> stream_bits buf ! p = bit (buf ! (p div 8)) (7 - p mod 8)"
proof (induction buf arbitrary: p)
  case Nil
  then show ?case by simp
next
  case (Cons b buf)
  show ?case
  proof (cases "p < 8")
    case True
    then show ?thesis
      by (simp add: stream_bits_def nth_append nth_word_bits)
  next
    case False
    then have "stream_bits (b # buf) ! p = stream_bits buf ! (p - 8)"
      by (simp add: stream_bits_def nth_append)
    also have "\<dots> = bit (buf ! ((p - 8) div 8)) (7 - (p - 8) mod 8)"
      using Cons.prems False by (intro Cons.IH) simp
    also have "\<dots> = bit ((b # buf) ! (p div 8)) (7 - p mod 8)"
      using False by (simp add: le_div_geq le_mod_geq not_less nth_Cons')
    finally show ?thesis .
  qed
qed

lemma stream_bits_take: "stream_bits (take n buf) = take (8 * n) (stream_bits buf)"
proof (induction buf arbitrary: n)
  case Nil
  then show ?case by simp
next
  case (Cons b buf)
  then show ?case
    by (cases n) (simp_all add: stream_bits_def)
qed

lemma length_pending: "length (pending r) = remaining r"
  by (simp add: pending_def remaining_def)

text \<open>Positions inside the byte at \<open>p div 8\<close>.\<close>

lemma within_byte:
  fixes p k :: nat
  assumes "k < 8 - p mod 8"
  shows "(p + k) div 8 = p div 8" and "(p + k) mod 8 = p mod 8 + k"
proof -
  have k: "p mod 8 + k < 8" using assms by simp
  then show "(p + k) div 8 = p div 8"
    by (simp add: div_add1_eq [of p k 8])
  show "(p + k) mod 8 = p mod 8 + k"
    using k mod_add_left_eq [of p 8 k] by simp
qed

lemma chunk_of_byte:
  assumes "pos + tk \<le> 8 * length buf" and "tk \<le> 8 - pos mod 8"
  shows "wshr (ucast (buf ! (pos div 8))) (8 - pos mod 8 - tk) AND mask tk =
         (bits_word (take tk (drop pos (stream_bits buf))) :: u32)"
proof (rule bit_word_eqI)
  fix i assume "i < LENGTH(32)"
  have len: "length (take tk (drop pos (stream_bits buf))) = tk"
    using assms(1) by simp
  show "bit (wshr (ucast (buf ! (pos div 8))) (8 - pos mod 8 - tk) AND mask tk :: u32) i \<longleftrightarrow>
        bit (bits_word (take tk (drop pos (stream_bits buf))) :: u32) i"
  proof (cases "i < tk")
    case True
    have *: "tk - Suc i < 8 - pos mod 8" using True assms(2) by simp
    have pos: "pos + (tk - Suc i) < 8 * length buf"
      using True assms(1) by simp
    have "take tk (drop pos (stream_bits buf)) ! (tk - Suc i) =
          bit (buf ! (pos div 8)) (7 - (pos mod 8 + (tk - Suc i)))"
      using True assms(1) pos within_byte [OF *] by (simp add: nth_stream_bits)
    moreover have "7 - (pos mod 8 + (tk - Suc i)) = 8 - pos mod 8 - tk + i"
      using True assms(2) by simp
    moreover have "8 + i - (pos mod 8 + tk) < 32" and "8 - pos mod 8 - tk < 32"
      using True by simp_all
    ultimately show ?thesis
      using True len \<open>i < LENGTH(32)\<close> assms(2)
      by (simp add: bit_simps_pb wshr_def bit_and_iff bit_mask_iff bit_drop_bit_eq bit_ucast_iff
          del: length_take length_drop)
  next
    case False
    then show ?thesis
      using len by (simp add: bit_simps_pb bit_and_iff bit_mask_iff)
  qed
qed

subsection \<open>The reader refines its specification\<close>

lemma read_mask: "tk \<le> 8 \<Longrightarrow> (if tk = 8 then 0xff else sat_sub (wshl 1 tk) 1) = (mask tk :: u32)"
  by (auto simp: mask_by_shift mask_eq_exp_minus_1)

lemma wshl_small: "k < LENGTH('a) \<Longrightarrow> wshl x k = push_bit k (x :: 'a::len word)"
  by (simp add: wshl_def)

lemma wshr_small: "k < LENGTH('a) \<Longrightarrow> wshr x k = drop_bit k (x :: 'a::len word)"
  by (simp add: wshr_def)

lemma bits_word_take_split:
  assumes "k \<le> n" and "n \<le> length bs"
  shows "(bits_word (take n bs) :: 'a::len word) =
         push_bit (n - k) (bits_word (take k bs)) OR bits_word (take (n - k) (drop k bs))"
proof -
  have "take n bs = take k bs @ take (n - k) (drop k bs)"
    using assms by (metis le_add_diff_inverse take_add)
  moreover have "length (take (n - k) (drop k bs)) = n - k"
    using assms by simp
  ultimately show ?thesis by (metis bits_word_append)
qed

lemma read_bits_loop_spec:
  assumes "pos + left \<le> 8 * length buf"
  shows "read_bits_loop buf pos left out =
         Inr (pos + left, push_bit left out OR bits_word (take left (drop pos (stream_bits buf))))"
  using assms
proof (induction buf pos left out rule: read_bits_loop.induct)
  case (1 buf pos left out)
  show ?case
  proof (cases "left = 0")
    case True
    then show ?thesis by (simp add: read_bits_loop.simps)
  next
    case False
    define tk where "tk = min (8 - pos mod 8) left"
    have tk: "0 < tk" "tk \<le> left" "tk \<le> 8 - pos mod 8" "tk \<le> 8"
      using False by (auto simp: tk_def)
    have q: "pos div 8 < length buf" using "1.prems" False by simp
    define c :: u32 where "c = bits_word (take tk (drop pos (stream_bits buf)))"
    have c: "wshr (ucast (buf ! (pos div 8))) (8 - pos mod 8 - tk) AND mask tk = c"
      unfolding c_def using "1.prems" tk by (intro chunk_of_byte) simp_all
    have step: "read_bits_loop buf pos left out =
        read_bits_loop buf (pos + tk) (left - tk) (push_bit tk out OR c)"
      using False q tk c
      by (subst read_bits_loop.simps)
        (simp add: get_at_def Let_def read_mask wshl_small flip: tk_def)
    have IH: "read_bits_loop buf (pos + tk) (left - tk) (push_bit tk out OR c) =
        Inr (pos + tk + (left - tk), push_bit (left - tk) (push_bit tk out OR c) OR
          bits_word (take (left - tk) (drop (pos + tk) (stream_bits buf))))"
      using "1.IH" [OF False, of "buf ! (pos div 8)" "pos mod 8" "8 - pos mod 8" tk
          "8 - pos mod 8 - tk"] "1.prems" q tk c
      by (simp add: get_at_def tk_def [symmetric] read_mask wshl_small del: push_bit_and push_bit_or)
    have val: "push_bit left out OR bits_word (take left (drop pos (stream_bits buf))) =
        push_bit (left - tk) (push_bit tk out OR c) OR
          bits_word (take (left - tk) (drop (pos + tk) (stream_bits buf)))"
      using tk "1.prems" bits_word_take_split [of tk left "drop pos (stream_bits buf)", where ?'a = 32]
      by (simp add: c_def push_bit_or or.assoc add.commute)
    show ?thesis
      using step IH val tk by simp
  qed
qed

lemma read_bits_spec:
  "read_bits n r =
     (if length (pending r) < n then Inl Truncated
      else Inr (bits_word (take n (pending r)), r\<lparr>br_pos := br_pos r + n\<rparr>))"
  by (auto simp: read_bits_def length_pending remaining_def read_bits_loop_spec pending_def)

lemma pending_advance: "pending (r\<lparr>br_pos := br_pos r + n\<rparr>) = drop n (pending r)"
  by (simp add: pending_def add.commute)

subsection \<open>The writer refines its specification\<close>

lemma stream_bits_update:
  assumes "pos + tk \<le> 8 * length buf" and "tk \<le> 8 - pos mod 8" and "0 < tk"
    and zero: "drop pos (stream_bits buf) = replicate (8 * length buf - pos) False"
    and c: "take_bit tk c = c"
  shows "stream_bits (buf[pos div 8 := buf ! (pos div 8) OR push_bit (8 - pos mod 8 - tk) c]) =
         take pos (stream_bits buf) @ word_bits tk c @ replicate (8 * length buf - pos - tk) False"
    (is "stream_bits ?buf' = ?rhs")
proof (rule nth_equalityI)
  show "length (stream_bits ?buf') = length ?rhs"
    using assms(1) by simp
next
  fix i assume "i < length (stream_bits ?buf')"
  then have i: "i < 8 * length buf" by simp
  have q: "pos div 8 < length buf" using assms(1,3) by simp
  have z: "\<not> stream_bits buf ! j" if "pos \<le> j" "j < 8 * length buf" for j
  proof -
    have "drop pos (stream_bits buf) ! (j - pos) = replicate (8 * length buf - pos) False ! (j - pos)"
      by (simp add: zero)
    with that show ?thesis by simp
  qed
  have cbit: "bit c k \<Longrightarrow> k < tk" for k
    by (metis c bit_take_bit_iff)
  show "stream_bits ?buf' ! i = ?rhs ! i"
  proof (cases "i div 8 = pos div 8")
    case False
    then have "stream_bits ?buf' ! i = stream_bits buf ! i"
      using i by (simp add: nth_stream_bits)
    moreover have "i < pos \<or> pos + tk \<le> i"
    proof (rule ccontr)
      assume "\<not> (i < pos \<or> pos + tk \<le> i)"
      then have "i = pos + (i - pos)" "i - pos < 8 - pos mod 8" using assms(2) by arith+
      with within_byte(1) [of "i - pos" pos] False show False by simp
    qed
    ultimately show ?thesis
      using i z [of i] assms(1) by (auto simp: nth_append not_less)
  next
    case True
    have byte: "stream_bits ?buf' ! i \<longleftrightarrow>
        stream_bits buf ! i \<or> (8 - pos mod 8 - tk \<le> 7 - i mod 8 \<and>
          bit c (7 - i mod 8 - (8 - pos mod 8 - tk)))"
      using i q True by (auto simp: nth_stream_bits bit_or_iff bit_push_bit_iff)
    consider (before) "i < pos" | (field) "pos \<le> i" "i < pos + tk" | (after) "pos + tk \<le> i"
      by linarith
    then show ?thesis
    proof cases
      case before
      have im: "i mod 8 < pos mod 8"
        using before True by (metis div_mult_mod_eq nat_add_left_cancel_less)
      have "tk \<le> 7 - i mod 8 - (8 - pos mod 8 - tk)"
        using im assms(2) by simp
      with cbit have "\<not> bit c (7 - i mod 8 - (8 - pos mod 8 - tk))"
        by (metis not_less)
      with before byte i show ?thesis
        by (simp add: nth_append)
    next
      case field
      have im: "i mod 8 = pos mod 8 + (i - pos)"
        using within_byte(2) [of "i - pos" pos] field assms(2) by simp
      have "i - pos < tk" using field by simp
      moreover have "7 - i mod 8 - (8 - pos mod 8 - tk) = tk - 1 - (i - pos)"
        and "8 - pos mod 8 - tk \<le> 7 - i mod 8"
        using im field assms(2) by simp_all
      ultimately show ?thesis
        using field byte i z [of i] by (simp add: nth_append nth_word_bits)
    next
      case after
      have "pos mod 8 + tk \<le> i mod 8"
        using after True by (metis add.assoc add_le_cancel_left div_mult_mod_eq)
      then have "\<not> (8 - pos mod 8 - tk \<le> 7 - i mod 8)"
        using assms(2) mod_less_divisor [of 8 i] by simp
      moreover have "\<not> i - pos < tk" using after by simp
      ultimately show ?thesis
        using after byte i z [of i] assms(1) by (simp add: nth_append)
    qed
  qed
qed

lemma write_bits_loop_spec:
  assumes "pos + left \<le> 8 * length buf" and "left \<le> 32"
    and "drop pos (stream_bits buf) = replicate (8 * length buf - pos) False"
  shows "\<exists>buf'. write_bits_loop v buf pos left = Inr (buf', pos + left) \<and>
           length buf' = length buf \<and>
           stream_bits buf' = take pos (stream_bits buf) @ word_bits left v @
             replicate (8 * length buf - pos - left) False"
  using assms
proof (induction v buf pos left rule: write_bits_loop.induct)
  case (1 v buf pos left)
  show ?case
  proof (cases "left = 0")
    case True
    then show ?thesis
      using "1.prems" append_take_drop_id [of pos "stream_bits buf"]
      by (simp add: write_bits_loop.simps)
  next
    case False
    define tk where "tk = min (8 - pos mod 8) left"
    have tk: "0 < tk" "tk \<le> left" "tk \<le> 8 - pos mod 8" "tk \<le> 8"
      using False by (auto simp: tk_def)
    have q: "pos div 8 < length buf" using "1.prems" False by simp
    have msk: "sat_sub (wshl 1 tk) 1 = (mask tk :: u32)"
      using tk by (simp add: mask_by_shift)
    have shl: "wshl x (8 - pos mod 8 - tk) = push_bit (8 - pos mod 8 - tk) x" for x :: u8
      using tk(1) by (simp add: wshl_def)
    define c :: u8 where "c = ucast (drop_bit (left - tk) v AND mask tk)"
    define buf1 where "buf1 = buf[pos div 8 := buf ! (pos div 8) OR push_bit (8 - pos mod 8 - tk) c]"
    have cc: "take_bit tk c = c"
      unfolding c_def by (rule bit_word_eqI) (auto simp: bit_simps bit_take_bit_iff)
    have wb: "word_bits tk c = word_bits tk (drop_bit (left - tk) v)"
      using tk by (intro nth_equalityI) (auto simp: bit_simps_pb c_def bit_simps)
    have sb: "stream_bits buf1 = take pos (stream_bits buf) @ word_bits tk c @
        replicate (8 * length buf - pos - tk) False"
      unfolding buf1_def using "1.prems" tk cc by (intro stream_bits_update) simp_all
    have step: "write_bits_loop v buf pos left = write_bits_loop v buf1 (pos + tk) (left - tk)"
      using False q tk "1.prems"(2)
      by (subst write_bits_loop.simps)
        (simp add: get_at_def Let_def msk shl [simplified] wshr_small c_def buf1_def flip: tk_def)
    have zero1: "drop (pos + tk) (stream_bits buf1) = replicate (8 * length buf1 - (pos + tk)) False"
      unfolding sb append_assoc [symmetric]
      by (subst drop_prefix_append) (use "1.prems"(1) tk in \<open>simp_all add: buf1_def\<close>)
    have "\<exists>buf'. write_bits_loop v buf1 (pos + tk) (left - tk) = Inr (buf', pos + tk + (left - tk)) \<and>
           length buf' = length buf1 \<and>
           stream_bits buf' = take (pos + tk) (stream_bits buf1) @ word_bits (left - tk) v @
             replicate (8 * length buf1 - (pos + tk) - (left - tk)) False"
    proof -
      have g: "get_at buf (pos div 8) = Some (buf ! (pos div 8))"
        using q by (simp add: get_at_def)
      have b: "buf[pos div 8 := buf ! (pos div 8) OR
          wshl (ucast (wshr v (left - tk) AND sat_sub (wshl 1 tk) 1)) (8 - pos mod 8 - tk)] = buf1"
        using tk "1.prems"(2) by (simp add: buf1_def c_def msk shl wshr_small del: diff_diff_left)
      have len: "length buf1 = length buf" by (simp add: buf1_def)
      show ?thesis
        using "1.IH" [OF False g refl refl refl refl refl] "1.prems"(1,2) tk zero1
        unfolding tk_def [symmetric] b by (simp only: len)
    qed
    moreover have "take (pos + tk) (stream_bits buf1) = take pos (stream_bits buf) @ word_bits tk c"
      using "1.prems" tk by (simp add: sb)
    moreover have "word_bits left v = word_bits tk c @ word_bits (left - tk) v"
      using word_bits_split [OF tk(2), of v] wb by simp
    ultimately show ?thesis
      using step tk by (simp add: buf1_def)
  qed
qed

lemma write_bits_spec:
  assumes "writer_inv w" and "n \<le> 32"
  shows "if length (bw_buf w) * 8 - bw_pos w < n then write_bits v n w = Inl Overflow
         else \<exists>w'. write_bits v n w = Inr w' \<and> writer_inv w' \<and>
                written w' = written w @ word_bits n v \<and>
                bw_pos w' = bw_pos w + n \<and> length (bw_buf w') = length (bw_buf w)"
proof (cases "n = 0 \<or> length (bw_buf w) * 8 - bw_pos w < n")
  case True
  then show ?thesis using assms(1) by (auto simp: write_bits_def)
next
  case False
  define v' where "v' = (if n = 32 then v else v AND sat_sub (wshl 1 n) 1)"
  have v': "word_bits n v' = word_bits n v"
  proof (rule word_bits_cong)
    fix i assume "i < n"
    then show "bit v' i \<longleftrightarrow> bit v i"
      using assms(2) by (simp add: v'_def mask_by_shift bit_and_iff bit_mask_iff)
  qed
  have le: "bw_pos w + n \<le> 8 * length (bw_buf w)" using False by arith
  have "\<exists>buf'. write_bits_loop v' (bw_buf w) (bw_pos w) n = Inr (buf', bw_pos w + n) \<and>
           length buf' = length (bw_buf w) \<and>
           stream_bits buf' = take (bw_pos w) (stream_bits (bw_buf w)) @ word_bits n v' @
             replicate (8 * length (bw_buf w) - bw_pos w - n) False"
    using assms le by (intro write_bits_loop_spec) (auto simp: writer_inv_def)
  then obtain buf' where buf': "write_bits_loop v' (bw_buf w) (bw_pos w) n = Inr (buf', bw_pos w + n)"
    and len: "length buf' = length (bw_buf w)"
    and sb: "stream_bits buf' = written w @ word_bits n v @
             replicate (8 * length (bw_buf w) - bw_pos w - n) False"
    by (auto simp: v' written_def)
  have lw: "length (written w) = bw_pos w" using le by (simp add: written_def)
  let ?w' = "w\<lparr>bw_buf := buf', bw_pos := bw_pos w + n\<rparr>"
  have "write_bits v n w = Inr ?w'"
    using False buf' by (simp add: write_bits_def Let_def v'_def)
  moreover have "writer_inv ?w'" and "written ?w' = written w @ word_bits n v"
    using le len lw by (simp_all add: writer_inv_def written_def [of ?w'] sb)
  ultimately show ?thesis using False len by auto
qed

lemma writer_inv_new [simp]: "writer_inv (writer_new out)" "written (writer_new out) = []"
  by (simp_all add: writer_inv_def writer_new_def written_def)

lemma emits_bind:
  assumes p: "emits iv wri room full p bs" and q: "emits iv wri room full q bs'"
  shows "emits iv wri room full (\<lambda>w. and_then (p w) q) (bs @ bs')"
  unfolding emits_def
proof (intro allI impI)
  fix w assume w: "iv w"
  show "if length (bs @ bs') \<le> room w
    then \<exists>w'. and_then (p w) q = Inr w' \<and> iv w' \<and> wri w' = wri w @ bs @ bs' \<and>
           room w' = room w - length (bs @ bs')
    else and_then (p w) q = Inl full"
  proof (cases "length bs \<le> room w")
    case True
    then have "\<exists>w1. p w = Inr w1 \<and> iv w1 \<and> wri w1 = wri w @ bs \<and> room w1 = room w - length bs"
      using p w by (simp add: emits_def)
    then obtain w1 where w1: "p w = Inr w1" "iv w1" "wri w1 = wri w @ bs"
        "room w1 = room w - length bs"
      by blast
    from q w1(2) have "if length bs' \<le> room w1
      then \<exists>w'. q w1 = Inr w' \<and> iv w' \<and> wri w' = wri w1 @ bs' \<and> room w' = room w1 - length bs'
      else q w1 = Inl full"
      by (simp add: emits_def)
    with w1 True show ?thesis by (auto split: if_splits)
  next
    case False
    with p w show ?thesis by (auto simp: emits_def)
  qed
qed

lemma emits_ret: "emits iv wri room full Inr []"
  by (simp add: emits_def)

lemma decodes_ret: "decodes pend (\<lambda>r. Inr (x, r)) [] x"
  by (simp add: decodes_def)

lemma decodes_bind:
  assumes "decodes pend p bs x" and "decodes pend (q x) bs' y"
  shows "decodes pend (\<lambda>r. and_then (p r) (\<lambda>(a, r). q a r)) (bs @ bs') y"
  unfolding decodes_def
proof (intro allI impI)
  fix r rest assume "pend r = (bs @ bs') @ rest"
  with assms(1) obtain r1 where "p r = Inr (x, r1)" "pend r1 = bs' @ rest"
    by (auto simp: decodes_def)
  with assms(2) show "\<exists>r'. and_then (p r) (\<lambda>(a, r). q a r) = Inr (y, r') \<and> pend r' = rest"
    by (auto simp: decodes_def)
qed

text \<open>What a client of a bit reader may rely on.\<close>

locale bit_source =
  fixes rd :: "nat \<Rightarrow> 'r \<Rightarrow> 'e + (u32 \<times> 'r)" and pend :: "'r \<Rightarrow> bool list" and short :: 'e
  assumes rd_short: "length (pend r) < n \<Longrightarrow> rd n r = Inl short"
    and rd_field: "n \<le> length (pend r) \<Longrightarrow>
      \<exists>r'. rd n r = Inr (bits_word (take n (pend r)), r') \<and> pend r' = drop n (pend r)"
begin

lemma decodes_field: "unat v < 2 ^ n \<Longrightarrow> decodes pend (rd n) (word_bits n v) v"
  unfolding decodes_def
proof (intro allI impI)
  fix r rest assume v: "unat v < 2 ^ n" and p: "pend r = word_bits n v @ rest"
  with rd_field [of n r] have "\<exists>r'. rd n r = Inr (take_bit n v, r') \<and> pend r' = rest"
    by simp
  with v show "\<exists>r'. rd n r = Inr (v, r') \<and> pend r' = rest"
    by (simp add: take_bit_fits)
qed

lemma decodes_flag: "decodes pend (rd 1) [b] (of_bool b)"
proof -
  have "word_bits 1 (of_bool b :: u32) = [b]" by (simp add: word_bits_def)
  with decodes_field [of "of_bool b" 1] show ?thesis by simp
qed

lemma rd_consumes:
  assumes "rd n r = Inr (v, r')"
  shows "n \<le> length (pend r)" and "pend r' = drop n (pend r)" and "v = bits_word (take n (pend r))"
proof -
  show "n \<le> length (pend r)" using assms rd_short [of r n] by fastforce
  with rd_field [of n r] assms show "pend r' = drop n (pend r)" and "v = bits_word (take n (pend r))"
    by auto
qed

lemma rd_less: "rd n r = Inr (v, r') \<Longrightarrow> unat v < 2 ^ n"
  using rd_consumes [of n r v r'] bits_word_less [of n n "take n (pend r)"] by simp

end

text \<open>What a client of a bit writer may rely on.\<close>

locale bit_sink =
  fixes wr :: "u32 \<Rightarrow> nat \<Rightarrow> 'w \<Rightarrow> 'e + 'w" and iv :: "'w \<Rightarrow> bool"
    and wri :: "'w \<Rightarrow> bool list" and room :: "'w \<Rightarrow> nat" and full :: 'e
  assumes wr_full: "iv w \<Longrightarrow> n \<le> 32 \<Longrightarrow> room w < n \<Longrightarrow> wr v n w = Inl full"
    and wr_field: "iv w \<Longrightarrow> n \<le> 32 \<Longrightarrow> n \<le> room w \<Longrightarrow>
      \<exists>w'. wr v n w = Inr w' \<and> iv w' \<and> wri w' = wri w @ word_bits n v \<and> room w' = room w - n"
begin

lemma emits_field: "n \<le> 32 \<Longrightarrow> emits iv wri room full (wr v n) (word_bits n v)"
  unfolding emits_def by (simp add: wr_field wr_full)

lemma emits_flag: "emits iv wri room full (wr (of_bool b) 1) [b]"
proof -
  have "word_bits 1 (of_bool b :: u32) = [b]" by (simp add: word_bits_def)
  with emits_field [of 1 "of_bool b"] show ?thesis by simp
qed

end

interpretation br: bit_source read_bits pending Truncated
  by unfold_locales (auto simp: read_bits_spec pending_advance)

interpretation bw: bit_sink write_bits writer_inv written bw_room Overflow
proof unfold_locales
  fix w n v assume "writer_inv w" "n \<le> 32" "bw_room w < n"
  then show "write_bits v n w = Inl Overflow"
    using write_bits_spec [of w n v] by (simp add: bw_room_def)
next
  fix w n v assume "writer_inv w" "n \<le> 32" "n \<le> bw_room w"
  then show "\<exists>w'. write_bits v n w = Inr w' \<and> writer_inv w' \<and>
      written w' = written w @ word_bits n v \<and> bw_room w' = bw_room w - n"
    using write_bits_spec [of w n v] by (auto simp: bw_room_def)
qed

subsection \<open>The non-symmetric code\<close>

lemma unat_exp: "n < LENGTH('a) \<Longrightarrow> unat (2 ^ n :: 'a::len word) = 2 ^ n"
proof -
  assume n: "n < LENGTH('a)"
  have "unat (of_nat (2 ^ n) :: 'a word) = 2 ^ n"
    using n by (simp only: unsigned_of_nat) (simp add: take_bit_nat_eq_self)
  then show ?thesis by simp
qed

lemma bit_imp_exp_le: "bit v k \<Longrightarrow> 2 ^ k \<le> unat v"
  for v :: "'a::len word"
proof (rule ccontr)
  assume "bit v k" and "\<not> 2 ^ k \<le> unat v"
  then have "take_bit k v = v" by (simp add: take_bit_fits)
  with \<open>bit v k\<close> show False by (metis bit_take_bit_iff less_irrefl)
qed

lemma length_takeWhile_less: "\<exists>x \<in> set xs. \<not> P x \<Longrightarrow> length (takeWhile P xs) < length xs"
  by (induction xs) auto

lemma leading_zeros_bounds:
  fixes v :: "'a::len word"
  assumes "v \<noteq> 0"
  shows "leading_zeros v < LENGTH('a)"
    and "2 ^ (LENGTH('a) - 1 - leading_zeros v) \<le> unat v"
    and "unat v < 2 ^ (LENGTH('a) - leading_zeros v)"
proof -
  let ?bs = "word_bits LENGTH('a) v" and ?z = "leading_zeros v"
  obtain k where k: "bit v k" "k < LENGTH('a)"
    using assms by (metis bit_0_eq bit_imp_le_length bit_word_eqI bot_apply bot_bool_def)
  then have "?bs ! (LENGTH('a) - 1 - k)" by (simp add: nth_word_bits)
  then have "\<exists>x \<in> set ?bs. x" using k by (metis diff_less len_gt_0 length_word_bits nth_mem
        less_imp_diff_less zero_less_one)
  then have z: "?z < length ?bs"
    unfolding leading_zeros_def by (intro length_takeWhile_less) simp
  then show lt: "?z < LENGTH('a)" by simp
  have "?bs ! ?z"
    using nth_length_takeWhile [of Not ?bs] z by (simp add: leading_zeros_def)
  then have "bit v (LENGTH('a) - 1 - ?z)" using lt by (simp add: nth_word_bits)
  then show "2 ^ (LENGTH('a) - 1 - ?z) \<le> unat v" by (rule bit_imp_exp_le)
  have "take_bit (LENGTH('a) - ?z) v = v"
  proof (rule bit_word_eqI)
    fix i assume i: "i < LENGTH('a)"
    have "\<not> bit v i" if "LENGTH('a) - ?z \<le> i"
    proof -
      have j: "LENGTH('a) - 1 - i < ?z" using that i by simp
      have "takeWhile Not ?bs ! (LENGTH('a) - 1 - i) = ?bs ! (LENGTH('a) - 1 - i)"
        using j by (intro takeWhile_nth) (simp add: leading_zeros_def)
      moreover have "\<not> takeWhile Not ?bs ! (LENGTH('a) - 1 - i)"
      proof -
        have "takeWhile Not ?bs ! (LENGTH('a) - 1 - i) \<in> set (takeWhile Not ?bs)"
          using j by (intro nth_mem) (simp add: leading_zeros_def)
        then show ?thesis by (rule set_takeWhileD [THEN conjunct2])
      qed
      ultimately show ?thesis using i by (simp add: nth_word_bits)
    qed
    then show "bit (take_bit (LENGTH('a) - ?z) v) i \<longleftrightarrow> bit v i"
      by (metis bit_take_bit_iff not_le)
  qed
  then show "unat v < 2 ^ (LENGTH('a) - ?z)"
    by (metis take_bit_nat_less_exp unsigned_take_bit_eq)
qed

lemma floor_log2_bounds:
  assumes "v \<noteq> 0"
  shows "2 ^ floor_log2 v \<le> unat v" and "unat v < 2 ^ (floor_log2 v + 1)" and "floor_log2 v \<le> 31"
proof -
  have "32 - leading_zeros v = Suc (31 - leading_zeros v)"
    using leading_zeros_bounds(1) [OF assms] by simp
  with leading_zeros_bounds [OF assms]
  show "2 ^ floor_log2 v \<le> unat v" and "unat v < 2 ^ (floor_log2 v + 1)" and "floor_log2 v \<le> 31"
    by (simp_all add: floor_log2_def)
qed

text \<open>The arithmetic of one code: \<open>w\<close> bits, of which the first \<open>m\<close> values use one less.\<close>

lemma ns_arith:
  assumes n: "2 \<le> unat n" "unat n < 2 ^ 31"
  defines "w \<equiv> floor_log2 n + 1"
  shows "1 \<le> w - 1" and "w \<le> 31" and "unat (2 ^ w - n :: u32) = 2 ^ w - unat n"
    and "sat_sub (wshl 1 w) n = 2 ^ w - n"
    and "0 < (2 ^ w - unat n :: nat)" and "(2 ^ w - unat n :: nat) \<le> 2 ^ (w - 1)"
proof -
  have "n \<noteq> 0" using n(1) by auto
  note b = floor_log2_bounds [OF this]
  have "2 ^ floor_log2 n < (2 ^ 31 :: nat)" using b(1) n(2) by (rule le_less_trans)
  then have l: "floor_log2 n < 31" by (rule power_less_imp_less_exp [rotated]) simp
  then show w: "w \<le> 31" by (simp add: w_def)
  have "floor_log2 n \<noteq> 0" using b(2) n(1) by (cases "floor_log2 n") auto
  then show "1 \<le> w - 1" by (simp add: w_def)
  have u: "unat (2 ^ w :: u32) = 2 ^ w"
    using w by (intro unat_exp) simp
  have lt: "unat n < 2 ^ w" using b(2) by (simp add: w_def)
  then have le: "n \<le> 2 ^ w" by (simp add: word_le_nat_alt u)
  then show "unat (2 ^ w - n :: u32) = 2 ^ w - unat n" by (simp add: unat_sub u)
  show "sat_sub (wshl 1 w) n = 2 ^ w - n" using w le by (simp add: sat_sub_def wshl_def)
  show "0 < (2 ^ w - unat n :: nat)" using lt by simp
  show "(2 ^ w - unat n :: nat) \<le> 2 ^ (w - 1)" using b(1) by (simp add: w_def)
qed

lemma word_bits_last: "0 < n \<Longrightarrow> word_bits n v = word_bits (n - 1) (drop_bit 1 v) @ [bit v 0]"
  using word_bits_split [of "n - 1" n v] by (simp add: word_bits_def)

lemma emits_write_ns:
  assumes "unat n < 2 ^ 31" and "v < n"
  shows "puts Overflow (write_ns v n) (ns_bits n v)"
proof (cases "n \<le> 1")
  case True
  then show ?thesis by (simp add: write_ns_def [abs_def] ns_bits_def emits_ret)
next
  case False
  define w where "w = floor_log2 n + 1"
  define m :: u32 where "m = 2 ^ w - n"
  have n: "2 \<le> unat n" using False by (simp add: word_le_nat_alt)
  note a = ns_arith [OF n assms(1), folded w_def, folded m_def]
  have v: "unat v < unat n" using assms(2) by (simp add: word_less_nat_alt)
  show ?thesis
  proof (cases "v < m")
    case True
    have "write_ns v n = write_bits v (w - 1)"
      using False True a(4) unfolding write_ns_def Let_def w_def [symmetric] by (intro ext) simp
    moreover have "ns_bits n v = word_bits (w - 1) v"
      using False True unfolding ns_bits_def Let_def w_def [symmetric] m_def [symmetric] by simp
    ultimately show ?thesis
      using a(2) bw.emits_field [of "w - 1" v] by simp
  next
    case ge: False
    have "unat m \<le> 2 ^ 30"
      unfolding a(3) using a(2) by (intro order_trans [OF a(6)] power_increasing) simp_all
    then have "unat v + unat m < 2 ^ 32"
      using v assms(1) by simp
    then have x: "sat_add v m = v + m"
      by (simp add: sat_add_def plus_less_left_iff)
    have "(v + m) AND 1 = 1 \<longleftrightarrow> bit (v + m) 0"
      by (simp only: and_one_eq odd_iff_mod_2_eq_one bit_0)
    then have "write_ns v n = (\<lambda>wr. and_then (write_bits (drop_bit 1 (v + m)) (w - 1) wr)
        (write_bit (bit (v + m) 0)))"
      using False ge a(4) x unfolding write_ns_def Let_def w_def [symmetric] by (intro ext) simp
    moreover have "ns_bits n v = word_bits (w - 1) (drop_bit 1 (v + m)) @ [bit (v + m) 0]"
      using False ge word_bits_last [of w "v + m"] a(1)
      unfolding ns_bits_def Let_def w_def [symmetric] m_def [symmetric] by simp
    moreover have "puts Overflow (write_bit b) [b]" for b
      using bw.emits_flag [of b] by (simp add: write_bit_def [abs_def])
    ultimately show ?thesis
      using a(2) by (simp add: emits_bind bw.emits_field)
  qed
qed

lemma decodes_read_ns:
  assumes "unat n < 2 ^ 31" and "v < n"
  shows "decodes pending (read_ns n) (ns_bits n v) v"
proof (cases "n \<le> 1")
  case True
  with assms(2) have "v = 0"
    by (simp add: word_less_nat_alt word_le_nat_alt word_unat_eq_iff)
  with True show ?thesis by (simp add: read_ns_def [abs_def] ns_bits_def decodes_ret)
next
  case False
  define w where "w = floor_log2 n + 1"
  define m :: u32 where "m = 2 ^ w - n"
  have n: "2 \<le> unat n" using False by (simp add: word_le_nat_alt)
  note a = ns_arith [OF n assms(1), folded w_def, folded m_def]
  have v: "unat v < unat n" using assms(2) by (simp add: word_less_nat_alt)
  have rd: "read_ns n r = and_then (read_bits (w - 1) r) (\<lambda>(v, r).
      if v < m then Inr (v, r)
      else and_then (read_bit r) (\<lambda>(b, r). Inr (sat_add (sat_sub (push_bit 1 v) m) b, r)))" for r
    using False unfolding read_ns_def Let_def w_def [symmetric] a(4) by simp
  show ?thesis
  proof (cases "v < m")
    case True
    have bits: "ns_bits n v = word_bits (w - 1) v @ []"
      using False True unfolding ns_bits_def Let_def w_def [symmetric] m_def [symmetric] by simp
    have "unat v < 2 ^ (w - 1)"
      using True a(3,6) by (simp add: word_less_nat_alt)
    then have "decodes pending (read_bits (w - 1)) (word_bits (w - 1) v) v"
      by (rule br.decodes_field)
    then show ?thesis
      unfolding rd [abs_def] bits by (rule decodes_bind) (use True in \<open>simp add: decodes_ret\<close>)
  next
    case ge: False
    define x where "x = v + m"
    have small: "unat m \<le> 2 ^ 30"
      unfolding a(3) using a(2) by (intro order_trans [OF a(6)] power_increasing) simp_all
    have x: "unat x = unat v + unat m"
      using small v assms(1) by (simp add: x_def unat_add_lem [THEN iffD1])
    have xw: "unat x < 2 ^ w" using x v a(3,5) by simp
    have mv: "unat m \<le> unat v" using ge by (simp add: word_le_nat_alt not_less)
    have h: "unat (drop_bit 1 x) = unat x div 2" by (simp add: drop_bit_Suc unat_div)
    have ge': "\<not> drop_bit 1 x < m"
      unfolding word_less_nat_alt h using mv x by linarith
    have bits: "ns_bits n v = word_bits (w - 1) (drop_bit 1 x) @ [bit x 0] @ []"
      using False ge word_bits_last [of w x] a(1)
      unfolding ns_bits_def Let_def w_def [symmetric] m_def [symmetric] x_def [symmetric] by simp
    have hf: "unat (drop_bit 1 x) < 2 ^ (w - 1)"
      unfolding h using xw a(1) by (cases w) (simp_all add: less_mult_imp_div_less)
    have val: "sat_add (sat_sub (push_bit 1 (drop_bit 1 x)) m) (of_bool (bit x 0)) = v"
    proof -
      have d: "unat (push_bit 1 (drop_bit 1 x)) = 2 * (unat x div 2)"
      proof -
        have "unat (2 * drop_bit 1 x) = 2 * (unat x div 2)"
          using x small v assms(1) by (subst unat_mult_lem [THEN iffD1]) (simp_all only: h, simp_all)
        then show ?thesis by (simp add: push_bit_Suc mult.commute)
      qed
      have b: "unat (of_bool (bit x 0) :: u32) = unat x mod 2"
        by (cases "odd x") (simp_all add: bit_0 unat_arith_simps even_iff_mod_2_eq_zero)
      have "unat (sat_add (sat_sub (push_bit 1 (drop_bit 1 x)) m) (of_bool (bit x 0))) =
            min (2 * (unat x div 2) - unat m + unat x mod 2) (2 ^ 32 - 1)"
        by (simp only: unat_sat_add unat_sat_sub d b) simp
      also have "\<dots> = unat v"
        using x mv small v assms(1) by (simp add: min_def)
      finally show ?thesis by (simp add: word_unat_eq_iff)
    qed
    have "decodes pending (read_bits (w - 1)) (word_bits (w - 1) (drop_bit 1 x)) (drop_bit 1 x)"
      using hf by (rule br.decodes_field)
    then show ?thesis
      unfolding rd [abs_def] bits
    proof (rule decodes_bind)
      have "decodes pending read_bit [bit x 0] (of_bool (bit x 0))"
        using br.decodes_flag [of "bit x 0"] by (simp add: read_bit_def [abs_def])
      then show "decodes pending (\<lambda>r. if drop_bit 1 x < m then Inr (drop_bit 1 x, r)
          else and_then (read_bit r) (\<lambda>(b, r).
            Inr (sat_add (sat_sub (push_bit 1 (drop_bit 1 x)) m) b, r))) ([bit x 0] @ []) v"
        unfolding if_not_P [OF ge']
        by (rule decodes_bind) (simp only: val decodes_ret)
    qed
  qed
qed

subsection \<open>Loops of reads and of writes\<close>

lemma emits_each_ref:
  "(\<And>x. x \<in> set xs \<Longrightarrow> emits iv wri room full (p x) (f x)) \<Longrightarrow>
     emits iv wri room full (each_ref p xs) (concat (map f xs))"
proof (induction xs)
  case Nil
  have "each_ref p [] = Inr" by (intro ext) simp
  then show ?case by (simp add: emits_ret)
next
  case (Cons x xs)
  have "each_ref p (x # xs) = (\<lambda>w. and_then (p x w) (each_ref p xs))" by (intro ext) simp
  with Cons show ?case by (simp add: emits_bind)
qed

lemma emits_ok:
  assumes "emits iv wri room full p bs" and "iv w" and "p w = Inr w'"
  shows "iv w'" and "wri w' = wri w @ bs" and "length bs \<le> room w"
  using assms by (auto simp: emits_def split: if_splits)

lemma emits_map_err:
  "emits iv wri room full p bs \<Longrightarrow> emits iv wri room (g full) (\<lambda>w. map_err g (p w)) bs"
  by (auto simp: emits_def split: if_splits)

lemma decodesE:
  assumes "decodes pend p bs x" and "pend r = bs @ rest"
  obtains r' where "p r = Inr (x, r')" and "pend r' = rest"
  using assms by (auto simp: decodes_def)

lemma decodes_map_err: "decodes pend p bs x \<Longrightarrow> decodes pend (\<lambda>r. map_err g (p r)) bs x"
  by (fastforce simp: decodes_def)

lemma decodes_map:
  "decodes pend p bs x \<Longrightarrow> decodes pend (\<lambda>r. and_then (p r) (\<lambda>(x, r). Inr (f x, r))) bs (f x)"
  by (fastforce simp: decodes_def)

lemma decodes_each_mut:
  "(\<And>x. x \<in> set xs \<Longrightarrow> decodes pend (p x) (f x) (g x)) \<Longrightarrow>
     decodes pend (each_mut p xs) (concat (map f xs)) (map g xs)"
proof (induction xs)
  case Nil
  have "each_mut p [] = (\<lambda>r. Inr ([], r))" by (intro ext) simp
  then show ?case by (simp add: decodes_ret)
next
  case (Cons x xs)
  have "each_mut p (x # xs) = (\<lambda>r. and_then (p x r) (\<lambda>(y, r).
     and_then (each_mut p xs r) (\<lambda>(ys, r). Inr (y # ys, r))))" by (intro ext) simp
  with Cons show ?case by (auto intro!: decodes_bind decodes_map)
qed

lemma decodes_repeat_n:
  "(\<And>x. x \<in> set xs \<Longrightarrow> decodes pend p (f x) x) \<Longrightarrow> length xs = n \<Longrightarrow>
     decodes pend (repeat_n n p) (concat (map f xs)) xs"
proof (induction xs arbitrary: n)
  case Nil
  have "repeat_n 0 p = (\<lambda>r. Inr ([], r))" by (intro ext) simp
  with Nil show ?case by (simp add: decodes_ret)
next
  case (Cons x xs)
  have "repeat_n (Suc (length xs)) p = (\<lambda>r. and_then (p r) (\<lambda>(y, r).
     and_then (repeat_n (length xs) p r) (\<lambda>(ys, r). Inr (y # ys, r))))" by (intro ext) simp
  with Cons show ?case by (auto intro!: decodes_bind decodes_map)
qed

lemma decodes_if:
  "(b \<Longrightarrow> decodes pend p bs x) \<Longrightarrow> (\<not> b \<Longrightarrow> decodes pend q cs x) \<Longrightarrow>
     decodes pend (\<lambda>r. if b then p r else q r) (if b then bs else cs) x"
  by simp

subsection \<open>Narrow reads\<close>

lemma unat_ucast_widen [simp]:
  "unat (ucast (x :: u8) :: u32) = unat x"
  "unat (ucast (y :: u16) :: u32) = unat y"
  "unat (ucast (x :: u8) :: u16) = unat x"
proof -
  have "unat x < 2 ^ 8" "unat y < 2 ^ 16" by (rule order_less_le_trans [OF unsigned_less], simp)+
  then show "unat (ucast x :: u32) = unat x" "unat (ucast y :: u32) = unat y"
    "unat (ucast x :: u16) = unat x"
    by (simp_all add: unsigned_ucast_eq take_bit_nat_eq_self)
qed

lemma ucast_widen_narrow [simp]:
  "ucast (ucast (x :: u8) :: u32) = x"
  "ucast (ucast (y :: u16) :: u32) = y"
  by (rule bit_word_eqI, simp add: bit_ucast_iff)+

lemma decodes_u8: "n \<le> 8 \<Longrightarrow> unat v < 2 ^ n \<Longrightarrow> decodes pending (read_bits_u8 n) (word_bits n (ucast v :: u32)) v"
proof -
  assume n: "n \<le> 8" "unat v < 2 ^ n"
  then have "decodes pending (read_bits n) (word_bits n (ucast v :: u32)) (ucast v)"
    by (intro br.decodes_field) simp
  from decodes_map [OF this, of "ucast :: u32 \<Rightarrow> u8"] n show ?thesis
    by (simp add: read_bits_u8_def [abs_def] min_absorb1)
qed

lemma decodes_u16: "n \<le> 16 \<Longrightarrow> unat v < 2 ^ n \<Longrightarrow> decodes pending (read_bits_u16 n) (word_bits n (ucast v :: u32)) v"
proof -
  assume n: "n \<le> 16" "unat v < 2 ^ n"
  then have "decodes pending (read_bits n) (word_bits n (ucast v :: u32)) (ucast v)"
    by (intro br.decodes_field) simp
  from decodes_map [OF this, of "ucast :: u32 \<Rightarrow> u16"] n show ?thesis
    by (simp add: read_bits_u16_def [abs_def] min_absorb1)
qed

lemma decodes_ns_u8:
  assumes "unat n \<le> 256" and "ucast v < n"
  shows "decodes pending (read_ns_u8 n) (ns_bits n (ucast v)) v"
proof -
  have "min n 256 = n" using assms(1) by (simp add: min_absorb1 word_le_nat_alt)
  moreover have d: "decodes pending (read_ns n) (ns_bits n (ucast v)) (ucast v)"
    using assms by (intro decodes_read_ns) simp_all
  ultimately show ?thesis
    using decodes_map [OF d, of "ucast :: u32 \<Rightarrow> u8"] by (simp add: read_ns_u8_def [abs_def])
qed

lemma decodes_read_bit: "decodes pending read_bit [b] (of_bool b)"
  using br.decodes_flag [of b] by (simp add: read_bit_def [abs_def])

lemma emits_write_bit: "puts Overflow (write_bit b) [b]"
  using bw.emits_flag [of b] by (simp add: write_bit_def [abs_def])

subsection \<open>From the writer to the reader\<close>

text \<open>The bytes a finished writer hands over are the bits written, padded with zeros to a byte.\<close>

lemma finish_stream:
  assumes "writer_inv w"
  shows "stream_bits (take (finish w) (bw_buf w)) =
      written w @ replicate (8 * finish w - bw_pos w) False"
    and "finish w \<le> length (bw_buf w)" and "8 * finish w - bw_pos w < 8"
    and "length (written w) = bw_pos w" and "bw_pos w \<le> 8 * finish w"
proof -
  have pos: "bw_pos w \<le> 8 * length (bw_buf w)"
    and z: "drop (bw_pos w) (stream_bits (bw_buf w)) =
      replicate (8 * length (bw_buf w) - bw_pos w) False"
    using assms by (auto simp: writer_inv_def)
  show f: "finish w \<le> length (bw_buf w)" and "8 * finish w - bw_pos w < 8"
    and g: "bw_pos w \<le> 8 * finish w"
    using pos by (simp_all add: finish_def)
  show "length (written w) = bw_pos w" using pos by (simp add: written_def)
  have "stream_bits (bw_buf w) = written w @ replicate (8 * length (bw_buf w) - bw_pos w) False"
    unfolding z [symmetric] written_def by simp
  then show "stream_bits (take (finish w) (bw_buf w)) =
      written w @ replicate (8 * finish w - bw_pos w) False"
    using f g \<open>length (written w) = bw_pos w\<close> by (simp add: stream_bits_take min_def)
qed

lemma pending_reader_new: "pending (reader_new buf) = stream_bits buf"
  by (simp add: pending_def reader_new_def)

text \<open>
  Whatever fields of at most 32 bits are written one after the other, reading the finished
  buffer back with the same widths returns the same values in the same order.
\<close>

theorem fields_roundtrip:
  assumes "\<And>v n. (v, n) \<in> set fs \<Longrightarrow> n \<le> 32 \<and> unat v < 2 ^ n"
    and "each_ref (\<lambda>(v, n). write_bits v n) fs (writer_new out) = Inr w"
  shows "\<exists>r. each_mut (\<lambda>(v, n). read_bits n) fs (reader_new (take (finish w) (bw_buf w))) =
     Inr (map fst fs, r)"
proof -
  let ?f = "\<lambda>(v :: u32, n). word_bits n v"
  have "puts Overflow (each_ref (\<lambda>(v, n). write_bits v n) fs) (concat (map ?f fs))"
    using assms(1) by (intro emits_each_ref) (auto intro: bw.emits_field)
  from emits_ok [OF this _ assms(2)] have w: "writer_inv w" "written w = concat (map ?f fs)"
    by simp_all
  have "decodes pending (each_mut (\<lambda>(v, n). read_bits n) fs) (concat (map ?f fs)) (map fst fs)"
    using assms(1) by (intro decodes_each_mut) (auto intro!: br.decodes_field)
  then show ?thesis
    by (rule decodesE) (use finish_stream(1) [OF w(1)] in \<open>auto simp: pending_reader_new w(2)\<close>)
qed

theorem fields_roundtrip_witness:
  "\<exists>r. each_mut (\<lambda>(v, n). read_bits n) [(5 :: u32, 3), (300, 11), (1, 1)]
     (reader_new [0xA4, 0xB2]) = Inr ([5, 300, 1], r)"
proof -
  have "each_ref (\<lambda>(v, n). write_bits v n) [(5, 3), (300, 11), (1, 1)] (writer_new [1, 2, 3]) =
      Inr \<lparr>bw_buf = [0xA4, 0xB2, 0], bw_pos = 15\<rparr>"
    by code_simp
  moreover have "n \<le> 32 \<and> unat v < 2 ^ n" if "(v, n) \<in> set [(5, 3), (300, 11), (1 :: u32, 1)]" for v n
    using that by auto
  ultimately show ?thesis
    using fields_roundtrip [of "[(5, 3), (300, 11), (1, 1)]" "[1, 2, 3]"]
    by (simp add: finish_def del: each_mut.simps)
qed

end
