(* ===== verification/DD_Model.thy ===== *)
theory DD_Model
  imports DD_Bits
begin

text \<open>
  The data of an AV1 dependency descriptor, \<open>crates/pulsebeam-core/src/dd/model.rs\<close>: templates,
  the template dependency structure, the per-frame descriptor and the pure functions on them.
  An \<open>ArrayVec\<close> is a list; that no list outgrows its capacity is the invariant \<open>structure_wf\<close>
  of the structures the reader builds, proved in \<open>DD_Read\<close>.
\<close>

subsection \<open>Constants\<close>

definition MAX_TEMPLATES :: nat where [simp]: "MAX_TEMPLATES = 64"
definition MAX_DECODE_TARGETS :: nat where [simp]: "MAX_DECODE_TARGETS = 32"
definition MAX_CHAINS :: nat where [simp]: "MAX_CHAINS = 32"
definition MAX_SPATIAL_IDS :: nat where [simp]: "MAX_SPATIAL_IDS = 4"
definition MAX_TEMPORAL_IDS :: nat where [simp]: "MAX_TEMPORAL_IDS = 8"
definition MAX_FRAME_DIFFS :: nat where [simp]: "MAX_FRAME_DIFFS = 8"
definition MAX_DD_LEN :: nat where [simp]: "MAX_DD_LEN = 255"
definition MANDATORY_LEN :: nat where [simp]: "MANDATORY_LEN = 3"
definition TEMPLATE_ID_MODULUS :: u16 where [simp]: "TEMPLATE_ID_MODULUS = 64"

subsection \<open>Data\<close>

datatype DecodeTargetIndication = NotPresent | Discardable | Switch | Required

definition dti_from_bits :: "u32 \<Rightarrow> DecodeTargetIndication" where
  "dti_from_bits v =
     (let b = v AND 3
      in if b = 0 then NotPresent else if b = 1 then Discardable
         else if b = 2 then Switch else Required)"

fun dti_bits :: "DecodeTargetIndication \<Rightarrow> u32" where
  "dti_bits NotPresent = 0"
| "dti_bits Discardable = 1"
| "dti_bits Switch = 2"
| "dti_bits Required = 3"

record FrameDependencyTemplate =
  spatial_id :: u8
  temporal_id :: u8
  dtis :: "DecodeTargetIndication list"
  frame_diffs :: "u16 list"
  chain_diffs :: "u8 list"

record RenderResolution =
  res_width :: u16
  res_height :: u16

record TemplateDependencyStructure =
  template_id_offset :: u8
  decode_target_count :: u8
  chain_count :: u8
  decode_target_protected_by :: "u8 list"
  templates :: "FrameDependencyTemplate list"
  resolutions :: "RenderResolution list"

datatype DdFields = DdFields (fields_raw: u8)

record MandatoryFields =
  mf_start_of_frame :: bool
  mf_end_of_frame :: bool
  mf_template_id :: u8
  mf_frame_number :: u16

record DependencyDescriptor =
  start_of_frame :: bool
  end_of_frame :: bool
  template_id :: u8
  frame_number :: u16
  attached_structure :: "TemplateDependencyStructure option"
  active_decode_targets :: "u32 option"
  dd_fields :: DdFields
  frame_dependencies :: FrameDependencyTemplate
  resolution :: "RenderResolution option"

subsection \<open>Functions on the structure\<close>

definition template_index :: "TemplateDependencyStructure \<Rightarrow> u8 \<Rightarrow> nat" where
  "template_index s wire_id =
     unat ((ucast wire_id + TEMPLATE_ID_MODULUS - ucast (template_id_offset s))
       mod TEMPLATE_ID_MODULUS)"

definition template_of :: "TemplateDependencyStructure \<Rightarrow> u8 \<Rightarrow> FrameDependencyTemplate option" where
  "template_of s wire_id = get_at (templates s) (template_index s wire_id)"

definition all_decode_targets_bitmask :: "TemplateDependencyStructure \<Rightarrow> u32" where
  "all_decode_targets_bitmask s =
     (let n = decode_target_count s
      in if n = 0 then 0
         else if MAX_DECODE_TARGETS \<le> unat n then - 1
         else sat_sub (wshl 1 (unat n)) 1)"

definition spatial_layer_count :: "TemplateDependencyStructure \<Rightarrow> nat" where
  "spatial_layer_count s = fold (\<lambda>t m. max m (unat (spatial_id t) + 1)) (templates s) 0"

subsection \<open>Field flags\<close>

definition FIELD_CUSTOM_DTIS :: u8 where "FIELD_CUSTOM_DTIS = 1"
definition FIELD_CUSTOM_FDIFFS :: u8 where "FIELD_CUSTOM_FDIFFS = 2"
definition FIELD_CUSTOM_CHAINS :: u8 where "FIELD_CUSTOM_CHAINS = 4"

lemmas field_flag_defs = FIELD_CUSTOM_DTIS_def FIELD_CUSTOM_FDIFFS_def FIELD_CUSTOM_CHAINS_def

definition fields_empty :: DdFields where
  "fields_empty = DdFields 0"

definition fields_is_empty :: "DdFields \<Rightarrow> bool" where
  "fields_is_empty f \<longleftrightarrow> fields_raw f = 0"

definition custom_dtis :: "DdFields \<Rightarrow> bool" where
  "custom_dtis f \<longleftrightarrow> fields_raw f AND FIELD_CUSTOM_DTIS \<noteq> 0"

definition custom_fdiffs :: "DdFields \<Rightarrow> bool" where
  "custom_fdiffs f \<longleftrightarrow> fields_raw f AND FIELD_CUSTOM_FDIFFS \<noteq> 0"

definition custom_chains :: "DdFields \<Rightarrow> bool" where
  "custom_chains f \<longleftrightarrow> fields_raw f AND FIELD_CUSTOM_CHAINS \<noteq> 0"

definition fields_set :: "u8 \<Rightarrow> bool \<Rightarrow> DdFields \<Rightarrow> DdFields" where
  "fields_set flag v f =
     (if v then DdFields (fields_raw f OR flag) else DdFields (fields_raw f AND NOT flag))"

definition set_custom_dtis :: "bool \<Rightarrow> DdFields \<Rightarrow> DdFields" where
  "set_custom_dtis v f = fields_set FIELD_CUSTOM_DTIS v f"

definition set_custom_fdiffs :: "bool \<Rightarrow> DdFields \<Rightarrow> DdFields" where
  "set_custom_fdiffs v f = fields_set FIELD_CUSTOM_FDIFFS v f"

definition set_custom_chains :: "bool \<Rightarrow> DdFields \<Rightarrow> DdFields" where
  "set_custom_chains v f = fields_set FIELD_CUSTOM_CHAINS v f"

subsection \<open>Functions on the descriptor\<close>

definition mandatory :: "DependencyDescriptor \<Rightarrow> MandatoryFields" where
  "mandatory dd = \<lparr>mf_start_of_frame = start_of_frame dd, mf_end_of_frame = end_of_frame dd,
     mf_template_id = template_id dd, mf_frame_number = frame_number dd\<rparr>"

definition dd_spatial_id :: "DependencyDescriptor \<Rightarrow> u8" where
  "dd_spatial_id dd = spatial_id (frame_dependencies dd)"

definition dd_temporal_id :: "DependencyDescriptor \<Rightarrow> u8" where
  "dd_temporal_id dd = temporal_id (frame_dependencies dd)"

definition is_in_decode_target :: "DependencyDescriptor \<Rightarrow> nat \<Rightarrow> bool" where
  "is_in_decode_target dd decode_target =
     (case get_at (dtis (frame_dependencies dd)) decode_target of
        None \<Rightarrow> False
      | Some d \<Rightarrow> d \<noteq> NotPresent)"

subsection \<open>Lemmas\<close>

lemma dti_from_bits_dti_bits [simp]: "dti_from_bits (dti_bits d) = d"
  by (cases d) (simp_all add: dti_from_bits_def)

lemma dti_bits_less: "unat (dti_bits d) < 2 ^ 2"
  by (cases d) simp_all

lemma template_index_less: "template_index s wire_id < 64"
  by (simp add: template_index_def unat_mod)

text \<open>Template ids are offsets modulo 64, whatever the offset byte holds.\<close>

lemma template_index_int:
  "int (template_index s wire_id) = (int (unat wire_id) - int (unat (template_id_offset s))) mod 64"
proof -
  let ?o = "unat (template_id_offset s)"
  have "uint (ucast wire_id + TEMPLATE_ID_MODULUS - ucast (template_id_offset s) :: u16) =
      (int (unat wire_id) + 64 - int ?o) mod 65536"
    by (simp add: uint_word_arith_bintrs uint_sub_lem take_bit_eq_mod unsigned_ucast_eq mod_simps)
  then have "int (template_index s wire_id) = (int (unat wire_id) + 64 - int ?o) mod 65536 mod 64"
    by (simp add: template_index_def uint_mod unat_mod zmod_int)
  also have "\<dots> = (int (unat wire_id) + 64 - int ?o) mod 64"
    by (rule mod_mod_cancel) simp
  also have "\<dots> = (int (unat wire_id) - int ?o) mod 64"
    using mod_add_self2 [of "int (unat wire_id) - int ?o" 64] by (simp add: algebra_simps)
  finally show ?thesis .
qed

lemma all_decode_targets_bitmask_mask:
  "all_decode_targets_bitmask s = mask (unat (decode_target_count s))"
proof (cases "unat (decode_target_count s) < 32")
  case True
  then show ?thesis
    using mask_by_shift [where 'a = 32, of "unat (decode_target_count s)"]
    by (simp add: all_decode_targets_bitmask_def Let_def)
next
  case False
  moreover have "mask (unat (decode_target_count s)) = (- 1 :: u32)"
    using False by (intro bit_word_eqI) (simp add: bit_mask_iff)
  moreover have "decode_target_count s \<noteq> 0" using False by auto
  ultimately show ?thesis by (simp add: all_decode_targets_bitmask_def Let_def)
qed

lemma fold_max_le_iff:
  "fold (\<lambda>t m. max m (f t)) ts (a :: nat) \<le> n \<longleftrightarrow> a \<le> n \<and> (\<forall>t \<in> set ts. f t \<le> n)"
  by (induction ts arbitrary: a) auto

lemma spatial_layer_count_le_iff:
  "spatial_layer_count s \<le> n \<longleftrightarrow> (\<forall>t \<in> set (templates s). unat (spatial_id t) < n)"
  by (simp add: spatial_layer_count_def fold_max_le_iff Suc_le_eq)

lemma spatial_layer_count_0_iff: "spatial_layer_count s = 0 \<longleftrightarrow> templates s = []"
  using spatial_layer_count_le_iff [of s 0] by (cases "templates s") auto

subsection \<open>Field flags as three booleans\<close>

definition fields_of :: "bool \<Rightarrow> bool \<Rightarrow> bool \<Rightarrow> DdFields" where
  "fields_of a b c = set_custom_chains c (set_custom_fdiffs b (set_custom_dtis a fields_empty))"

lemmas fields_defs = fields_of_def fields_empty_def fields_is_empty_def custom_dtis_def
  custom_fdiffs_def custom_chains_def fields_set_def set_custom_dtis_def set_custom_fdiffs_def
  set_custom_chains_def field_flag_defs

lemma custom_fields_of [simp]:
  "custom_dtis (fields_of a b c) = a"
  "custom_fdiffs (fields_of a b c) = b"
  "custom_chains (fields_of a b c) = c"
  by (cases a; cases b; cases c; simp add: fields_defs)+

lemma fields_raw_less: "unat (fields_raw (fields_of a b c)) < 8"
  by (cases a; cases b; cases c; simp add: fields_defs)

lemma fields_of_custom:
  assumes "unat (fields_raw f) < 8"
  shows "fields_of (custom_dtis f) (custom_fdiffs f) (custom_chains f) = f"
proof -
  obtain w where f: "f = DdFields w" by (cases f)
  have "w \<in> {0, 1, 2, 3, 4, 5, 6, 7}"
  proof -
    have "unat w < 8" using assms f by simp
    then have "unat w \<in> {0, 1, 2, 3, 4, 5, 6, 7}" by auto
    then show ?thesis by (auto simp: word_unat_eq_iff)
  qed
  then show ?thesis unfolding f by (elim insertE emptyE) (simp_all add: fields_defs)
qed

lemma fields_is_empty_iff:
  assumes "unat (fields_raw f) < 8"
  shows "fields_is_empty f \<longleftrightarrow> \<not> custom_dtis f \<and> \<not> custom_fdiffs f \<and> \<not> custom_chains f"
proof -
  have "fields_is_empty (fields_of a b c) \<longleftrightarrow> \<not> a \<and> \<not> b \<and> \<not> c" for a b c
    by (cases a; cases b; cases c; simp add: fields_defs)
  from this [of "custom_dtis f" "custom_fdiffs f" "custom_chains f"] show ?thesis
    by (simp add: fields_of_custom [OF assms])
qed

lemma set_custom_fields_of:
  "set_custom_chains c (set_custom_fdiffs b (set_custom_dtis a fields_empty)) = fields_of a b c"
  by (simp add: fields_of_def)

subsection \<open>Well-formed structures and descriptors\<close>

text \<open>
  The templates of a structure are ordered by layer: each one is in the layer of the one before it,
  in the next temporal layer, or in the base of the next spatial layer.
\<close>

definition layer_follows :: "FrameDependencyTemplate \<Rightarrow> FrameDependencyTemplate \<Rightarrow> bool" where
  "layer_follows p n \<longleftrightarrow>
     spatial_id n = spatial_id p \<and>
       (temporal_id n = temporal_id p \<or> unat (temporal_id n) = unat (temporal_id p) + 1)
     \<or> unat (spatial_id n) = unat (spatial_id p) + 1 \<and> temporal_id n = 0"

definition template_wf :: "nat \<Rightarrow> nat \<Rightarrow> FrameDependencyTemplate \<Rightarrow> bool" where
  "template_wf dt cc t \<longleftrightarrow>
     unat (spatial_id t) < MAX_SPATIAL_IDS \<and> unat (temporal_id t) < MAX_TEMPORAL_IDS \<and>
     length (dtis t) = dt \<and>
     length (frame_diffs t) \<le> MAX_FRAME_DIFFS \<and>
     list_all (\<lambda>d. 1 \<le> unat d \<and> unat d \<le> 16) (frame_diffs t) \<and>
     length (chain_diffs t) = cc \<and> list_all (\<lambda>d. unat d < 16) (chain_diffs t)"

definition structure_wf :: "TemplateDependencyStructure \<Rightarrow> bool" where
  "structure_wf s \<longleftrightarrow>
     unat (template_id_offset s) < 64 \<and>
     1 \<le> unat (decode_target_count s) \<and> unat (decode_target_count s) \<le> MAX_DECODE_TARGETS \<and>
     unat (chain_count s) \<le> unat (decode_target_count s) \<and>
     templates s \<noteq> [] \<and> length (templates s) \<le> MAX_TEMPLATES \<and>
     spatial_id (hd (templates s)) = 0 \<and> temporal_id (hd (templates s)) = 0 \<and>
     successively layer_follows (templates s) \<and>
     list_all (template_wf (unat (decode_target_count s)) (unat (chain_count s))) (templates s) \<and>
     (if chain_count s = 0 then decode_target_protected_by s = []
      else length (decode_target_protected_by s) = unat (decode_target_count s) \<and>
           list_all (\<lambda>p. p < chain_count s) (decode_target_protected_by s)) \<and>
     (resolutions s = [] \<or> length (resolutions s) = spatial_layer_count s) \<and>
     list_all (\<lambda>x. res_width x \<noteq> 0 \<and> res_height x \<noteq> 0) (resolutions s)"

text \<open>
  \<open>deps_wf f dt cc t d\<close>: \<open>d\<close> is the template \<open>t\<close> with exactly the fields \<open>f\<close> marks as custom
  replaced, by values of the right number and range.
\<close>

definition deps_wf ::
  "DdFields \<Rightarrow> nat \<Rightarrow> nat \<Rightarrow> FrameDependencyTemplate \<Rightarrow> FrameDependencyTemplate \<Rightarrow> bool" where
  "deps_wf f dt cc t d \<longleftrightarrow>
     spatial_id d = spatial_id t \<and> temporal_id d = temporal_id t \<and>
     (if custom_dtis f then length (dtis d) = dt else dtis d = dtis t) \<and>
     (if custom_fdiffs f then length (frame_diffs d) \<le> MAX_FRAME_DIFFS \<and>
        list_all (\<lambda>x. 1 \<le> unat x \<and> unat x \<le> 4096) (frame_diffs d)
      else frame_diffs d = frame_diffs t) \<and>
     (if custom_chains f then length (chain_diffs d) = cc else chain_diffs d = chain_diffs t)"

definition descriptor_wf :: "TemplateDependencyStructure \<Rightarrow> DependencyDescriptor \<Rightarrow> bool" where
  "descriptor_wf active dd \<longleftrightarrow>
     unat (template_id dd) < 64 \<and> unat (fields_raw (dd_fields dd)) < 8 \<and>
     (case active_decode_targets dd of
        None \<Rightarrow> True | Some m \<Rightarrow> unat m < 2 ^ unat (decode_target_count active)) \<and>
     (case template_of active (template_id dd) of
        None \<Rightarrow> False
      | Some t \<Rightarrow> deps_wf (dd_fields dd) (unat (decode_target_count active))
                    (unat (chain_count active)) t (frame_dependencies dd)) \<and>
     resolution dd = get_at (resolutions active) (unat (spatial_id (frame_dependencies dd)))"

lemma structure_wfD:
  assumes "structure_wf s"
  shows "unat (template_id_offset s) < 64" "1 \<le> unat (decode_target_count s)"
    "unat (decode_target_count s) \<le> 32" "unat (chain_count s) \<le> unat (decode_target_count s)"
    "templates s \<noteq> []" "length (templates s) \<le> 64" "spatial_id (hd (templates s)) = 0"
    "temporal_id (hd (templates s)) = 0" "successively layer_follows (templates s)"
    "\<And>t. t \<in> set (templates s) \<Longrightarrow>
       template_wf (unat (decode_target_count s)) (unat (chain_count s)) t"
    "chain_count s = 0 \<Longrightarrow> decode_target_protected_by s = []"
    "chain_count s \<noteq> 0 \<Longrightarrow> length (decode_target_protected_by s) = unat (decode_target_count s)"
    "\<And>p. chain_count s \<noteq> 0 \<Longrightarrow> p \<in> set (decode_target_protected_by s) \<Longrightarrow> p < chain_count s"
    "resolutions s = [] \<or> length (resolutions s) = spatial_layer_count s"
    "\<And>x. x \<in> set (resolutions s) \<Longrightarrow> res_width x \<noteq> 0 \<and> res_height x \<noteq> 0"
  using assms by (auto simp: structure_wf_def list_all_iff split: if_splits)

lemma template_wfD:
  assumes "template_wf dt cc t"
  shows "unat (spatial_id t) < 4" "unat (temporal_id t) < 8" "length (dtis t) = dt"
    "length (frame_diffs t) \<le> 8" "\<And>d. d \<in> set (frame_diffs t) \<Longrightarrow> 1 \<le> unat d \<and> unat d \<le> 16"
    "length (chain_diffs t) = cc" "\<And>d. d \<in> set (chain_diffs t) \<Longrightarrow> unat d < 16"
  using assms by (auto simp: template_wf_def list_all_iff)

end
