(* ===== verification/DD_Read.thy ===== *)
theory DD_Read
  imports DD_Model
begin

text \<open>
  The dependency descriptor reader, \<open>crates/pulsebeam-core/src/dd/read.rs\<close>: the whole of
  \<open>parse\<close>, \<open>commit\<close> and \<open>read\<close> with every error they return.  The lemmas show that a
  structure the reader accepts is well formed (\<open>structure_wf\<close>: every \<open>ArrayVec\<close> within its
  capacity, layer ids in range, the per-template lists as long as the counts say), and that the
  reader keeps a well-formed structure whatever bytes it is given.
\<close>

subsection \<open>The code\<close>

datatype DdReadError =
    RTruncated
  | TooLong nat
  | NoStructure
  | UnknownTemplateId u8
  | TooManyTemplates
  | TooManyFrameDiffs
  | TooManySpatialLayers
  | TooManyTemporalLayers
  | TrailingBytes nat

record DependencyDescriptorReader =
  rd_structure :: "TemplateDependencyStructure option"
  rd_active_decode_targets :: u32

definition read_err :: "Truncated + 'a \<Rightarrow> DdReadError + 'a" where
  "read_err = map_err (\<lambda>_. RTruncated)"

definition read_mandatory :: "u8 list \<Rightarrow> DdReadError + MandatoryFields" where
  "read_mandatory buf = (case buf of
     flags # frame_hi # frame_lo # _ \<Rightarrow> Inr
       \<lparr>mf_start_of_frame = (flags AND 0x80 \<noteq> 0),
        mf_end_of_frame = (flags AND 0x40 \<noteq> 0),
        mf_template_id = flags AND 0x3f,
        mf_frame_number = push_bit 8 (ucast frame_hi) OR ucast frame_lo\<rparr>
   | _ \<Rightarrow> Inl RTruncated)"

definition reader_default :: DependencyDescriptorReader where
  "reader_default = \<lparr>rd_structure = None, rd_active_decode_targets = 0\<rparr>"

definition reader_reset :: "DependencyDescriptorReader \<Rightarrow> DependencyDescriptorReader" where
  "reader_reset d = d\<lparr>rd_structure := None, rd_active_decode_targets := 0\<rparr>"

function read_template_layers_loop ::
  "FrameDependencyTemplate list \<Rightarrow> u8 \<Rightarrow> u8 \<Rightarrow> BitReader \<Rightarrow>
     DdReadError + (FrameDependencyTemplate list \<times> BitReader)" where
  "read_template_layers_loop ts sid tid r =
     and_then (try_push MAX_TEMPLATES TooManyTemplates ts
        \<lparr>spatial_id = sid, temporal_id = tid, dtis = [], frame_diffs = [], chain_diffs = []\<rparr>) (\<lambda>ts.
     and_then (read_err (read_bits 2 r)) (\<lambda>(next_layer_idc, r).
       if next_layer_idc = 0 then read_template_layers_loop ts sid tid r
       else if next_layer_idc = 1 then
         (let tid = sat_add tid 1
          in if MAX_TEMPORAL_IDS \<le> unat tid then Inl TooManyTemporalLayers
             else read_template_layers_loop ts sid tid r)
       else if next_layer_idc = 2 then
         (let tid = 0; sid = sat_add sid 1
          in if MAX_SPATIAL_IDS \<le> unat sid then Inl TooManySpatialLayers
             else read_template_layers_loop ts sid tid r)
       else Inr (ts, r)))"
  by pat_completeness auto
termination
  by (relation "measure (\<lambda>(ts, _). MAX_TEMPLATES - length ts)") (auto simp: try_push_Inr_iff)

declare read_template_layers_loop.simps [simp del]

definition read_template_layers ::
  "TemplateDependencyStructure \<Rightarrow> BitReader \<Rightarrow>
     DdReadError + (TemplateDependencyStructure \<times> BitReader)" where
  "read_template_layers s r =
     and_then (read_template_layers_loop (templates s) 0 0 r)
       (\<lambda>(ts, r). Inr (s\<lparr>templates := ts\<rparr>, r))"

definition read_dti :: "BitReader \<Rightarrow> DdReadError + (DecodeTargetIndication \<times> BitReader)" where
  "read_dti r = and_then (read_err (read_bits 2 r)) (\<lambda>(v, r). Inr (dti_from_bits v, r))"

definition read_template_dtis ::
  "TemplateDependencyStructure \<Rightarrow> BitReader \<Rightarrow>
     DdReadError + (TemplateDependencyStructure \<times> BitReader)" where
  "read_template_dtis s r =
     (let dt_cnt = unat (decode_target_count s)
      in and_then (each_mut (\<lambda>t r. and_then (repeat_n dt_cnt read_dti r)
             (\<lambda>(ds, r). Inr (t\<lparr>dtis := dtis t @ ds\<rparr>, r))) (templates s) r)
           (\<lambda>(ts, r). Inr (s\<lparr>templates := ts\<rparr>, r)))"

function read_fdiffs_loop :: "u16 list \<Rightarrow> BitReader \<Rightarrow> DdReadError + (u16 list \<times> BitReader)" where
  "read_fdiffs_loop fds r =
     and_then (read_err (read_bit r)) (\<lambda>(b, r).
       if b \<noteq> 0 then
         and_then (read_err (read_bits_u16 4 r)) (\<lambda>(v, r).
         and_then (try_push MAX_FRAME_DIFFS TooManyFrameDiffs fds (sat_add v 1)) (\<lambda>fds.
           read_fdiffs_loop fds r))
       else Inr (fds, r))"
  by pat_completeness auto
termination
  by (relation "measure (\<lambda>(fds, _). MAX_FRAME_DIFFS - length fds)") (auto simp: try_push_Inr_iff)

declare read_fdiffs_loop.simps [simp del]

definition read_template_fdiffs ::
  "TemplateDependencyStructure \<Rightarrow> BitReader \<Rightarrow>
     DdReadError + (TemplateDependencyStructure \<times> BitReader)" where
  "read_template_fdiffs s r =
     and_then (each_mut (\<lambda>t r. and_then (read_fdiffs_loop (frame_diffs t) r)
         (\<lambda>(fds, r). Inr (t\<lparr>frame_diffs := fds\<rparr>, r))) (templates s) r)
       (\<lambda>(ts, r). Inr (s\<lparr>templates := ts\<rparr>, r))"

definition read_template_chains ::
  "TemplateDependencyStructure \<Rightarrow> BitReader \<Rightarrow>
     DdReadError + (TemplateDependencyStructure \<times> BitReader)" where
  "read_template_chains s r =
     (let dt_cnt = ucast (decode_target_count s) :: u32
      in and_then (read_err (read_ns_u8 (sat_add dt_cnt 1) r)) (\<lambda>(cc, r).
         let s = s\<lparr>chain_count := cc\<rparr>
         in if cc = 0 then Inr (s, r)
            else and_then (repeat_n (unat dt_cnt) (\<lambda>r. read_err (read_ns_u8 (ucast cc) r)) r) (\<lambda>(ps, r).
                 let s = s\<lparr>decode_target_protected_by := decode_target_protected_by s @ ps\<rparr>
                 in and_then (each_mut (\<lambda>t r.
                        and_then (repeat_n (unat cc) (\<lambda>r. read_err (read_bits_u8 4 r)) r)
                          (\<lambda>(ds, r). Inr (t\<lparr>chain_diffs := chain_diffs t @ ds\<rparr>, r))) (templates s) r)
                      (\<lambda>(ts, r). Inr (s\<lparr>templates := ts\<rparr>, r)))))"

definition read_dimension :: "BitReader \<Rightarrow> DdReadError + (u16 \<times> BitReader)" where
  "read_dimension r =
     and_then (read_err (read_bits 16 r)) (\<lambda>(v, r).
       let coded = sat_add v 1
       in Inr (if unat coded < 2 ^ 16 then ucast coded else - 1, r))"

definition read_resolutions ::
  "TemplateDependencyStructure \<Rightarrow> BitReader \<Rightarrow>
     DdReadError + (TemplateDependencyStructure \<times> BitReader)" where
  "read_resolutions s r =
     (let spatial_layers = spatial_layer_count s
      in if MAX_SPATIAL_IDS < spatial_layers then Inl TooManySpatialLayers
         else and_then (repeat_n spatial_layers (\<lambda>r.
                and_then (read_dimension r) (\<lambda>(w, r).
                and_then (read_dimension r) (\<lambda>(h, r).
                  Inr (\<lparr>res_width = w, res_height = h\<rparr>, r)))) r)
              (\<lambda>(rs, r). Inr (s\<lparr>resolutions := rs\<rparr>, r)))"

definition read_structure :: "BitReader \<Rightarrow> DdReadError + (TemplateDependencyStructure \<times> BitReader)" where
  "read_structure r =
     and_then (read_err (read_bits_u8 6 r)) (\<lambda>(off, r).
     and_then (read_err (read_bits_u8 5 r)) (\<lambda>(dtc, r).
       let s = \<lparr>template_id_offset = off, decode_target_count = sat_add dtc 1, chain_count = 0,
                decode_target_protected_by = [], templates = [], resolutions = []\<rparr>
       in and_then (read_template_layers s r) (\<lambda>(s, r).
          and_then (read_template_dtis s r) (\<lambda>(s, r).
          and_then (read_template_fdiffs s r) (\<lambda>(s, r).
          and_then (read_template_chains s r) (\<lambda>(s, r).
          and_then (read_err (read_bit r)) (\<lambda>(b, r).
            if b \<noteq> 0 then read_resolutions s r else Inr (s, r))))))))"

function read_custom_fdiffs ::
  "u32 \<Rightarrow> u16 list \<Rightarrow> BitReader \<Rightarrow> DdReadError + (u16 list \<times> BitReader)" where
  "read_custom_fdiffs sz fds r =
     (if 0 < sz then
        and_then (read_err (read_bits_u16 (unat (sat_mul 4 sz)) r)) (\<lambda>(v, r).
        and_then (try_push MAX_FRAME_DIFFS TooManyFrameDiffs fds (sat_add v 1)) (\<lambda>fds.
        and_then (read_err (read_bits 2 r)) (\<lambda>(sz, r).
          read_custom_fdiffs sz fds r)))
      else Inr (fds, r))"
  by pat_completeness auto
termination
  by (relation "measure (\<lambda>(sz, fds, _). MAX_FRAME_DIFFS - length fds)")
    (auto simp: try_push_Inr_iff)

declare read_custom_fdiffs.simps [simp del]

definition read_frame_dependencies ::
  "TemplateDependencyStructure \<Rightarrow> MandatoryFields \<Rightarrow> DdFields \<Rightarrow> BitReader \<Rightarrow>
     DdReadError + (FrameDependencyTemplate \<times> BitReader)" where
  "read_frame_dependencies active m flds r =
     and_then (ok_or (UnknownTemplateId (mf_template_id m))
        (get_at (templates active) (template_index active (mf_template_id m)))) (\<lambda>deps.
     and_then (if custom_dtis flds
        then and_then (each_mut (\<lambda>_. read_dti) (dtis deps) r)
               (\<lambda>(ds, r). Inr (deps\<lparr>dtis := ds\<rparr>, r))
        else Inr (deps, r)) (\<lambda>(deps, r).
     and_then (if custom_fdiffs flds
        then and_then (read_err (read_bits 2 r)) (\<lambda>(sz, r).
             and_then (read_custom_fdiffs sz [] r) (\<lambda>(fds, r).
               Inr (deps\<lparr>frame_diffs := fds\<rparr>, r)))
        else Inr (deps, r)) (\<lambda>(deps, r).
      if custom_chains flds
        then and_then (each_mut (\<lambda>_ r. read_err (read_bits_u8 8 r)) (chain_diffs deps) r)
               (\<lambda>(ds, r). Inr (deps\<lparr>chain_diffs := ds\<rparr>, r))
        else Inr (deps, r))))"

text \<open>
  \<open>parse\<close> in three parts: the flags of the extended header, the fields they announce, and the
  checks around them.
\<close>

definition parse_flags :: "BitReader \<Rightarrow> DdReadError + ((bool \<times> bool \<times> DdFields) \<times> BitReader)" where
  "parse_flags r =
     and_then (read_err (read_bit r)) (\<lambda>(structure_present, r).
     and_then (read_err (read_bit r)) (\<lambda>(targets_present, r).
     and_then (read_err (read_bit r)) (\<lambda>(cd, r).
     and_then (read_err (read_bit r)) (\<lambda>(cf, r).
     and_then (read_err (read_bit r)) (\<lambda>(cc, r).
       Inr ((structure_present \<noteq> 0, targets_present \<noteq> 0,
         set_custom_chains (cc \<noteq> 0) (set_custom_fdiffs (cf \<noteq> 0)
           (set_custom_dtis (cd \<noteq> 0) fields_empty))), r))))))"

definition parse_fields ::
  "TemplateDependencyStructure option \<Rightarrow> MandatoryFields \<Rightarrow> bool \<times> bool \<times> DdFields \<Rightarrow> BitReader \<Rightarrow>
     DdReadError + (DependencyDescriptor \<times> BitReader)" where
  "parse_fields current m flags r = (case flags of (structure_present, targets_present, flds) \<Rightarrow>
     and_then (if structure_present
          then and_then (read_structure r) (\<lambda>(s, r). Inr (Some s, r))
          else Inr (None, r)) (\<lambda>(attached, r).
     and_then (case attached of Some s \<Rightarrow> Inr s | None \<Rightarrow> ok_or NoStructure current) (\<lambda>active.
     and_then (if targets_present
          then and_then (read_err (read_bits (unat (decode_target_count active)) r))
                 (\<lambda>(v, r). Inr (Some v, r))
          else Inr (None, r)) (\<lambda>(targets, r).
     and_then (read_frame_dependencies active m flds r) (\<lambda>(deps, r).
       Inr (\<lparr>start_of_frame = mf_start_of_frame m, end_of_frame = mf_end_of_frame m,
             template_id = mf_template_id m, frame_number = mf_frame_number m,
             attached_structure = attached, active_decode_targets = targets,
             dd_fields = flds, frame_dependencies = deps,
             resolution = get_at (resolutions active) (unat (spatial_id deps))\<rparr>, r))))))"

definition parse :: "DependencyDescriptorReader \<Rightarrow> u8 list \<Rightarrow> DdReadError + DependencyDescriptor" where
  "parse d buf =
     (if MAX_DD_LEN < length buf then Inl (TooLong (length buf))
      else and_then (read_mandatory buf) (\<lambda>m.
        let r = with_offset buf (MANDATORY_LEN * 8)
        in and_then (if MANDATORY_LEN < length buf then parse_flags r
                     else Inr ((False, False, fields_empty), r)) (\<lambda>(flags, r).
           and_then (parse_fields (rd_structure d) m flags r) (\<lambda>(dd, r).
             let trailing = remaining r div 8
             in if 0 < trailing then Inl (TrailingBytes trailing) else Inr dd))))"

definition commit :: "DependencyDescriptor \<Rightarrow> DependencyDescriptorReader \<Rightarrow> DependencyDescriptorReader" where
  "commit dd d =
     (let d = (case attached_structure dd of
                 Some s \<Rightarrow> d\<lparr>rd_active_decode_targets := all_decode_targets_bitmask s,
                            rd_structure := Some s\<rparr>
               | None \<Rightarrow> d)
      in case active_decode_targets dd of
           Some m \<Rightarrow> d\<lparr>rd_active_decode_targets := m\<rparr>
         | None \<Rightarrow> d)"

definition read_dd ::
  "DependencyDescriptorReader \<Rightarrow> u8 list \<Rightarrow>
     DdReadError + (DependencyDescriptor \<times> DependencyDescriptorReader)" where
  "read_dd d buf = and_then (parse d buf) (\<lambda>dd. Inr (dd, commit dd d))"

end
