(* ===== verification/DD_Write.thy ===== *)
theory DD_Write
  imports DD_Read
begin

text \<open>
  The dependency descriptor writer, \<open>crates/pulsebeam-core/src/dd/write.rs\<close>, with every check and
  error of it.  The output buffer is part of the result on success; on an error the writer's own
  state is unchanged, and the caller discards the buffer.
\<close>

subsection \<open>The code\<close>

datatype DdWriteError =
    WOverflow
  | WNoStructure
  | WUnknownTemplateId u8
  | Inconsistent
  | OutOfRange

record DependencyDescriptorWriter =
  wr_structure :: "TemplateDependencyStructure option"

definition write_err :: "Overflow + 'a \<Rightarrow> DdWriteError + 'a" where
  "write_err = map_err (\<lambda>_. WOverflow)"

definition NEXT_LAYER_SAME :: u32 where "NEXT_LAYER_SAME = 0"
definition NEXT_LAYER_TEMPORAL :: u32 where "NEXT_LAYER_TEMPORAL = 1"
definition NEXT_LAYER_SPATIAL :: u32 where "NEXT_LAYER_SPATIAL = 2"
definition NEXT_LAYER_NO_MORE :: u32 where "NEXT_LAYER_NO_MORE = 3"

lemmas next_layer_defs = NEXT_LAYER_SAME_def NEXT_LAYER_TEMPORAL_def NEXT_LAYER_SPATIAL_def
  NEXT_LAYER_NO_MORE_def

definition writer_default :: DependencyDescriptorWriter where
  "writer_default = \<lparr>wr_structure = None\<rparr>"

definition writer_reset :: "DependencyDescriptorWriter \<Rightarrow> DependencyDescriptorWriter" where
  "writer_reset d = d\<lparr>wr_structure := None\<rparr>"

definition validate :: "DependencyDescriptor \<Rightarrow> TemplateDependencyStructure \<Rightarrow> DdWriteError + unit" where
  "validate dd active =
     (if template_of active (template_id dd) = None then Inl (WUnknownTemplateId (template_id dd))
      else if length (dtis (frame_dependencies dd)) \<noteq> unat (decode_target_count active)
        then Inl Inconsistent
      else if length (chain_diffs (frame_dependencies dd)) \<noteq> unat (chain_count active)
        then Inl Inconsistent
      else case active_decode_targets dd of
             Some m \<Rightarrow> if m AND NOT (all_decode_targets_bitmask active) \<noteq> 0 then Inl OutOfRange
                       else Inr ()
           | None \<Rightarrow> Inr ())"

definition write_dti :: "DecodeTargetIndication \<Rightarrow> BitWriter \<Rightarrow> DdWriteError + BitWriter" where
  "write_dti d w = write_err (write_bits (dti_bits d) 2 w)"

definition write_custom_fdiff :: "u16 \<Rightarrow> BitWriter \<Rightarrow> DdWriteError + BitWriter" where
  "write_custom_fdiff fdiff w =
     (if fdiff = 0 \<or> (4096 :: u32) < ucast fdiff then Inl OutOfRange
      else let v = sat_sub (ucast fdiff) 1 :: u32;
               sz = (if ucast fdiff \<le> (16 :: u32) then 1
                     else if ucast fdiff \<le> (256 :: u32) then 2 else 3) :: u32
           in and_then (write_err (write_bits sz 2 w)) (\<lambda>w.
                write_err (write_bits v (unat (sat_mul 4 sz)) w)))"

definition write_frame_dependencies ::
  "DependencyDescriptor \<Rightarrow> BitWriter \<Rightarrow> DdWriteError + BitWriter" where
  "write_frame_dependencies dd w =
     and_then (if custom_dtis (dd_fields dd)
        then each_ref write_dti (dtis (frame_dependencies dd)) w else Inr w) (\<lambda>w.
     and_then (if custom_fdiffs (dd_fields dd)
        then and_then (each_ref write_custom_fdiff (frame_diffs (frame_dependencies dd)) w)
               (\<lambda>w. write_err (write_bits 0 2 w))
        else Inr w) (\<lambda>w.
      if custom_chains (dd_fields dd)
        then each_ref (\<lambda>d w. write_err (write_bits (ucast d) 8 w))
               (chain_diffs (frame_dependencies dd)) w
        else Inr w))"

definition layer_idc :: "FrameDependencyTemplate \<Rightarrow> FrameDependencyTemplate \<Rightarrow> DdWriteError + u32" where
  "layer_idc prv nxt =
     (if spatial_id nxt = spatial_id prv \<and> temporal_id nxt = temporal_id prv
        then Inr NEXT_LAYER_SAME
      else if spatial_id nxt = spatial_id prv \<and> temporal_id nxt = sat_add (temporal_id prv) 1
        then Inr NEXT_LAYER_TEMPORAL
      else if spatial_id nxt = sat_add (spatial_id prv) 1 \<and> temporal_id nxt = 0
        then Inr NEXT_LAYER_SPATIAL
      else Inl Inconsistent)"

fun write_layer_pairs :: "FrameDependencyTemplate list \<Rightarrow> BitWriter \<Rightarrow> DdWriteError + BitWriter" where
  "write_layer_pairs (prv # nxt # ts) w =
     and_then (layer_idc prv nxt) (\<lambda>idc.
     and_then (write_err (write_bits idc 2 w)) (write_layer_pairs (nxt # ts)))"
| "write_layer_pairs _ w = Inr w"

definition write_template_layers ::
  "TemplateDependencyStructure \<Rightarrow> BitWriter \<Rightarrow> DdWriteError + BitWriter" where
  "write_template_layers s w =
     and_then (write_layer_pairs (templates s) w)
       (\<lambda>w. write_err (write_bits NEXT_LAYER_NO_MORE 2 w))"

definition write_template_dtis ::
  "TemplateDependencyStructure \<Rightarrow> BitWriter \<Rightarrow> DdWriteError + BitWriter" where
  "write_template_dtis s w =
     each_ref (\<lambda>t w. if length (dtis t) \<noteq> unat (decode_target_count s) then Inl Inconsistent
                     else each_ref write_dti (dtis t) w) (templates s) w"

definition write_template_fdiff :: "u16 \<Rightarrow> BitWriter \<Rightarrow> DdWriteError + BitWriter" where
  "write_template_fdiff fdiff w =
     (if fdiff = 0 \<or> (16 :: u32) < ucast fdiff then Inl OutOfRange
      else and_then (write_err (write_bit True w)) (\<lambda>w.
             write_err (write_bits (sat_sub (ucast fdiff) 1) 4 w)))"

definition write_template_fdiffs ::
  "TemplateDependencyStructure \<Rightarrow> BitWriter \<Rightarrow> DdWriteError + BitWriter" where
  "write_template_fdiffs s w =
     each_ref (\<lambda>t w. and_then (each_ref write_template_fdiff (frame_diffs t) w)
       (\<lambda>w. write_err (write_bit False w))) (templates s) w"

definition write_template_chains ::
  "TemplateDependencyStructure \<Rightarrow> BitWriter \<Rightarrow> DdWriteError + BitWriter" where
  "write_template_chains s w =
     (let dt_cnt = ucast (decode_target_count s) :: u32
      in and_then (write_err (write_ns (ucast (chain_count s)) (sat_add dt_cnt 1) w)) (\<lambda>w.
         if chain_count s = 0 then Inr w
         else if length (decode_target_protected_by s) \<noteq> unat (decode_target_count s)
           then Inl Inconsistent
         else and_then (each_ref (\<lambda>p w. if chain_count s \<le> p then Inl OutOfRange
                   else write_err (write_ns (ucast p) (ucast (chain_count s)) w))
                 (decode_target_protected_by s) w) (\<lambda>w.
              each_ref (\<lambda>t w. if length (chain_diffs t) \<noteq> unat (chain_count s)
                   then Inl Inconsistent
                   else each_ref (\<lambda>d w. if (16 :: u32) \<le> ucast d then Inl OutOfRange
                          else write_err (write_bits (ucast d) 4 w)) (chain_diffs t) w)
                 (templates s) w)))"

definition write_resolution :: "RenderResolution \<Rightarrow> BitWriter \<Rightarrow> DdWriteError + BitWriter" where
  "write_resolution x w =
     (if res_width x = 0 \<or> res_height x = 0 then Inl OutOfRange
      else and_then (write_err (write_bits (sat_sub (ucast (res_width x)) 1) 16 w)) (\<lambda>w.
             write_err (write_bits (sat_sub (ucast (res_height x)) 1) 16 w)))"

definition write_resolutions ::
  "TemplateDependencyStructure \<Rightarrow> BitWriter \<Rightarrow> DdWriteError + BitWriter" where
  "write_resolutions s w =
     (if length (resolutions s) \<noteq> spatial_layer_count s then Inl Inconsistent
      else each_ref write_resolution (resolutions s) w)"

definition write_structure ::
  "TemplateDependencyStructure \<Rightarrow> BitWriter \<Rightarrow> DdWriteError + BitWriter" where
  "write_structure s w =
     (if templates s = [] \<or> decode_target_count s = 0
         \<or> MAX_DECODE_TARGETS < unat (decode_target_count s)
         \<or> decode_target_count s < chain_count s
      then Inl Inconsistent
      else case templates s of
        [] \<Rightarrow> Inl Inconsistent
      | first # _ \<Rightarrow>
          if spatial_id first \<noteq> 0 \<or> temporal_id first \<noteq> 0 then Inl Inconsistent
          else and_then (write_err (write_bits (ucast (template_id_offset s)) 6 w)) (\<lambda>w.
               and_then (write_err (write_bits (sat_sub (ucast (decode_target_count s)) 1) 5 w)) (\<lambda>w.
               and_then (write_template_layers s w) (\<lambda>w.
               and_then (write_template_dtis s w) (\<lambda>w.
               and_then (write_template_fdiffs s w) (\<lambda>w.
               and_then (write_template_chains s w) (\<lambda>w.
               and_then (write_err (write_bit (resolutions s \<noteq> []) w)) (\<lambda>w.
                 if resolutions s \<noteq> [] then write_resolutions s w else Inr w))))))))"

definition write_bits_of ::
  "DependencyDescriptor \<Rightarrow> TemplateDependencyStructure \<Rightarrow> BitWriter \<Rightarrow> DdWriteError + BitWriter" where
  "write_bits_of dd active w =
     and_then (write_err (write_bit (start_of_frame dd) w)) (\<lambda>w.
     and_then (write_err (write_bit (end_of_frame dd) w)) (\<lambda>w.
     and_then (write_err (write_bits (ucast (template_id dd)) 6 w)) (\<lambda>w.
     and_then (write_err (write_bits (ucast (frame_number dd)) 16 w)) (\<lambda>w.
       let has_extended = attached_structure dd \<noteq> None \<or> active_decode_targets dd \<noteq> None
                            \<or> \<not> fields_is_empty (dd_fields dd)
       in if has_extended then
            and_then (write_err (write_bit (attached_structure dd \<noteq> None) w)) (\<lambda>w.
            and_then (write_err (write_bit (active_decode_targets dd \<noteq> None) w)) (\<lambda>w.
            and_then (write_err (write_bit (custom_dtis (dd_fields dd)) w)) (\<lambda>w.
            and_then (write_err (write_bit (custom_fdiffs (dd_fields dd)) w)) (\<lambda>w.
            and_then (write_err (write_bit (custom_chains (dd_fields dd)) w)) (\<lambda>w.
            and_then (case attached_structure dd of Some s \<Rightarrow> write_structure s w | None \<Rightarrow> Inr w) (\<lambda>w.
            and_then (case active_decode_targets dd of
                        Some m \<Rightarrow> write_err (write_bits m (unat (decode_target_count active)) w)
                      | None \<Rightarrow> Inr w) (\<lambda>w.
              write_frame_dependencies dd w)))))))
          else Inr w))))"

definition write_dd ::
  "DependencyDescriptorWriter \<Rightarrow> DependencyDescriptor \<Rightarrow> u8 list \<Rightarrow>
     DdWriteError + (nat \<times> u8 list \<times> DependencyDescriptorWriter)" where
  "write_dd d dd out =
     and_then (case attached_structure dd of
                 Some s \<Rightarrow> Inr s | None \<Rightarrow> ok_or WNoStructure (wr_structure d)) (\<lambda>active.
     and_then (validate dd active) (\<lambda>_.
     and_then (write_bits_of dd active (writer_new out)) (\<lambda>w.
       Inr (finish w, bw_buf w,
         case attached_structure dd of Some s \<Rightarrow> d\<lparr>wr_structure := Some s\<rparr> | None \<Rightarrow> d))))"

end
