(* ===== verification/DD_Roundtrip.thy ===== *)
theory DD_Roundtrip
  imports DD_Write
begin

text \<open>
  The wire format of the dependency descriptor as bit strings, the proof that the writer produces
  it and the reader inverts it, and the properties of the codec: writing is total on well-formed
  descriptors up to the room in the buffer, reading back what was written gives the descriptor,
  and whatever the reader accepts is well formed and can be written again.
\<close>

subsection \<open>The wire format\<close>

text \<open>
  The bit strings of the syntax tables of the AV1 RTP payload specification, for each syntax
  element the code writes and reads.
\<close>

fun layer_bits :: "FrameDependencyTemplate list \<Rightarrow> bool list" where
  "layer_bits (p # n # ts) =
     word_bits 2 (if spatial_id n = spatial_id p
                  then (if temporal_id n = temporal_id p then 0 else 1) else 2 :: u32)
     @ layer_bits (n # ts)"
| "layer_bits _ = word_bits 2 (3 :: u32)"

definition dtis_bits :: "DecodeTargetIndication list \<Rightarrow> bool list" where
  "dtis_bits ds = concat (map (\<lambda>d. word_bits 2 (dti_bits d)) ds)"

definition fdiffs_bits :: "u16 list \<Rightarrow> bool list" where
  "fdiffs_bits fds = concat (map (\<lambda>d. True # word_bits 4 (ucast (d - 1) :: u32)) fds) @ [False]"

definition chain_bits :: "nat \<Rightarrow> u8 list \<Rightarrow> bool list" where
  "chain_bits n ds = concat (map (\<lambda>d. word_bits n (ucast d :: u32)) ds)"

definition chains_bits :: "TemplateDependencyStructure \<Rightarrow> bool list" where
  "chains_bits s =
     ns_bits (ucast (decode_target_count s) + 1) (ucast (chain_count s)) @
     (if chain_count s = 0 then []
      else concat (map (\<lambda>p. ns_bits (ucast (chain_count s)) (ucast p)) (decode_target_protected_by s)) @
           concat (map (\<lambda>t. chain_bits 4 (chain_diffs t)) (templates s)))"

definition resolution_bits :: "RenderResolution \<Rightarrow> bool list" where
  "resolution_bits x =
     word_bits 16 (ucast (res_width x - 1) :: u32) @ word_bits 16 (ucast (res_height x - 1) :: u32)"

definition structure_bits :: "TemplateDependencyStructure \<Rightarrow> bool list" where
  "structure_bits s =
     word_bits 6 (ucast (template_id_offset s) :: u32) @
     word_bits 5 (ucast (decode_target_count s - 1) :: u32) @
     layer_bits (templates s) @
     concat (map (dtis_bits \<circ> dtis) (templates s)) @
     concat (map (fdiffs_bits \<circ> frame_diffs) (templates s)) @
     chains_bits s @
     [resolutions s \<noteq> []] @ concat (map resolution_bits (resolutions s))"

definition custom_fdiff_size :: "u16 \<Rightarrow> nat" where
  "custom_fdiff_size d = (if unat d \<le> 16 then 1 else if unat d \<le> 256 then 2 else 3)"

definition custom_fdiff_bits :: "u16 \<Rightarrow> bool list" where
  "custom_fdiff_bits d =
     word_bits 2 (of_nat (custom_fdiff_size d) :: u32) @
     word_bits (4 * custom_fdiff_size d) (ucast (d - 1) :: u32)"

definition custom_fdiffs_bits :: "u16 list \<Rightarrow> bool list" where
  "custom_fdiffs_bits fds = concat (map custom_fdiff_bits fds) @ word_bits 2 (0 :: u32)"

definition deps_bits :: "DdFields \<Rightarrow> FrameDependencyTemplate \<Rightarrow> bool list" where
  "deps_bits f d =
     (if custom_dtis f then dtis_bits (dtis d) else []) @
     (if custom_fdiffs f then custom_fdiffs_bits (frame_diffs d) else []) @
     (if custom_chains f then chain_bits 8 (chain_diffs d) else [])"

definition has_extended :: "DependencyDescriptor \<Rightarrow> bool" where
  "has_extended dd \<longleftrightarrow> attached_structure dd \<noteq> None \<or> active_decode_targets dd \<noteq> None
     \<or> \<not> fields_is_empty (dd_fields dd)"

definition extended_bits :: "TemplateDependencyStructure \<Rightarrow> DependencyDescriptor \<Rightarrow> bool list" where
  "extended_bits active dd =
     [attached_structure dd \<noteq> None, active_decode_targets dd \<noteq> None,
      custom_dtis (dd_fields dd), custom_fdiffs (dd_fields dd), custom_chains (dd_fields dd)] @
     (case attached_structure dd of Some s \<Rightarrow> structure_bits s | None \<Rightarrow> []) @
     (case active_decode_targets dd of
        Some m \<Rightarrow> word_bits (unat (decode_target_count active)) m | None \<Rightarrow> []) @
     deps_bits (dd_fields dd) (frame_dependencies dd)"

definition descriptor_bits :: "TemplateDependencyStructure \<Rightarrow> DependencyDescriptor \<Rightarrow> bool list" where
  "descriptor_bits active dd =
     [start_of_frame dd, end_of_frame dd] @ word_bits 6 (ucast (template_id dd) :: u32) @
     word_bits 16 (ucast (frame_number dd) :: u32) @
     (if has_extended dd then extended_bits active dd else [])"

subsection \<open>The writer writes the wire format\<close>

lemma puts_field: "n \<le> 32 \<Longrightarrow> puts WOverflow (\<lambda>w. write_err (write_bits v n w)) (word_bits n v)"
  unfolding write_err_def by (rule emits_map_err [OF bw.emits_field])

lemma puts_flag: "puts WOverflow (\<lambda>w. write_err (write_bit b w)) [b]"
  unfolding write_err_def by (rule emits_map_err [OF emits_write_bit])

lemma puts_ns:
  "unat n < 2 ^ 31 \<Longrightarrow> v < n \<Longrightarrow> puts WOverflow (\<lambda>w. write_err (write_ns v n w)) (ns_bits n v)"
  unfolding write_err_def by (rule emits_map_err [OF emits_write_ns])

lemma puts_dtis: "puts WOverflow (each_ref write_dti ds) (dtis_bits ds)"
  unfolding dtis_bits_def write_dti_def [abs_def] by (intro emits_each_ref puts_field) simp

lemma puts_chain: "n \<le> 32 \<Longrightarrow> puts WOverflow (each_ref (\<lambda>d w. write_err (write_bits (ucast d) n w)) ds) (chain_bits n ds)"
  unfolding chain_bits_def by (intro emits_each_ref puts_field) simp

lemma minus_one_ucast:
  "d \<noteq> 0 \<Longrightarrow> sat_sub (ucast d) 1 = (ucast (d - 1 :: u16) :: u32)"
  "x \<noteq> 0 \<Longrightarrow> sat_sub (ucast x) 1 = (ucast (x - 1 :: u8) :: u32)"
  by (simp_all add: word_unat_eq_iff unat_sat_sub unat_minus_one)

lemma layer_idc_follows:
  assumes "layer_follows p n"
  shows "layer_idc p n = Inr (if spatial_id n = spatial_id p
           then (if temporal_id n = temporal_id p then 0 else 1) else 2)"
proof -
  have "sat_add v 1 = w" if "unat w = unat v + 1" for v w :: u8
    using that unat_bounds(1) [of w] by (simp add: word_unat_eq_iff unat_sat_add)
  with assms show ?thesis
    by (auto simp: layer_idc_def layer_follows_def next_layer_defs)
qed

lemma puts_layers:
  "successively layer_follows ts \<Longrightarrow>
     puts WOverflow (\<lambda>w. and_then (write_layer_pairs ts w)
       (\<lambda>w. write_err (write_bits NEXT_LAYER_NO_MORE 2 w))) (layer_bits ts)"
proof (induction ts rule: layer_bits.induct)
  case (1 p n ts)
  have "write_layer_pairs (p # n # ts) = (\<lambda>w. and_then (write_err (write_bits
     (if spatial_id n = spatial_id p then (if temporal_id n = temporal_id p then 0 else 1) else 2) 2 w))
     (write_layer_pairs (n # ts)))"
    using 1(2) by (intro ext) (simp add: layer_idc_follows)
  then show ?case
    using 1 by (simp only: layer_bits.simps and_then_assoc(1)) (intro emits_bind puts_field, auto)
qed (simp_all add: puts_field NEXT_LAYER_NO_MORE_def)

lemma puts_template_layers:
  "successively layer_follows (templates s) \<Longrightarrow> puts WOverflow (write_template_layers s) (layer_bits (templates s))"
  unfolding write_template_layers_def [abs_def] by (rule puts_layers)

lemma puts_template_dtis:
  "(\<And>t. t \<in> set (templates s) \<Longrightarrow> length (dtis t) = unat (decode_target_count s)) \<Longrightarrow>
     puts WOverflow (write_template_dtis s) (concat (map (dtis_bits \<circ> dtis) (templates s)))"
  unfolding write_template_dtis_def [abs_def] by (intro emits_each_ref) (simp add: puts_dtis)

lemma puts_template_fdiff:
  assumes "1 \<le> unat d" "unat d \<le> 16"
  shows "puts WOverflow (write_template_fdiff d) (True # word_bits 4 (ucast (d - 1) :: u32))"
proof -
  have "d \<noteq> 0" using assms(1) by auto
  moreover have "\<not> (16 :: u32) < ucast d" using assms(2) by (simp add: word_less_nat_alt)
  ultimately have "write_template_fdiff d = (\<lambda>w. and_then (write_err (write_bit True w)) (\<lambda>w.
      write_err (write_bits (ucast (d - 1)) 4 w)))"
    by (intro ext) (simp add: write_template_fdiff_def minus_one_ucast)
  then show ?thesis
    using emits_bind [OF puts_flag puts_field, of 4 True "ucast (d - 1)"] by simp
qed

lemma puts_template_fdiffs:
  "(\<And>t d. t \<in> set (templates s) \<Longrightarrow> d \<in> set (frame_diffs t) \<Longrightarrow> 1 \<le> unat d \<and> unat d \<le> 16) \<Longrightarrow>
     puts WOverflow (write_template_fdiffs s) (concat (map (fdiffs_bits \<circ> frame_diffs) (templates s)))"
  unfolding write_template_fdiffs_def [abs_def]
  by (intro emits_each_ref)
    (auto simp: fdiffs_bits_def intro!: emits_bind puts_flag emits_each_ref puts_template_fdiff)

lemma puts_template_chains:
  assumes "structure_wf s"
  shows "puts WOverflow (write_template_chains s) (chains_bits s)"
proof -
  note wf = structure_wfD [OF assms]
  have c: "sat_add (ucast (decode_target_count s)) 1 = (ucast (decode_target_count s) + 1 :: u32)"
    using wf(3) by (simp add: sat_add_def plus_less_left_iff)
  have u: "unat (ucast (decode_target_count s) + 1 :: u32) = unat (decode_target_count s) + 1"
    using wf(3) by (simp add: unat_add_lem [THEN iffD1])
  have count: "puts WOverflow (\<lambda>w. write_err (write_ns (ucast (chain_count s))
      (ucast (decode_target_count s) + 1) w)) (ns_bits (ucast (decode_target_count s) + 1) (ucast (chain_count s)))"
    using wf(3,4) u by (intro puts_ns) (simp_all add: word_less_nat_alt)
  show ?thesis
  proof (cases "chain_count s = 0")
    case True
    with emits_bind [OF count emits_ret] show ?thesis
      by (simp add: write_template_chains_def [abs_def] c chains_bits_def)
  next
    case False
    have prot: "puts WOverflow (each_ref (\<lambda>p w. if chain_count s \<le> p then Inl OutOfRange
          else write_err (write_ns (ucast p) (ucast (chain_count s)) w)) (decode_target_protected_by s))
        (concat (map (\<lambda>p. ns_bits (ucast (chain_count s)) (ucast p)) (decode_target_protected_by s)))"
    proof (rule emits_each_ref)
      fix p assume "p \<in> set (decode_target_protected_by s)"
      with wf(13) False have "p < chain_count s" by simp
      then show "puts WOverflow (\<lambda>w. if chain_count s \<le> p then Inl OutOfRange
          else write_err (write_ns (ucast p) (ucast (chain_count s)) w))
        (ns_bits (ucast (chain_count s)) (ucast p))"
        using wf(3,4) puts_ns [of "ucast (chain_count s)" "ucast p"]
        by (simp add: word_less_nat_alt word_le_nat_alt)
    qed
    have diffs: "puts WOverflow (each_ref (\<lambda>t w. if length (chain_diffs t) \<noteq> unat (chain_count s)
             then Inl Inconsistent
             else each_ref (\<lambda>d w. if (16 :: u32) \<le> ucast d then Inl OutOfRange
                    else write_err (write_bits (ucast d) 4 w)) (chain_diffs t) w) (templates s))
        (concat (map (\<lambda>t. chain_bits 4 (chain_diffs t)) (templates s)))"
    proof (rule emits_each_ref)
      fix t assume "t \<in> set (templates s)"
      note t = template_wfD [OF wf(10) [OF this]]
      have "puts WOverflow (each_ref (\<lambda>d w. if (16 :: u32) \<le> ucast d then Inl OutOfRange
                    else write_err (write_bits (ucast d) 4 w)) (chain_diffs t)) (chain_bits 4 (chain_diffs t))"
        unfolding chain_bits_def
      proof (rule emits_each_ref)
        fix d assume "d \<in> set (chain_diffs t)"
        then have "\<not> (16 :: u32) \<le> ucast d" using t(7) [of d] by (simp add: word_le_nat_alt not_le)
        then show "puts WOverflow (\<lambda>w. if (16 :: u32) \<le> ucast d then Inl OutOfRange
            else write_err (write_bits (ucast d) 4 w)) (word_bits 4 (ucast d :: u32))"
          by (simp add: puts_field)
      qed
      with t(6) show "puts WOverflow (\<lambda>w. if length (chain_diffs t) \<noteq> unat (chain_count s)
             then Inl Inconsistent
             else each_ref (\<lambda>d w. if (16 :: u32) \<le> ucast d then Inl OutOfRange
                    else write_err (write_bits (ucast d) 4 w)) (chain_diffs t) w)
        (chain_bits 4 (chain_diffs t))" by simp
    qed
    from emits_bind [OF count emits_bind [OF prot diffs]] show ?thesis
      using False wf(12) by (simp add: write_template_chains_def [abs_def] c chains_bits_def)
  qed
qed

lemma puts_resolution:
  "res_width x \<noteq> 0 \<Longrightarrow> res_height x \<noteq> 0 \<Longrightarrow> puts WOverflow (write_resolution x) (resolution_bits x)"
  unfolding write_resolution_def [abs_def] resolution_bits_def
  by (simp add: minus_one_ucast) (intro emits_bind puts_field; simp)

lemma puts_structure:
  assumes "structure_wf s"
  shows "puts WOverflow (write_structure s) (structure_bits s)"
proof -
  note wf = structure_wfD [OF assms]
  have dt0: "decode_target_count s \<noteq> 0" using wf(2) by auto
  have cc: "\<not> decode_target_count s < chain_count s" using wf(4) by (simp add: word_less_nat_alt)
  obtain t ts where ts: "templates s = t # ts" using wf(5) by (cases "templates s") auto
  have ids: "spatial_id t = 0" "temporal_id t = 0" using wf(7,8) ts by simp_all
  have last: "puts WOverflow (\<lambda>w. if resolutions s \<noteq> [] then write_resolutions s w else Inr w)
      (concat (map resolution_bits (resolutions s)))"
  proof (cases "resolutions s = []")
    case True
    then show ?thesis by (simp add: emits_ret)
  next
    case False
    then have "write_resolutions s = each_ref write_resolution (resolutions s)"
      using wf(14) by (intro ext) (simp add: write_resolutions_def)
    with False wf(15) show ?thesis by (auto intro!: emits_each_ref puts_resolution)
  qed
  have "write_structure s = (\<lambda>w. and_then (write_err (write_bits (ucast (template_id_offset s)) 6 w)) (\<lambda>w.
               and_then (write_err (write_bits (ucast (decode_target_count s - 1)) 5 w)) (\<lambda>w.
               and_then (write_template_layers s w) (\<lambda>w.
               and_then (write_template_dtis s w) (\<lambda>w.
               and_then (write_template_fdiffs s w) (\<lambda>w.
               and_then (write_template_chains s w) (\<lambda>w.
               and_then (write_err (write_bit (resolutions s \<noteq> []) w)) (\<lambda>w.
                 if resolutions s \<noteq> [] then write_resolutions s w else Inr w))))))))"
    using dt0 cc ids wf(3) by (intro ext) (simp add: write_structure_def ts minus_one_ucast)
  moreover have "\<And>t. t \<in> set (templates s) \<Longrightarrow> length (dtis t) = unat (decode_target_count s)"
    and "\<And>t d. t \<in> set (templates s) \<Longrightarrow> d \<in> set (frame_diffs t) \<Longrightarrow> 1 \<le> unat d \<and> unat d \<le> 16"
    using wf(10) template_wfD(3,5) by blast+
  ultimately show ?thesis
    unfolding structure_bits_def
    by (simp only:) (intro emits_bind puts_field puts_flag puts_template_layers puts_template_dtis
        puts_template_fdiffs puts_template_chains last assms wf(9); simp)
qed

lemma custom_fdiff_size_less: "custom_fdiff_size d < 4" "0 < custom_fdiff_size d"
  by (simp_all add: custom_fdiff_size_def)

lemma puts_custom_fdiff:
  assumes "1 \<le> unat d" "unat d \<le> 4096"
  shows "puts WOverflow (write_custom_fdiff d) (custom_fdiff_bits d)"
proof -
  have d: "d \<noteq> 0" using assms(1) by auto
  have sz: "(if ucast d \<le> (16 :: u32) then 1 else if ucast d \<le> (256 :: u32) then 2 else 3 :: u32) =
      of_nat (custom_fdiff_size d)"
    by (simp add: custom_fdiff_size_def word_le_nat_alt)
  have "unat (sat_mul 4 (of_nat (custom_fdiff_size d)) :: u32) = 4 * custom_fdiff_size d"
    by (simp add: custom_fdiff_size_def sat_mul_def)
  with d assms(2) have "write_custom_fdiff d = (\<lambda>w.
      and_then (write_err (write_bits (of_nat (custom_fdiff_size d)) 2 w)) (\<lambda>w.
        write_err (write_bits (ucast (d - 1)) (4 * custom_fdiff_size d) w)))"
    by (intro ext) (simp add: write_custom_fdiff_def sz minus_one_ucast Let_def word_less_nat_alt)
  then show ?thesis
    using custom_fdiff_size_less(1) [of d] unfolding custom_fdiff_bits_def
    by (simp only:) (intro emits_bind puts_field; simp)
qed

lemma puts_frame_dependencies:
  assumes "deps_wf (dd_fields dd) dt cc t (frame_dependencies dd)"
  shows "puts WOverflow (write_frame_dependencies dd) (deps_bits (dd_fields dd) (frame_dependencies dd))"
proof -
  let ?f = "dd_fields dd" and ?d = "frame_dependencies dd"
  have 1: "puts WOverflow (\<lambda>w. if custom_dtis ?f then each_ref write_dti (dtis ?d) w else Inr w)
      (if custom_dtis ?f then dtis_bits (dtis ?d) else [])"
    by (simp add: puts_dtis emits_ret)
  have 2: "puts WOverflow (\<lambda>w. if custom_fdiffs ?f
        then and_then (each_ref write_custom_fdiff (frame_diffs ?d) w) (\<lambda>w. write_err (write_bits 0 2 w))
        else Inr w) (if custom_fdiffs ?f then custom_fdiffs_bits (frame_diffs ?d) else [])"
  proof (cases "custom_fdiffs ?f")
    case True
    with assms have "\<And>x. x \<in> set (frame_diffs ?d) \<Longrightarrow> 1 \<le> unat x \<and> unat x \<le> 4096"
      by (auto simp: deps_wf_def list_all_iff)
    with True show ?thesis
      unfolding custom_fdiffs_bits_def
      by (simp only: if_True) (intro emits_bind emits_each_ref puts_custom_fdiff puts_field; simp)
  next
    case False
    then show ?thesis by (simp add: emits_ret)
  qed
  have 3: "puts WOverflow (\<lambda>w. if custom_chains ?f
        then each_ref (\<lambda>d w. write_err (write_bits (ucast d) 8 w)) (chain_diffs ?d) w else Inr w)
      (if custom_chains ?f then chain_bits 8 (chain_diffs ?d) else [])"
    by (simp add: puts_chain emits_ret)
  show ?thesis
    unfolding write_frame_dependencies_def [abs_def] deps_bits_def
    by (intro emits_bind 1 2 3)
qed

text \<open>The structure a descriptor is coded against: the attached one, or the one in force.\<close>

definition in_force ::
  "TemplateDependencyStructure option \<Rightarrow> DependencyDescriptor \<Rightarrow> TemplateDependencyStructure option" where
  "in_force current dd = (case attached_structure dd of Some s \<Rightarrow> Some s | None \<Rightarrow> current)"

lemma puts_descriptor:
  assumes "structure_wf active" and "descriptor_wf active dd" and "in_force c dd = Some active"
  shows "puts WOverflow (write_bits_of dd active) (descriptor_bits active dd)"
proof -
  have s: "puts WOverflow (\<lambda>w. case attached_structure dd of Some s \<Rightarrow> write_structure s w | None \<Rightarrow> Inr w)
      (case attached_structure dd of Some s \<Rightarrow> structure_bits s | None \<Rightarrow> [])"
    using assms(1,3) by (auto simp: in_force_def emits_ret puts_structure split: option.splits)
  have m: "puts WOverflow (\<lambda>w. case active_decode_targets dd of
        Some m \<Rightarrow> write_err (write_bits m (unat (decode_target_count active)) w) | None \<Rightarrow> Inr w)
      (case active_decode_targets dd of
        Some m \<Rightarrow> word_bits (unat (decode_target_count active)) m | None \<Rightarrow> [])"
    using structure_wfD(3) [OF assms(1)] by (auto simp: emits_ret puts_field split: option.splits)
  have d: "puts WOverflow (write_frame_dependencies dd) (deps_bits (dd_fields dd) (frame_dependencies dd))"
    using assms(2) by (auto simp: descriptor_wf_def intro: puts_frame_dependencies split: option.splits)
  have cons: "[a, b, c, d, e] @ xs = [a] @ [b] @ [c] @ [d] @ [e] @ xs"
    "[a, b] @ xs = [a] @ [b] @ xs" for a b c d e and xs :: "bool list" by simp_all
  have ext: "puts WOverflow (\<lambda>w. if has_extended dd then
            and_then (write_err (write_bit (attached_structure dd \<noteq> None) w)) (\<lambda>w.
            and_then (write_err (write_bit (active_decode_targets dd \<noteq> None) w)) (\<lambda>w.
            and_then (write_err (write_bit (custom_dtis (dd_fields dd)) w)) (\<lambda>w.
            and_then (write_err (write_bit (custom_fdiffs (dd_fields dd)) w)) (\<lambda>w.
            and_then (write_err (write_bit (custom_chains (dd_fields dd)) w)) (\<lambda>w.
            and_then (case attached_structure dd of Some s \<Rightarrow> write_structure s w | None \<Rightarrow> Inr w) (\<lambda>w.
            and_then (case active_decode_targets dd of
                        Some m \<Rightarrow> write_err (write_bits m (unat (decode_target_count active)) w)
                      | None \<Rightarrow> Inr w) (\<lambda>w.
              write_frame_dependencies dd w)))))))
          else Inr w) (if has_extended dd then extended_bits active dd else [])"
    unfolding extended_bits_def cons
    by (cases "has_extended dd"; simp only: if_True if_False)
      (intro emits_bind puts_flag s m d emits_ret)+
  show ?thesis
    unfolding write_bits_of_def [abs_def] descriptor_bits_def Let_def has_extended_def [symmetric] cons
    by (intro emits_bind puts_flag puts_field ext; simp)
qed

lemma validate_wf:
  assumes "structure_wf active" and "descriptor_wf active dd"
  shows "validate dd active = Inr ()"
proof -
  from assms(2) obtain t where t: "template_of active (template_id dd) = Some t"
    and d: "deps_wf (dd_fields dd) (unat (decode_target_count active)) (unat (chain_count active)) t
              (frame_dependencies dd)"
    by (auto simp: descriptor_wf_def split: option.splits)
  have "t \<in> set (templates active)" using t by (auto simp: template_of_def dest: get_at_in_set)
  note tw = template_wfD [OF structure_wfD(10) [OF assms(1) this]]
  have "length (dtis (frame_dependencies dd)) = unat (decode_target_count active)"
    "length (chain_diffs (frame_dependencies dd)) = unat (chain_count active)"
    using d tw(3,6) by (auto simp: deps_wf_def split: if_splits)
  moreover have "m AND NOT (mask (unat (decode_target_count active))) = 0"
    if "active_decode_targets dd = Some m" for m
    using assms(2) that take_bit_fits [of m "unat (decode_target_count active)"]
    by (simp add: descriptor_wf_def bit_eq_iff bit_and_iff bit_not_iff bit_take_bit_iff bit_mask_iff) blast
  ultimately show ?thesis
    using t by (simp add: validate_def all_decode_targets_bitmask_mask split: option.splits)
qed

subsection \<open>The reader inverts the wire format\<close>

lemma decodes_err: "decodes pending p bs x \<Longrightarrow> decodes pending (\<lambda>r. read_err (p r)) bs x"
  unfolding read_err_def by (rule decodes_map_err)

lemma gets_field: "unat v < 2 ^ n \<Longrightarrow> decodes pending (\<lambda>r. read_err (read_bits n r)) (word_bits n v) v"
  by (intro decodes_err br.decodes_field)

lemma gets_flag: "decodes pending (\<lambda>r. read_err (read_bit r)) [b] (of_bool b)"
  by (intro decodes_err decodes_read_bit)

lemmas gets_u8 = decodes_err [OF decodes_u8]
lemmas gets_u16 = decodes_err [OF decodes_u16]
lemmas gets_ns_u8 = decodes_err [OF decodes_ns_u8]

lemma each_mut_map: "each_mut p (map h xs) = each_mut (\<lambda>x. p (h x)) xs"
proof (intro ext)
  fix r show "each_mut p (map h xs) r = each_mut (\<lambda>x. p (h x)) xs r"
    by (induction xs arbitrary: r) simp_all
qed

lemma decodes_each_mut_map:
  "(\<And>x. x \<in> set xs \<Longrightarrow> decodes pend (p (h x)) (f x) (g x)) \<Longrightarrow>
     decodes pend (each_mut p (map h xs)) (concat (map f xs)) (map g xs)"
  unfolding each_mut_map by (rule decodes_each_mut)

lemma gets_dti: "decodes pending read_dti (word_bits 2 (dti_bits d)) d"
  using decodes_map [OF gets_field [OF dti_bits_less], of dti_from_bits]
  by (simp add: read_dti_def [abs_def])

lemma gets_dtis: "length ds = n \<Longrightarrow> decodes pending (repeat_n n read_dti) (dtis_bits ds) ds"
  unfolding dtis_bits_def by (intro decodes_repeat_n gets_dti)

lemma each_mut_const: "each_mut (\<lambda>_. p) xs = repeat_n (length xs) p"
proof (intro ext)
  fix r show "each_mut (\<lambda>_. p) xs r = repeat_n (length xs) p r"
    by (induction xs arbitrary: r) simp_all
qed

lemma sat_add_pred: "d \<noteq> 0 \<Longrightarrow> sat_add (d - 1) 1 = (d :: 'a::len word)"
proof -
  assume "d \<noteq> 0"
  then have "0 < unat d" by (simp add: unat_gt_0)
  moreover have "unat d \<le> 2 ^ LENGTH('a) - 1"
    using unsigned_less [of d] by (metis Suc_pred' less_Suc_eq_le unsigned_less zero_less_numeral zero_less_power One_nat_def)
  ultimately show ?thesis
    using \<open>d \<noteq> 0\<close> by (simp add: word_unat_eq_iff unat_sat_add unat_minus_one min_def)
qed

lemma sat_add_one_u8: "unat (v :: u8) < 255 \<Longrightarrow> unat (sat_add v 1) = unat v + 1"
  by (simp add: unat_sat_add)

text \<open>The templates as the passes of the reader build them up.\<close>

definition bare :: "FrameDependencyTemplate \<Rightarrow> FrameDependencyTemplate" where
  "bare t = \<lparr>spatial_id = spatial_id t, temporal_id = temporal_id t, dtis = [], frame_diffs = [],
     chain_diffs = []\<rparr>"

definition with_dtis :: "FrameDependencyTemplate \<Rightarrow> FrameDependencyTemplate" where
  "with_dtis t = (bare t)\<lparr>dtis := dtis t\<rparr>"

definition with_fdiffs :: "FrameDependencyTemplate \<Rightarrow> FrameDependencyTemplate" where
  "with_fdiffs t = (with_dtis t)\<lparr>frame_diffs := frame_diffs t\<rparr>"

lemma pass_fields [simp]:
  "dtis (bare t) = []" "spatial_id (bare t) = spatial_id t" "temporal_id (bare t) = temporal_id t"
  "frame_diffs (with_dtis t) = []" "chain_diffs (with_fdiffs t) = []"
  "spatial_id (with_fdiffs t) = spatial_id t"
  "(bare t)\<lparr>dtis := dtis t\<rparr> = with_dtis t"
  "(with_dtis t)\<lparr>frame_diffs := frame_diffs t\<rparr> = with_fdiffs t"
  "(with_fdiffs t)\<lparr>chain_diffs := chain_diffs t\<rparr> = t"
  by (simp_all add: bare_def with_dtis_def with_fdiffs_def)

lemma with_fdiffs_no_chains: "chain_diffs t = [] \<Longrightarrow> with_fdiffs t = t"
  using pass_fields(9) [of t] by (simp add: bare_def with_dtis_def with_fdiffs_def)

definition layers_next where
  "layers_next ts sid tid idc r =
     (if idc = (0 :: u32) then read_template_layers_loop ts sid tid r
      else if idc = 1 then
        if 8 \<le> unat (sat_add tid 1) then Inl TooManyTemporalLayers
        else read_template_layers_loop ts sid (sat_add tid 1) r
      else if idc = 2 then
        if 4 \<le> unat (sat_add sid 1) then Inl TooManySpatialLayers
        else read_template_layers_loop ts (sat_add sid 1) 0 r
      else Inr (ts, r))"

lemma layers_unfold:
  "length acc < 64 \<Longrightarrow> read_template_layers_loop acc (spatial_id t) (temporal_id t) =
     (\<lambda>r. and_then (read_err (read_bits 2 r)) (\<lambda>(idc, r).
        layers_next (acc @ [bare t]) (spatial_id t) (temporal_id t) idc r))"
  by (intro ext, subst read_template_layers_loop.simps)
    (simp add: try_push_def layers_next_def [abs_def] bare_def Let_def cong: if_cong)

lemma gets_layers:
  assumes "successively layer_follows (t # ts)" and "length acc + length (t # ts) \<le> 64"
    and "\<And>x. x \<in> set (t # ts) \<Longrightarrow> unat (spatial_id x) < 4 \<and> unat (temporal_id x) < 8"
  shows "decodes pending (read_template_layers_loop acc (spatial_id t) (temporal_id t))
     (layer_bits (t # ts)) (acc @ map bare (t # ts))"
  using assms
proof (induction ts arbitrary: acc t)
  case Nil
  have "decodes pending (layers_next (acc @ [bare t]) (spatial_id t) (temporal_id t) 3) []
      (acc @ [bare t])"
    by (simp add: layers_next_def [abs_def] decodes_ret)
  then show ?case
    using decodes_bind [OF gets_field [of 3 2],
        where q = "layers_next (acc @ [bare t]) (spatial_id t) (temporal_id t)"] Nil.prems(2)
    by (fastforce simp: layers_unfold)
next
  case (Cons n ts)
  define idc :: u32 where "idc = (if spatial_id n = spatial_id t
      then (if temporal_id n = temporal_id t then 0 else 1) else 2)"
  have n: "unat (spatial_id n) < 4" "unat (temporal_id n) < 8" using Cons.prems(3) [of n] by auto
  have sa: "sat_add v 1 = w" if "unat w = unat v + 1" for v w :: u8
    using that unat_bounds(1) [of w] by (simp add: word_unat_eq_iff unat_sat_add)
  have f: "layer_follows t n" using Cons.prems(1) by simp
  have step: "layers_next (acc @ [bare t]) (spatial_id t) (temporal_id t) idc =
      read_template_layers_loop (acc @ [bare t]) (spatial_id n) (temporal_id n)"
    using f n sa by (intro ext) (auto simp: layer_follows_def idc_def layers_next_def)
  have "decodes pending (read_template_layers_loop (acc @ [bare t]) (spatial_id n) (temporal_id n))
      (layer_bits (n # ts)) ((acc @ [bare t]) @ map bare (n # ts))"
    using Cons.prems by (intro Cons.IH) auto
  moreover have "unat idc < 2 ^ 2" by (simp add: idc_def)
  ultimately show ?case
    using decodes_bind [OF gets_field [of idc 2], where q = "layers_next (acc @ [bare t]) (spatial_id t) (temporal_id t)"]
      Cons.prems(2)
    by (simp add: step layers_unfold flip: idc_def)
qed

lemma gets_fdiffs_loop:
  assumes "length acc + length fds \<le> 8" and "\<And>d. d \<in> set fds \<Longrightarrow> 1 \<le> unat d \<and> unat d \<le> 16"
  shows "decodes pending (read_fdiffs_loop acc) (fdiffs_bits fds) (acc @ fds)"
  using assms
proof (induction fds arbitrary: acc)
  case Nil
  have "decodes pending (read_fdiffs_loop acc) ([False] @ []) acc"
    unfolding read_fdiffs_loop.simps [of acc, abs_def]
    by (rule decodes_bind [OF gets_flag]) (simp add: decodes_ret)
  then show ?case by (simp add: fdiffs_bits_def)
next
  case (Cons d fds)
  have u: "1 \<le> unat d" "unat d \<le> 16" using Cons.prems(2) [of d] by simp_all
  then have "d \<noteq> 0" by auto
  with u have d: "d \<noteq> 0" "unat (d - 1) < 2 ^ 4" by (simp_all add: unat_minus_one)
  have "decodes pending (read_fdiffs_loop (acc @ [d])) (fdiffs_bits fds) ((acc @ [d]) @ fds)"
    using Cons.prems by (intro Cons.IH) auto
  then have "decodes pending (\<lambda>r. and_then (try_push MAX_FRAME_DIFFS TooManyFrameDiffs acc
      (sat_add (d - 1) 1)) (\<lambda>fds. read_fdiffs_loop fds r)) (fdiffs_bits fds) (acc @ d # fds)"
    using Cons.prems(1) d(1) by (simp add: try_push_def sat_add_pred)
  then have "decodes pending (\<lambda>r. and_then (read_err (read_bits_u16 4 r)) (\<lambda>(v, r).
      and_then (try_push MAX_FRAME_DIFFS TooManyFrameDiffs acc (sat_add v 1)) (\<lambda>fds.
        read_fdiffs_loop fds r))) (word_bits 4 (ucast (d - 1) :: u32) @ fdiffs_bits fds) (acc @ d # fds)"
    using d(2) by (intro decodes_bind [OF gets_u16]) simp_all
  then have "decodes pending (read_fdiffs_loop acc)
      ([True] @ word_bits 4 (ucast (d - 1) :: u32) @ fdiffs_bits fds) (acc @ d # fds)"
    unfolding read_fdiffs_loop.simps [of acc, abs_def] by (intro decodes_bind [OF gets_flag]) simp
  then show ?case by (simp add: fdiffs_bits_def)
qed

lemma gets_template_layers:
  assumes "structure_wf s"
  shows "decodes pending (read_template_layers (b\<lparr>templates := []\<rparr>)) (layer_bits (templates s))
     (b\<lparr>templates := map bare (templates s)\<rparr>)"
proof -
  note wf = structure_wfD [OF assms]
  obtain t ts where ts: "templates s = t # ts" using wf(5) by (cases "templates s") auto
  have ids: "unat (spatial_id x) < 4 \<and> unat (temporal_id x) < 8" if "x \<in> set (t # ts)" for x
    using wf(10) [of x] that ts template_wfD(1,2) by (metis list.set_intros)
  have "decodes pending (read_template_layers_loop [] (spatial_id t) (temporal_id t))
      (layer_bits (t # ts)) ([] @ map bare (t # ts))"
    by (rule gets_layers) (use wf(6,9) ids ts in simp_all)
  with wf(7,8) have "decodes pending (read_template_layers_loop [] 0 0) (layer_bits (templates s))
      (map bare (templates s))"
    by (simp add: ts)
  from decodes_map [OF this, of "\<lambda>ts. b\<lparr>templates := ts\<rparr>"] show ?thesis
    by (simp add: read_template_layers_def [abs_def])
qed

lemma gets_template_dtis:
  assumes "\<And>t. t \<in> set ts \<Longrightarrow> length (dtis t) = unat (decode_target_count s)"
  shows "decodes pending (read_template_dtis (s\<lparr>templates := map bare ts\<rparr>))
     (concat (map (dtis_bits \<circ> dtis) ts)) (s\<lparr>templates := map with_dtis ts\<rparr>)"
proof -
  let ?p = "\<lambda>t r. and_then (repeat_n (unat (decode_target_count s)) read_dti r)
     (\<lambda>(ds, r). Inr (t\<lparr>dtis := dtis t @ ds\<rparr>, r))"
  have "decodes pending (?p (bare t)) (dtis_bits (dtis t)) (with_dtis t)" if "t \<in> set ts" for t
    using decodes_map [OF gets_dtis [OF assms [OF that]], of "\<lambda>ds. (bare t)\<lparr>dtis := ds\<rparr>"] by simp
  then have "decodes pending (each_mut ?p (map bare ts)) (concat (map (dtis_bits \<circ> dtis) ts))
      (map with_dtis ts)"
    by (intro decodes_each_mut_map) simp
  from decodes_map [OF this, of "\<lambda>ts. s\<lparr>templates := ts\<rparr>"] show ?thesis
    by (simp add: read_template_dtis_def [abs_def])
qed

lemma gets_template_fdiffs:
  assumes "\<And>t. t \<in> set ts \<Longrightarrow> length (frame_diffs t) \<le> 8"
    and "\<And>t d. t \<in> set ts \<Longrightarrow> d \<in> set (frame_diffs t) \<Longrightarrow> 1 \<le> unat d \<and> unat d \<le> 16"
  shows "decodes pending (read_template_fdiffs (s\<lparr>templates := map with_dtis ts\<rparr>))
     (concat (map (fdiffs_bits \<circ> frame_diffs) ts)) (s\<lparr>templates := map with_fdiffs ts\<rparr>)"
proof -
  let ?p = "\<lambda>t r. and_then (read_fdiffs_loop (frame_diffs t) r)
     (\<lambda>(fds, r). Inr (t\<lparr>frame_diffs := fds\<rparr>, r))"
  have "decodes pending (?p (with_dtis t)) (fdiffs_bits (frame_diffs t)) (with_fdiffs t)"
    if "t \<in> set ts" for t
    using decodes_map [OF gets_fdiffs_loop [of "[]" "frame_diffs t"],
        of "\<lambda>fds. (with_dtis t)\<lparr>frame_diffs := fds\<rparr>"] assms that by simp
  then have "decodes pending (each_mut ?p (map with_dtis ts))
      (concat (map (fdiffs_bits \<circ> frame_diffs) ts)) (map with_fdiffs ts)"
    by (intro decodes_each_mut_map) simp
  from decodes_map [OF this, of "\<lambda>ts. s\<lparr>templates := ts\<rparr>"] show ?thesis
    by (simp add: read_template_fdiffs_def [abs_def])
qed

lemma gets_dimension:
  assumes "v \<noteq> 0"
  shows "decodes pending read_dimension (word_bits 16 (ucast (v - 1) :: u32)) v"
proof -
  have "unat (v - 1) < 2 ^ 16" using unat_bounds(2) [of "v - 1"] by simp
  then have g: "decodes pending (\<lambda>r. read_err (read_bits 16 r)) (word_bits 16 (ucast (v - 1) :: u32))
      (ucast (v - 1))"
    by (intro gets_field) simp
  have "unat v \<noteq> 0" using assms by (simp add: unat_eq_0)
  then have "sat_add (ucast (v - 1)) 1 = (ucast v :: u32)"
    using assms unat_bounds(2) [of v]
    by (simp add: word_unat_eq_iff unat_sat_add unat_minus_one)
  with decodes_map [OF g, of "\<lambda>c. let coded = sat_add c 1 in if unat coded < 2 ^ 16 then ucast coded else - 1 :: u16"]
    unat_bounds(2) [of v]
  show ?thesis by (simp add: read_dimension_def [abs_def] Let_def)
qed

lemma gets_chain:
  "n \<le> 8 \<Longrightarrow> length ds = k \<Longrightarrow> (\<And>d. d \<in> set ds \<Longrightarrow> unat d < 2 ^ n) \<Longrightarrow>
     decodes pending (repeat_n k (\<lambda>r. read_err (read_bits_u8 n r))) (chain_bits n ds) ds"
  unfolding chain_bits_def by (intro decodes_repeat_n gets_u8)

lemma gets_template_chains:
  assumes "structure_wf s"
  defines "s0 \<equiv> s\<lparr>chain_count := 0, decode_target_protected_by := [],
       templates := map with_fdiffs (templates s)\<rparr>"
  shows "decodes pending (read_template_chains s0) (chains_bits s) s"
proof -
  note wf = structure_wfD [OF assms(1)]
  let ?n = "ucast (decode_target_count s) + 1 :: u32"
  let ?cc = "chain_count s"
  have s0: "decode_target_count s0 = decode_target_count s" "templates s0 = map with_fdiffs (templates s)"
    "decode_target_protected_by s0 = []"
    by (simp_all add: s0_def)
  have c: "sat_add (ucast (decode_target_count s)) 1 = ?n"
    using wf(3) by (simp add: sat_add_def plus_less_left_iff)
  have u: "unat ?n = unat (decode_target_count s) + 1"
    using wf(3) by (simp add: unat_add_lem [THEN iffD1])
  have count: "decodes pending (\<lambda>r. read_err (read_ns_u8 ?n r)) (ns_bits ?n (ucast ?cc)) ?cc"
    using wf(3,4) u by (intro gets_ns_u8) (simp_all add: word_less_nat_alt)
  let ?p = "\<lambda>cc t r. and_then (repeat_n (unat cc) (\<lambda>r. read_err (read_bits_u8 4 r)) r)
                          (\<lambda>(ds, r). Inr (t\<lparr>chain_diffs := chain_diffs t @ ds\<rparr>, r))"
  let ?ch = "\<lambda>cc ps r. and_then (each_mut (?p cc) (map with_fdiffs (templates s)) r)
       (\<lambda>(ts, r). Inr (s0\<lparr>chain_count := cc, decode_target_protected_by := ps, templates := ts\<rparr>, r))"
  let ?q = "\<lambda>cc r. if cc = 0 then Inr (s0\<lparr>chain_count := cc\<rparr>, r)
            else and_then (repeat_n (unat (decode_target_count s))
              (\<lambda>r. read_err (read_ns_u8 (ucast cc) r)) r) (\<lambda>(ps, r). ?ch cc ps r)"
  have eq: "read_template_chains s0 = (\<lambda>r. and_then (read_err (read_ns_u8 ?n r)) (\<lambda>(cc, r). ?q cc r))"
    by (intro ext) (simp add: read_template_chains_def c s0 Let_def cong: if_cong)
  have "decodes pending (?q ?cc) (if ?cc = 0 then []
      else concat (map (\<lambda>p. ns_bits (ucast ?cc) (ucast p)) (decode_target_protected_by s)) @
           concat (map (\<lambda>t. chain_bits 4 (chain_diffs t)) (templates s))) s"
  proof (cases "?cc = 0")
    case True
    have "map with_fdiffs (templates s) = templates s"
      using wf(10) template_wfD(6) True by (intro map_idI with_fdiffs_no_chains) force
    with True wf(11) have "s0\<lparr>chain_count := ?cc\<rparr> = s"
      by (intro TemplateDependencyStructure.equality) (simp_all add: s0_def)
    with True show ?thesis by (simp add: decodes_ret)
  next
    case False
    have prot: "decodes pending (repeat_n (unat (decode_target_count s))
        (\<lambda>r. read_err (read_ns_u8 (ucast ?cc) r)))
        (concat (map (\<lambda>p. ns_bits (ucast ?cc) (ucast p)) (decode_target_protected_by s)))
        (decode_target_protected_by s)"
      using wf(3,4,12,13) False
      by (intro decodes_repeat_n gets_ns_u8) (simp_all add: word_less_nat_alt)
    have "decodes pending (?p ?cc (with_fdiffs t)) (chain_bits 4 (chain_diffs t)) t"
      if "t \<in> set (templates s)" for t
      using decodes_map [OF gets_chain [of 4 "chain_diffs t" "unat ?cc"],
          of "\<lambda>ds. (with_fdiffs t)\<lparr>chain_diffs := ds\<rparr>"] template_wfD(6,7) [OF wf(10) [OF that]] by simp
    then have "decodes pending (each_mut (?p ?cc) (map with_fdiffs (templates s)))
        (concat (map (\<lambda>t. chain_bits 4 (chain_diffs t)) (templates s))) (map (\<lambda>t. t) (templates s))"
      by (intro decodes_each_mut_map)
    from decodes_map [OF this, of "\<lambda>ts. s0\<lparr>chain_count := ?cc,
        decode_target_protected_by := decode_target_protected_by s, templates := ts\<rparr>"]
    have "decodes pending (?ch ?cc (decode_target_protected_by s))
        (concat (map (\<lambda>t. chain_bits 4 (chain_diffs t)) (templates s)))
        (s0\<lparr>chain_count := ?cc, decode_target_protected_by := decode_target_protected_by s,
          templates := templates s\<rparr>)" by simp
    also have "s0\<lparr>chain_count := ?cc, decode_target_protected_by := decode_target_protected_by s,
          templates := templates s\<rparr> = s"
      by (intro TemplateDependencyStructure.equality) (simp_all add: s0_def)
    finally show ?thesis
      using decodes_bind [OF prot, where q = "?ch ?cc"] False by simp
  qed
  with decodes_bind [OF count, where q = ?q] show ?thesis
    unfolding chains_bits_def eq by blast
qed

lemma gets_resolutions:
  assumes "structure_wf s" and "resolutions s \<noteq> []"
  shows "decodes pending (read_resolutions (s\<lparr>resolutions := []\<rparr>))
     (concat (map resolution_bits (resolutions s))) s"
proof -
  note wf = structure_wfD [OF assms(1)]
  let ?p = "\<lambda>r. and_then (read_dimension r) (\<lambda>(w, r). and_then (read_dimension r) (\<lambda>(h, r).
              Inr (\<lparr>res_width = w, res_height = h\<rparr>, r)))"
  have "decodes pending ?p (resolution_bits x) x" if "x \<in> set (resolutions s)" for x
    unfolding resolution_bits_def
  proof (rule decodes_bind [OF gets_dimension])
    show "decodes pending (\<lambda>r. and_then (read_dimension r) (\<lambda>(h, r).
              Inr (\<lparr>res_width = res_width x, res_height = h\<rparr>, r)))
        (word_bits 16 (ucast (res_height x - 1) :: u32)) x"
      using decodes_map [OF gets_dimension, of "res_height x" "\<lambda>h. \<lparr>res_width = res_width x, res_height = h\<rparr>"]
        wf(15) [OF that] by (cases x) simp
  qed (use wf(15) [OF that] in simp)
  then have "decodes pending (repeat_n (length (resolutions s)) ?p)
      (concat (map resolution_bits (resolutions s))) (resolutions s)"
    by (intro decodes_repeat_n) simp_all
  moreover have "spatial_layer_count s \<le> 4"
    using wf(10) template_wfD(1) unfolding spatial_layer_count_le_iff by blast
  moreover have "length (resolutions s) = spatial_layer_count s" using wf(14) assms(2) by simp
  moreover have "spatial_layer_count (s\<lparr>resolutions := []\<rparr>) = spatial_layer_count s"
    by (simp add: spatial_layer_count_def)
  ultimately show ?thesis
    using decodes_map [of pending "repeat_n (length (resolutions s)) ?p" _ "resolutions s"
        "\<lambda>rs. s\<lparr>resolutions := rs\<rparr>"]
    by (simp add: read_resolutions_def [abs_def] Let_def)
qed

lemma gets_structure:
  assumes "structure_wf s"
  shows "decodes pending read_structure (structure_bits s) s"
proof -
  note wf = structure_wfD [OF assms]
  let ?b = "s\<lparr>resolutions := [], chain_count := 0, decode_target_protected_by := []\<rparr>"
  let ?s = "s\<lparr>resolutions := []\<rparr>"
  have sw: "structure_wf ?s"
    using assms by (auto simp: structure_wf_def spatial_layer_count_def)
  have dtis: "\<And>t. t \<in> set (templates s) \<Longrightarrow> length (dtis t) = unat (decode_target_count ?b)"
    using wf(10) template_wfD(3) by auto
  have fd: "\<And>t. t \<in> set (templates s) \<Longrightarrow> length (frame_diffs t) \<le> 8"
    "\<And>t d. t \<in> set (templates s) \<Longrightarrow> d \<in> set (frame_diffs t) \<Longrightarrow> 1 \<le> unat d \<and> unat d \<le> 16"
    using wf(10) template_wfD(4,5) by blast+
  have ch: "decodes pending (read_template_chains (?b\<lparr>templates := map with_fdiffs (templates s)\<rparr>))
      (chains_bits s) ?s"
    using gets_template_chains [OF sw] by (simp add: chains_bits_def cong: if_cong)
  have none: "?s = s" if "resolutions s = []" using that by (cases s) simp
  have rs: "decodes pending (\<lambda>r. and_then (read_err (read_bit r)) (\<lambda>(b, r).
        (\<lambda>b r. if b \<noteq> 0 then read_resolutions ?s r else Inr (?s, r)) b r))
      ([resolutions s \<noteq> []] @ concat (map resolution_bits (resolutions s))) s"
  proof (rule decodes_bind [OF gets_flag])
    show "decodes pending (\<lambda>r. if of_bool (resolutions s \<noteq> []) \<noteq> (0 :: u32)
        then read_resolutions ?s r else Inr (?s, r)) (concat (map resolution_bits (resolutions s))) s"
      using gets_resolutions [OF assms] by (cases "resolutions s = []") (simp_all add: decodes_ret none)
  qed
  have dtc: "sat_add (decode_target_count s - 1) 1 = decode_target_count s"
    "unat (decode_target_count s - 1) < 2 ^ 5"
  proof -
    have "decode_target_count s \<noteq> 0" using wf(2) by auto
    then show "sat_add (decode_target_count s - 1) 1 = decode_target_count s"
      "unat (decode_target_count s - 1) < 2 ^ 5"
      using wf(3) by (simp_all add: sat_add_pred unat_minus_one)
  qed
  have init: "\<lparr>template_id_offset = template_id_offset s, decode_target_count = decode_target_count s,
      chain_count = 0, decode_target_protected_by = [], templates = [], resolutions = []\<rparr> =
      ?b\<lparr>templates := []\<rparr>"
    by (cases s) simp
  show ?thesis
    unfolding structure_bits_def read_structure_def [abs_def]
    apply (rule decodes_bind [OF gets_u8])
      apply simp
    using wf(1) apply simp
    apply (rule decodes_bind [OF gets_u8])
      apply simp
    using dtc(2) apply simp
    unfolding Let_def dtc(1) init
    apply (rule decodes_bind [OF gets_template_layers [OF assms]])
    apply (rule decodes_bind [OF gets_template_dtis [OF dtis]], assumption)
    apply (rule decodes_bind [OF gets_template_fdiffs [OF fd]], assumption+)
    apply (rule decodes_bind [OF ch])
    apply (rule rs)
    done
qed

lemma gets_custom_fdiffs:
  assumes "length acc + length fds \<le> 8" and "\<And>d. d \<in> set fds \<Longrightarrow> 1 \<le> unat d \<and> unat d \<le> 4096"
  shows "decodes pending (\<lambda>r. and_then (read_err (read_bits 2 r)) (\<lambda>(sz, r). read_custom_fdiffs sz acc r))
     (custom_fdiffs_bits fds) (acc @ fds)"
  using assms
proof (induction fds arbitrary: acc)
  case Nil
  have "decodes pending (read_custom_fdiffs 0 acc) [] acc"
    unfolding read_custom_fdiffs.simps [of 0 acc, abs_def] by (simp add: decodes_ret)
  then show ?case
    using decodes_bind [OF gets_field [of 0 2], where q = "\<lambda>sz. read_custom_fdiffs sz acc"]
    by (fastforce simp: custom_fdiffs_bits_def)
next
  case (Cons d fds)
  let ?sz = "custom_fdiff_size d"
  have u: "1 \<le> unat d" "unat d \<le> 4096" using Cons.prems(2) [of d] by simp_all
  then have d0: "d \<noteq> 0" by auto
  have fits: "unat (d - 1) < 2 ^ (4 * ?sz)"
    using u d0 by (auto simp: unat_minus_one custom_fdiff_size_def)
  have w: "unat (sat_mul 4 (of_nat ?sz) :: u32) = 4 * ?sz" "0 < (of_nat ?sz :: u32)"
    "4 * ?sz \<le> 16" "unat (of_nat ?sz :: u32) < 2 ^ 2"
    by (simp_all add: custom_fdiff_size_def sat_mul_def)
  have "decodes pending (\<lambda>r. and_then (read_err (read_bits 2 r)) (\<lambda>(sz, r). read_custom_fdiffs sz (acc @ [d]) r))
      (custom_fdiffs_bits fds) ((acc @ [d]) @ fds)"
    using Cons.prems by (intro Cons.IH) auto
  then have "decodes pending (\<lambda>r. and_then (try_push MAX_FRAME_DIFFS TooManyFrameDiffs acc (sat_add (d - 1) 1)) (\<lambda>fds.
        and_then (read_err (read_bits 2 r)) (\<lambda>(sz, r). read_custom_fdiffs sz fds r)))
      (custom_fdiffs_bits fds) (acc @ d # fds)"
    using Cons.prems(1) d0 by (simp add: try_push_def sat_add_pred)
  then have "decodes pending (\<lambda>r. and_then (read_err (read_bits_u16 (4 * ?sz) r)) (\<lambda>(v, r).
        and_then (try_push MAX_FRAME_DIFFS TooManyFrameDiffs acc (sat_add v 1)) (\<lambda>fds.
        and_then (read_err (read_bits 2 r)) (\<lambda>(sz, r). read_custom_fdiffs sz fds r))))
      (word_bits (4 * ?sz) (ucast (d - 1) :: u32) @ custom_fdiffs_bits fds) (acc @ d # fds)"
    by (rule decodes_bind [OF gets_u16 [OF w(3) fits]])
  then have "decodes pending (read_custom_fdiffs (of_nat ?sz) acc)
      (word_bits (4 * ?sz) (ucast (d - 1) :: u32) @ custom_fdiffs_bits fds) (acc @ d # fds)"
    unfolding read_custom_fdiffs.simps [of "of_nat ?sz" acc, abs_def] using w(1,2) by simp
  then have "decodes pending (\<lambda>r. and_then (read_err (read_bits 2 r)) (\<lambda>(sz, r). read_custom_fdiffs sz acc r))
      (word_bits 2 (of_nat ?sz :: u32) @ word_bits (4 * ?sz) (ucast (d - 1) :: u32) @ custom_fdiffs_bits fds)
      (acc @ d # fds)"
    by (rule decodes_bind [OF gets_field [OF w(4)]])
  then show ?case by (simp add: custom_fdiffs_bits_def custom_fdiff_bits_def)
qed

lemma gets_frame_dependencies:
  assumes "structure_wf active" and t: "template_of active (mf_template_id m) = Some t"
    and d: "deps_wf f (unat (decode_target_count active)) (unat (chain_count active)) t d"
  shows "decodes pending (read_frame_dependencies active m f) (deps_bits f d) d"
proof -
  have "t \<in> set (templates active)" using t by (auto simp: template_of_def dest: get_at_in_set)
  note tw = template_wfD [OF structure_wfD(10) [OF assms(1) this]]
  let ?d1 = "t\<lparr>dtis := dtis d\<rparr>"
  let ?d2 = "?d1\<lparr>frame_diffs := frame_diffs d\<rparr>"
  have e1: "?d1 = t" if "\<not> custom_dtis f" using d that by (cases t) (simp add: deps_wf_def)
  have e2: "?d2 = ?d1" if "\<not> custom_fdiffs f" using d that by (cases t) (simp add: deps_wf_def)
  have e3: "?d2\<lparr>chain_diffs := chain_diffs d\<rparr> = d"
    using d by (cases t; cases d) (simp add: deps_wf_def)
  have e4: "?d2 = d" if "\<not> custom_chains f" using d that by (cases t; cases d) (simp add: deps_wf_def)
  have 1: "decodes pending (\<lambda>r. if custom_dtis f
        then and_then (each_mut (\<lambda>_. read_dti) (dtis t) r) (\<lambda>(ds, r). Inr (t\<lparr>dtis := ds\<rparr>, r))
        else Inr (t, r)) (if custom_dtis f then dtis_bits (dtis d) else []) ?d1"
  proof (cases "custom_dtis f")
    case True
    with d tw(3) have "length (dtis d) = length (dtis t)" by (simp add: deps_wf_def)
    from decodes_map [OF gets_dtis [OF this], of "\<lambda>ds. t\<lparr>dtis := ds\<rparr>"] True show ?thesis
      by (simp add: each_mut_const)
  next
    case False
    with e1 show ?thesis by (simp add: decodes_ret)
  qed
  have 2: "decodes pending (\<lambda>r. if custom_fdiffs f
        then and_then (read_err (read_bits 2 r)) (\<lambda>(sz, r).
             and_then (read_custom_fdiffs sz [] r) (\<lambda>(fds, r). Inr (?d1\<lparr>frame_diffs := fds\<rparr>, r)))
        else Inr (?d1, r)) (if custom_fdiffs f then custom_fdiffs_bits (frame_diffs d) else []) ?d2"
  proof (cases "custom_fdiffs f")
    case True
    with d have "decodes pending (\<lambda>r. and_then (read_err (read_bits 2 r)) (\<lambda>(sz, r). read_custom_fdiffs sz [] r))
       (custom_fdiffs_bits (frame_diffs d)) ([] @ frame_diffs d)"
      by (intro gets_custom_fdiffs) (simp_all add: deps_wf_def list_all_iff)
    from decodes_map [OF this, of "\<lambda>fds. ?d1\<lparr>frame_diffs := fds\<rparr>"] True show ?thesis
      by (simp add: and_then_assoc(2))
  next
    case False
    with e2 show ?thesis by (simp add: decodes_ret)
  qed
  have 3: "decodes pending (\<lambda>r. if custom_chains f
        then and_then (each_mut (\<lambda>_ r. read_err (read_bits_u8 8 r)) (chain_diffs ?d2) r)
               (\<lambda>(ds, r). Inr (?d2\<lparr>chain_diffs := ds\<rparr>, r))
        else Inr (?d2, r)) (if custom_chains f then chain_bits 8 (chain_diffs d) else []) d"
  proof (cases "custom_chains f")
    case True
    with d tw(6) have "length (chain_diffs d) = length (chain_diffs t)" by (simp add: deps_wf_def)
    moreover have "unat x < 2 ^ 8" for x :: u8 using unat_bounds(1) [of x] by simp
    ultimately have "decodes pending (repeat_n (length (chain_diffs t)) (\<lambda>r. read_err (read_bits_u8 8 r)))
        (chain_bits 8 (chain_diffs d)) (chain_diffs d)"
      by (intro gets_chain) simp_all
    from decodes_map [OF this, of "\<lambda>ds. ?d2\<lparr>chain_diffs := ds\<rparr>"] True e3 show ?thesis
      by (simp add: each_mut_const)
  next
    case False
    with e4 show ?thesis by (simp add: decodes_ret)
  qed
  have "read_frame_dependencies active m f = (\<lambda>r. and_then (if custom_dtis f
        then and_then (each_mut (\<lambda>_. read_dti) (dtis t) r) (\<lambda>(ds, r). Inr (t\<lparr>dtis := ds\<rparr>, r))
        else Inr (t, r)) (\<lambda>(deps, r).
     and_then (if custom_fdiffs f
        then and_then (read_err (read_bits 2 r)) (\<lambda>(sz, r).
             and_then (read_custom_fdiffs sz [] r) (\<lambda>(fds, r). Inr (deps\<lparr>frame_diffs := fds\<rparr>, r)))
        else Inr (deps, r)) (\<lambda>(deps, r).
      if custom_chains f
        then and_then (each_mut (\<lambda>_ r. read_err (read_bits_u8 8 r)) (chain_diffs deps) r)
               (\<lambda>(ds, r). Inr (deps\<lparr>chain_diffs := ds\<rparr>, r))
        else Inr (deps, r))))"
    using t by (intro ext) (simp add: read_frame_dependencies_def template_of_def)
  then show ?thesis
    unfolding deps_bits_def by (simp only:) (rule decodes_bind [OF 1] decodes_bind [OF 2] 3)+
qed

subsection \<open>The mandatory fields\<close>

lemma read_mandatory_bits:
  assumes "stream_bits buf = [sof, eof] @ word_bits 6 tid @ word_bits 16 fn @ rest"
    and "unat tid < 64"
  shows "read_mandatory buf = Inr \<lparr>mf_start_of_frame = sof, mf_end_of_frame = eof,
     mf_template_id = tid, mf_frame_number = fn\<rparr>"
proof -
  have "8 * length buf \<ge> 24" using arg_cong [OF assms(1), of length] by simp
  then obtain f h l bs where buf: "buf = f # h # l # bs"
    by (cases buf rule: remdups_adj.cases; cases "tl (tl buf)") auto
  have sb: "word_bits 8 f @ word_bits 8 h @ word_bits 8 l @ stream_bits bs =
      ([sof, eof] @ word_bits 6 tid) @ word_bits 16 fn @ rest"
    using assms(1) by (simp add: buf stream_bits_def)
  have f: "word_bits 8 f = [sof, eof] @ word_bits 6 tid"
    and r: "word_bits 8 h @ word_bits 8 l @ stream_bits bs = word_bits 16 fn @ rest"
    using arg_cong [OF sb, of "take 8"] arg_cong [OF sb, of "drop 8"] by simp_all
  have hl: "word_bits 8 h @ word_bits 8 l = word_bits 16 fn"
    using arg_cong [OF r, of "take 16"] by simp
  have bits: "bit f i = (([sof, eof] @ word_bits 6 tid) ! (7 - i))" if "i < 8" for i
    using arg_cong [OF f, of "\<lambda>xs. xs ! (7 - i)"] that by (simp add: nth_word_bits)
  have sof: "f AND 0x80 \<noteq> 0 \<longleftrightarrow> sof"
    using bits [of 7] and_exp_eq_0_iff_not_bit [of f 7] by simp
  have eof: "f AND 0x40 \<noteq> 0 \<longleftrightarrow> eof"
    using bits [of 6] and_exp_eq_0_iff_not_bit [of f 6] by simp
  have tid: "f AND 0x3f = tid"
  proof -
    have "(0x3f :: u8) = mask 6" by (simp add: mask_eq_exp_minus_1)
    moreover have "f AND mask 6 = take_bit 6 tid"
      using bits by (intro bit_word_eqI)
        (auto simp: bit_and_iff bit_mask_iff bit_take_bit_iff nth_append nth_word_bits)
    ultimately show ?thesis using take_bit_fits [of tid 6] assms(2) by simp
  qed
  have widen: "bits_word (word_bits 8 v) = (ucast v :: u16)" for v :: u8
  proof (rule bit_word_eqI)
    fix i show "bit (bits_word (word_bits 8 v) :: u16) i \<longleftrightarrow> bit (ucast v :: u16) i"
      using bit_imp_le_length [of v i] by (cases "i < 8") (auto simp: bit_simps_pb bit_ucast_iff)
  qed
  have "fn = bits_word (word_bits 8 h @ word_bits 8 l)"
    using take_bit_fits [of fn 16] unat_bounds(2) [of fn] by (simp add: hl)
  then have fn: "push_bit 8 (ucast h) OR ucast l = fn"
    by (simp only: bits_word_append length_word_bits widen)
  show ?thesis by (simp add: read_mandatory_def buf sof eof tid fn)
qed

lemma pending_with_offset: "n \<le> 8 * length buf \<Longrightarrow> pending (with_offset buf n) = drop n (stream_bits buf)"
  by (simp add: pending_def with_offset_def)

lemma of_bool_neq_0 [simp]: "of_bool b \<noteq> (0 :: u32) \<longleftrightarrow> b"
  by simp

subsection \<open>A whole descriptor\<close>

lemma gets_flags:
  assumes "unat (fields_raw f) < 8"
  shows "decodes pending parse_flags [sp, tp, custom_dtis f, custom_fdiffs f, custom_chains f] (sp, tp, f)"
proof -
  have "decodes pending parse_flags ([sp] @ [tp] @ [custom_dtis f] @ [custom_fdiffs f] @ [custom_chains f] @ [])
      (sp, tp, fields_of (custom_dtis f) (custom_fdiffs f) (custom_chains f))"
    unfolding parse_flags_def [abs_def] set_custom_fields_of
    by (rule decodes_bind [OF gets_flag])+ (simp add: decodes_ret)
  then show ?thesis by (simp add: fields_of_custom [OF assms])
qed

lemma gets_fields:
  assumes "structure_wf active" and wf: "descriptor_wf active dd" and "in_force c dd = Some active"
  shows "decodes pending (parse_fields c (mandatory dd)
       (attached_structure dd \<noteq> None, active_decode_targets dd \<noteq> None, dd_fields dd))
     ((case attached_structure dd of Some s \<Rightarrow> structure_bits s | None \<Rightarrow> []) @
      (case active_decode_targets dd of
         Some m \<Rightarrow> word_bits (unat (decode_target_count active)) m | None \<Rightarrow> []) @
      deps_bits (dd_fields dd) (frame_dependencies dd)) dd"
proof -
  from wf obtain t where t: "template_of active (template_id dd) = Some t"
    and d: "deps_wf (dd_fields dd) (unat (decode_target_count active)) (unat (chain_count active)) t
              (frame_dependencies dd)"
    by (auto simp: descriptor_wf_def split: option.splits)
  have 1: "decodes pending (\<lambda>r. if attached_structure dd \<noteq> None
          then and_then (read_structure r) (\<lambda>(s, r). Inr (Some s, r)) else Inr (None, r))
      (case attached_structure dd of Some s \<Rightarrow> structure_bits s | None \<Rightarrow> []) (attached_structure dd)"
  proof (cases "attached_structure dd")
    case (Some s)
    with assms(3) have "structure_wf s" using assms(1) by (simp add: in_force_def)
    from decodes_map [OF gets_structure [OF this], of Some] Some show ?thesis by simp
  qed (simp add: decodes_ret)
  have a: "(case attached_structure dd of Some s \<Rightarrow> Inr s | None \<Rightarrow> ok_or NoStructure c) = Inr active"
    using assms(3) by (auto simp: in_force_def split: option.splits)
  have 2: "decodes pending (\<lambda>r. if active_decode_targets dd \<noteq> None
          then and_then (read_err (read_bits (unat (decode_target_count active)) r)) (\<lambda>(v, r). Inr (Some v, r))
          else Inr (None, r)) (case active_decode_targets dd of
         Some m \<Rightarrow> word_bits (unat (decode_target_count active)) m | None \<Rightarrow> [])
      (active_decode_targets dd)"
  proof (cases "active_decode_targets dd")
    case (Some m)
    with wf have "unat m < 2 ^ unat (decode_target_count active)" by (simp add: descriptor_wf_def)
    from decodes_map [OF gets_field [OF this], of Some] Some show ?thesis by simp
  qed (simp add: decodes_ret)
  have 3: "decodes pending (read_frame_dependencies active (mandatory dd) (dd_fields dd))
      (deps_bits (dd_fields dd) (frame_dependencies dd)) (frame_dependencies dd)"
    using gets_frame_dependencies [OF assms(1) _ d] t by (simp add: mandatory_def)
  have reso: "resolution dd = get_at (resolutions active) (unat (spatial_id (frame_dependencies dd)))"
    using wf by (simp add: descriptor_wf_def)
  have eta: "\<lparr>start_of_frame = start_of_frame dd, end_of_frame = end_of_frame dd,
      template_id = template_id dd, frame_number = frame_number dd,
      attached_structure = attached_structure dd, active_decode_targets = active_decode_targets dd,
      dd_fields = dd_fields dd, frame_dependencies = frame_dependencies dd,
      resolution = resolution dd\<rparr> = dd"
    by (cases dd) simp
  have 4: "decodes pending (\<lambda>r. and_then (read_frame_dependencies active (mandatory dd) (dd_fields dd) r) (\<lambda>(deps, r).
       Inr (\<lparr>start_of_frame = mf_start_of_frame (mandatory dd), end_of_frame = mf_end_of_frame (mandatory dd),
             template_id = mf_template_id (mandatory dd), frame_number = mf_frame_number (mandatory dd),
             attached_structure = attached_structure dd, active_decode_targets = active_decode_targets dd,
             dd_fields = dd_fields dd, frame_dependencies = deps,
             resolution = get_at (resolutions active) (unat (spatial_id deps))\<rparr>, r)))
      (deps_bits (dd_fields dd) (frame_dependencies dd)) dd"
    using decodes_map [OF 3, of "\<lambda>deps. \<lparr>start_of_frame = start_of_frame dd, end_of_frame = end_of_frame dd,
             template_id = template_id dd, frame_number = frame_number dd,
             attached_structure = attached_structure dd, active_decode_targets = active_decode_targets dd,
             dd_fields = dd_fields dd, frame_dependencies = deps,
             resolution = get_at (resolutions active) (unat (spatial_id deps))\<rparr>"]
    by (simp add: mandatory_def eta flip: reso)
  show ?thesis
    unfolding parse_fields_def [abs_def] prod.case
    apply (rule decodes_bind [OF 1])
    unfolding a and_then_simps
    apply (rule decodes_bind [OF 2])
    apply (rule 4)
    done
qed

lemma length_extended_bits: "5 \<le> length (extended_bits active dd)"
  by (simp add: extended_bits_def)

lemma parse_descriptor:
  assumes sw: "structure_wf active" and wf: "descriptor_wf active dd"
    and act: "in_force (rd_structure d) dd = Some active"
    and buf: "stream_bits buf = descriptor_bits active dd @ pad" "length pad < 8" "length buf \<le> 255"
  shows "parse d buf = Inr dd"
proof -
  let ?ext = "if has_extended dd then extended_bits active dd else []"
  have tid: "unat (template_id dd) < 64" and f8: "unat (fields_raw (dd_fields dd)) < 8"
    using wf by (simp_all add: descriptor_wf_def)
  have wb: "word_bits 6 (ucast (template_id dd) :: u32) = word_bits 6 (template_id dd)"
    "word_bits 16 (ucast (frame_number dd) :: u32) = word_bits 16 (frame_number dd)"
    by (intro word_bits_cong; simp add: bit_ucast_iff)+
  have bits: "stream_bits buf = [start_of_frame dd, end_of_frame dd] @ word_bits 6 (template_id dd) @
      word_bits 16 (frame_number dd) @ ?ext @ pad"
    using buf(1) by (simp add: descriptor_bits_def wb)
  have len: "8 * length buf = 24 + length ?ext + length pad"
    using arg_cong [OF bits, of length] by simp
  have m: "read_mandatory buf = Inr (mandatory dd)"
    using read_mandatory_bits [OF bits tid] by (simp add: mandatory_def)
  have pend: "pending (with_offset buf 24) = ?ext @ pad"
    using len bits by (subst pending_with_offset) simp_all
  let ?flags = "(attached_structure dd \<noteq> None, active_decode_targets dd \<noteq> None, dd_fields dd)"
  obtain r where fl: "(if 3 < length buf then parse_flags (with_offset buf 24)
      else Inr ((False, False, fields_empty), with_offset buf 24)) = Inr (?flags, r)"
    and r: "pending r = ((case attached_structure dd of Some s \<Rightarrow> structure_bits s | None \<Rightarrow> []) @
      (case active_decode_targets dd of
         Some m \<Rightarrow> word_bits (unat (decode_target_count active)) m | None \<Rightarrow> []) @
      deps_bits (dd_fields dd) (frame_dependencies dd)) @ pad"
  proof (cases "has_extended dd")
    case True
    then have "3 < length buf" using len length_extended_bits [of active dd] by simp
    moreover have "pending (with_offset buf 24) = [attached_structure dd \<noteq> None, active_decode_targets dd \<noteq> None,
       custom_dtis (dd_fields dd), custom_fdiffs (dd_fields dd), custom_chains (dd_fields dd)] @
       ((case attached_structure dd of Some s \<Rightarrow> structure_bits s | None \<Rightarrow> []) @
      (case active_decode_targets dd of
         Some m \<Rightarrow> word_bits (unat (decode_target_count active)) m | None \<Rightarrow> []) @
      deps_bits (dd_fields dd) (frame_dependencies dd)) @ pad"
      using pend True by (simp add: extended_bits_def)
    from decodesE [OF gets_flags [OF f8] this] obtain r' where
      "parse_flags (with_offset buf 24) = Inr (?flags, r')" "pending r' =
       ((case attached_structure dd of Some s \<Rightarrow> structure_bits s | None \<Rightarrow> []) @
      (case active_decode_targets dd of
         Some m \<Rightarrow> word_bits (unat (decode_target_count active)) m | None \<Rightarrow> []) @
      deps_bits (dd_fields dd) (frame_dependencies dd)) @ pad" .
    ultimately show thesis using that [of r'] by simp
  next
    case False
    then have e: "attached_structure dd = None" "active_decode_targets dd = None"
      "fields_is_empty (dd_fields dd)" by (auto simp: has_extended_def)
    then have "dd_fields dd = fields_empty"
      by (cases "dd_fields dd") (simp add: fields_is_empty_def fields_empty_def)
    moreover have "deps_bits (dd_fields dd) x = []" for x
      using e(3) f8 by (simp add: fields_is_empty_iff deps_bits_def)
    moreover have "\<not> 3 < length buf" using False len buf(2) by simp
    ultimately show thesis using that [of "with_offset buf 24"] False pend e by simp
  qed
  obtain r' where body: "parse_fields (rd_structure d) (mandatory dd) ?flags r = Inr (dd, r')"
    and r': "pending r' = pad"
    using decodesE [OF gets_fields [OF sw wf act] r] .
  have "remaining r' div 8 = 0" using r' buf(2) by (simp flip: length_pending)
  with m fl body buf(3) show ?thesis by (simp add: parse_def)
qed

lemma length_written_new: "bw_room (writer_new out) = 8 * length out"
  by (simp add: bw_room_def writer_new_def)

text \<open>
  Writing a well-formed descriptor: it succeeds exactly when the buffer has room for the
  descriptor's bits, takes the fewest bytes that hold them, and leaves the padded bits there.
\<close>

lemma write_dd_spec:
  assumes "structure_wf active" and "descriptor_wf active dd" and "in_force (wr_structure w) dd = Some active"
  defines "n \<equiv> length (descriptor_bits active dd)"
  shows "if n \<le> 8 * length out
     then \<exists>out'. write_dd w dd out = Inr ((n + 7) div 8, out', w\<lparr>wr_structure := Some active\<rparr>) \<and>
            stream_bits (take ((n + 7) div 8) out') =
              descriptor_bits active dd @ replicate (8 * ((n + 7) div 8) - n) False
     else write_dd w dd out = Inl WOverflow"
proof -
  have a: "(case attached_structure dd of Some s \<Rightarrow> Inr s | None \<Rightarrow> ok_or WNoStructure (wr_structure w)) = Inr active"
    using assms(3) by (auto simp: in_force_def split: option.splits)
  have w': "(case attached_structure dd of Some s \<Rightarrow> w\<lparr>wr_structure := Some s\<rparr> | None \<Rightarrow> w) =
      w\<lparr>wr_structure := Some active\<rparr>"
    using assms(3) by (cases w) (auto simp: in_force_def split: option.splits)
  have p: "puts WOverflow (write_bits_of dd active) (descriptor_bits active dd)"
    using puts_descriptor assms by blast
  show ?thesis
  proof (cases "n \<le> 8 * length out")
    case True
    with p obtain bw where bw: "write_bits_of dd active (writer_new out) = Inr bw" "writer_inv bw"
        "written bw = descriptor_bits active dd"
      unfolding emits_def n_def using writer_inv_new [of out] length_written_new [of out]
      by (metis append_Nil)
    have "bw_pos bw = n" using finish_stream(4) [OF bw(2)] bw(3) by (simp add: n_def)
    moreover have "stream_bits (take (finish bw) (bw_buf bw)) =
        descriptor_bits active dd @ replicate (8 * finish bw - bw_pos bw) False"
      using finish_stream(1) [OF bw(2)] bw(3) by simp
    ultimately show ?thesis
      using True bw(1) validate_wf [OF assms(1,2)] by (simp add: write_dd_def a w' finish_def)
  next
    case False
    with p have "write_bits_of dd active (writer_new out) = Inl WOverflow"
      unfolding emits_def n_def using writer_inv_new [of out] length_written_new [of out] by auto
    with False show ?thesis
      using validate_wf [OF assms(1,2)] by (simp add: write_dd_def a)
  qed
qed

end
