(* ===== verification/DD_Accept.thy ===== *)
theory DD_Accept
  imports DD_Roundtrip
begin

text \<open>
  What the dependency descriptor reader accepts: every structure and every descriptor it returns is
  well formed, and the bits it consumed are at least as many as the writer needs to code the result
  again.
\<close>

text \<open>
  \<open>accepts pend p Q\<close>: whenever the reader \<open>p\<close> accepts, its result \<open>x\<close> and the number \<open>k\<close> of
  bits it consumed satisfy \<open>Q x k\<close>.
\<close>

definition accepts :: "('r \<Rightarrow> bool list) \<Rightarrow> ('r \<Rightarrow> 'e + ('a \<times> 'r)) \<Rightarrow> ('a \<Rightarrow> nat \<Rightarrow> bool) \<Rightarrow> bool" where
  "accepts pend p Q \<longleftrightarrow>
     (\<forall>r x r'. p r = Inr (x, r') \<longrightarrow> (\<exists>k. length (pend r) = k + length (pend r') \<and> Q x k))"

lemma acceptsD:
  assumes "accepts pend p Q" and "p r = Inr (x, r')"
  obtains k where "length (pend r) = k + length (pend r')" and "Q x k"
  using assms unfolding accepts_def by blast

lemma accepts_ret: "Q x 0 \<Longrightarrow> accepts pend (\<lambda>r. Inr (x, r)) Q"
  by (simp add: accepts_def)

lemma accepts_fail: "accepts pend (\<lambda>r. Inl e) Q"
  by (simp add: accepts_def)

lemma accepts_weaken: "accepts pend p Q \<Longrightarrow> (\<And>x k. Q x k \<Longrightarrow> R x k) \<Longrightarrow> accepts pend p R"
  unfolding accepts_def by blast

lemma accepts_bind:
  assumes "accepts pend p Q" and "\<And>x k. Q x k \<Longrightarrow> accepts pend (q x) (\<lambda>y j. R y (k + j))"
  shows "accepts pend (\<lambda>r. and_then (p r) (\<lambda>(x, r). q x r)) R"
  unfolding accepts_def
proof (intro allI impI)
  fix r y r' assume "and_then (p r) (\<lambda>(x, r). q x r) = Inr (y, r')"
  then obtain x r1 where 1: "p r = Inr (x, r1)" and 2: "q x r1 = Inr (y, r')"
    by (auto simp: and_then_Inr_iff)
  from assms(1) 1 obtain k where k: "length (pend r) = k + length (pend r1)" "Q x k"
    by (rule acceptsD)
  from assms(2) [OF k(2)] 2 obtain j where "length (pend r1) = j + length (pend r')" "R y (k + j)"
    by (rule acceptsD)
  with k(1) show "\<exists>k. length (pend r) = k + length (pend r') \<and> R y k"
    by (intro exI [of _ "k + j"]) simp
qed

lemma accepts_pure_bind:
  assumes "\<And>x. m = Inr x \<Longrightarrow> accepts pend (q x) R"
  shows "accepts pend (\<lambda>r. and_then m (\<lambda>x. q x r)) R"
  using assms by (cases m) (simp_all add: accepts_fail)

lemma accepts_if:
  "(b \<Longrightarrow> accepts pend p Q) \<Longrightarrow> (\<not> b \<Longrightarrow> accepts pend q Q) \<Longrightarrow>
     accepts pend (\<lambda>r. if b then p r else q r) Q"
  by (cases b) simp_all

lemma accepts_map:
  "accepts pend p Q \<Longrightarrow> (\<And>x k. Q x k \<Longrightarrow> R (f x) k) \<Longrightarrow>
     accepts pend (\<lambda>r. and_then (p r) (\<lambda>(x, r). Inr (f x, r))) R"
  by (erule accepts_bind) (simp add: accepts_ret)

lemma accepts_err: "accepts pend p Q \<Longrightarrow> accepts pend (\<lambda>r. read_err (p r)) Q"
  by (simp add: accepts_def read_err_def map_err_Inr_iff)

lemma accepts_repeat_n:
  assumes "accepts pend p (\<lambda>y k. P y \<and> c y \<le> k)"
  shows "accepts pend (repeat_n n p) (\<lambda>ys k. length ys = n \<and> list_all P ys \<and> sum_list (map c ys) \<le> k)"
proof (induction n)
  case 0
  have "repeat_n 0 p = (\<lambda>r. Inr ([], r))" by (intro ext) simp
  then show ?case by (simp add: accepts_ret)
next
  case (Suc n)
  have "repeat_n (Suc n) p = (\<lambda>r. and_then (p r) (\<lambda>(x, r).
     and_then (repeat_n n p r) (\<lambda>(xs, r). Inr (x # xs, r))))" by (intro ext) simp
  then show ?case
    using assms Suc by (auto intro!: accepts_bind [OF assms] accepts_map [OF Suc])
qed

lemma accepts_each_mut:
  assumes "\<And>x. x \<in> set xs \<Longrightarrow> accepts pend (p x) (\<lambda>y k. P x y \<and> c y \<le> k)"
  shows "accepts pend (each_mut p xs) (\<lambda>ys k. list_all2 P xs ys \<and> sum_list (map c ys) \<le> k)"
  using assms
proof (induction xs)
  case Nil
  have "each_mut p [] = (\<lambda>r. Inr ([], r))" by (intro ext) simp
  then show ?case by (simp add: accepts_ret)
next
  case (Cons x xs)
  have eq: "each_mut p (x # xs) = (\<lambda>r. and_then (p x r) (\<lambda>(y, r).
     and_then (each_mut p xs r) (\<lambda>(ys, r). Inr (y # ys, r))))" by (intro ext) simp
  have x: "accepts pend (p x) (\<lambda>y k. P x y \<and> c y \<le> k)" by (rule Cons.prems) simp
  have xs: "accepts pend (each_mut p xs) (\<lambda>ys k. list_all2 P xs ys \<and> sum_list (map c ys) \<le> k)"
    by (rule Cons.IH) (simp add: Cons.prems)
  show ?case
    unfolding eq by (auto intro!: accepts_bind [OF x] accepts_map [OF xs])
qed

subsection \<open>Fields\<close>

lemma accepts_field: "accepts pending (read_bits n) (\<lambda>v k. k = n \<and> unat v < 2 ^ n)"
  unfolding accepts_def
proof (intro allI impI)
  fix r v r' assume "read_bits n r = Inr (v, r')"
  from br.rd_consumes [OF this] br.rd_less [OF this]
  show "\<exists>k. length (pending r) = k + length (pending r') \<and> k = n \<and> unat v < 2 ^ n" by simp
qed

lemma accepts_u8: "n \<le> 8 \<Longrightarrow> accepts pending (read_bits_u8 n) (\<lambda>v k. k = n \<and> unat v < 2 ^ n)"
proof -
  assume n: "n \<le> 8"
  have "unat (ucast v :: u8) < 2 ^ n" if "unat v < 2 ^ n" for v :: u32
    using that by (simp add: unsigned_ucast_eq take_bit_eq_mod order_le_less_trans [OF mod_less_eq_dividend])
  then show ?thesis
    unfolding read_bits_u8_def [abs_def] using n by (auto intro!: accepts_map [OF accepts_field])
qed

lemma accepts_u16: "n \<le> 16 \<Longrightarrow> accepts pending (read_bits_u16 n) (\<lambda>v k. k = n \<and> unat v < 2 ^ n)"
proof -
  assume n: "n \<le> 16"
  have "unat (ucast v :: u16) < 2 ^ n" if "unat v < 2 ^ n" for v :: u32
    using that by (simp add: unsigned_ucast_eq take_bit_eq_mod order_le_less_trans [OF mod_less_eq_dividend])
  then show ?thesis
    unfolding read_bits_u16_def [abs_def] using n by (auto intro!: accepts_map [OF accepts_field])
qed

lemma accepts_flag: "accepts pending read_bit (\<lambda>v k. k = 1 \<and> v \<in> {0, 1})"
proof -
  have "v \<in> {0, 1}" if "unat v < 2 ^ 1" for v :: u32
    using that by (auto simp: word_unat_eq_iff)
  then show ?thesis
    unfolding read_bit_def [abs_def] by (intro accepts_weaken [OF accepts_field [of 1]]) auto
qed

lemma length_ns_bits:
  "\<not> n \<le> 1 \<Longrightarrow> length (ns_bits n v) = (if v < 2 ^ (floor_log2 n + 1) - n then floor_log2 n else floor_log2 n + 1)"
  by (simp add: ns_bits_def Let_def)

lemma accepts_ns:
  assumes "1 \<le> unat n" and "unat n < 2 ^ 31"
  shows "accepts pending (read_ns n) (\<lambda>v k. v < n \<and> k = length (ns_bits n v))"
proof (cases "n \<le> 1")
  case True
  with assms(1) show ?thesis
    by (auto simp: read_ns_def [abs_def] ns_bits_def word_less_nat_alt intro!: accepts_ret)
next
  case False
  define w where "w = floor_log2 n + 1"
  define m :: u32 where "m = 2 ^ w - n"
  have n: "2 \<le> unat n" using False by (simp add: word_le_nat_alt)
  note a = ns_arith [OF n assms(2), folded w_def, folded m_def]
  have len: "length (ns_bits n v) = (if v < m then w - 1 else w)" for v
    using length_ns_bits [OF False, of v] unfolding m_def w_def by simp
  have le: "2 ^ (w - 1) \<le> unat n"
  proof -
    have "n \<noteq> 0" using n by auto
    from floor_log2_bounds(1) [OF this] show ?thesis by (simp add: w_def)
  qed
  have pw: "(2 :: nat) ^ w = 2 * 2 ^ (w - 1)" using a(1) by (cases w) simp_all
  have um: "unat m = 2 ^ w - unat n" by (rule a(3))
  have small: "(2 :: nat) ^ (w - 1) \<le> 2 ^ 30" using a(2) by (intro power_increasing) simp_all
  have short: "v < n" if "v < m" for v
    using that um le pw by (simp add: word_less_nat_alt)
  have long: "sat_add (sat_sub (push_bit 1 v) m) b < n \<and> \<not> sat_add (sat_sub (push_bit 1 v) m) b < m"
    if v: "unat v < 2 ^ (w - 1)" "\<not> v < m" and b: "b \<in> {0, 1}" for v b :: u32
  proof -
    have d: "unat (push_bit 1 v) = 2 * unat v"
    proof -
      have "unat (2 * v) = 2 * unat v"
        using v small by (subst unat_mult_lem [THEN iffD1]) simp_all
      then show ?thesis by (simp add: push_bit_Suc mult.commute)
    qed
    have ub: "unat b \<le> 1" using b by auto
    have "unat (sat_add (sat_sub (push_bit 1 v) m) b) = 2 * unat v - unat m + unat b"
      using v small ub by (simp only: unat_sat_add unat_sat_sub d) simp
    moreover have "unat m \<le> unat v" using v(2) by (simp add: word_less_nat_alt not_less)
    ultimately show ?thesis
      using v(1) ub um pw a(5) unfolding word_less_nat_alt by linarith
  qed
  have "read_ns n = (\<lambda>r. and_then (read_bits (w - 1) r) (\<lambda>(v, r).
      (\<lambda>v r. if v < m then Inr (v, r)
      else and_then (read_bit r) (\<lambda>(b, r). Inr (sat_add (sat_sub (push_bit 1 v) m) b, r))) v r))"
    using False unfolding read_ns_def [abs_def] Let_def w_def [symmetric] a(4) by simp
  then show ?thesis
  proof (simp only:, intro accepts_bind [OF accepts_field] accepts_if)
    fix v k assume "k = w - 1 \<and> unat v < 2 ^ (w - 1)" "v < m"
    then show "accepts pending (\<lambda>r. Inr (v, r)) (\<lambda>y j. y < n \<and> k + j = length (ns_bits n y))"
      by (intro accepts_ret) (simp add: len short)
  next
    fix v k assume "k = w - 1 \<and> unat v < 2 ^ (w - 1)" "\<not> v < m"
    then show "accepts pending (\<lambda>r. and_then (read_bit r) (\<lambda>(b, r).
        Inr (sat_add (sat_sub (push_bit 1 v) m) b, r))) (\<lambda>y j. y < n \<and> k + j = length (ns_bits n y))"
      using long [of v] a(1) by (intro accepts_map [OF accepts_flag]) (simp add: len)
  qed
qed

lemma accepts_ns_u8:
  assumes "1 \<le> unat n" and "unat n \<le> 256"
  shows "accepts pending (read_ns_u8 n) (\<lambda>v k. unat v < unat n \<and> k = length (ns_bits n (ucast v)))"
proof -
  have "min n 256 = n" using assms(2) by (simp add: min_absorb1 word_le_nat_alt)
  moreover have "ucast (ucast v :: u8) = v" if "v < n" for v :: u32
    using that assms(2) take_bit_fits [of v 8]
    by (simp add: word_unat_eq_iff word_less_nat_alt unsigned_ucast_eq take_bit_nat_eq_self)
  moreover have "unat (ucast v :: u8) < unat n" if "v < n" for v :: u32
    using that assms(2) by (simp add: word_less_nat_alt unsigned_ucast_eq take_bit_nat_eq_self)
  ultimately show ?thesis
    using assms unfolding read_ns_u8_def [abs_def]
    by (auto intro!: accepts_map [OF accepts_ns])
qed

subsection \<open>The passes over the templates\<close>

text \<open>The layer walk: bare templates, in layer order, starting in the layer given.\<close>

definition layer_walk :: "u8 \<Rightarrow> u8 \<Rightarrow> FrameDependencyTemplate list \<Rightarrow> bool" where
  "layer_walk sid tid ts \<longleftrightarrow> ts \<noteq> [] \<and> spatial_id (hd ts) = sid \<and> temporal_id (hd ts) = tid \<and>
     successively layer_follows ts \<and>
     list_all (\<lambda>t. bare t = t \<and> unat (spatial_id t) < 4 \<and> unat (temporal_id t) < 8) ts"

lemma layer_walk_single: "bare t = t \<Longrightarrow> unat (spatial_id t) < 4 \<Longrightarrow> unat (temporal_id t) < 8 \<Longrightarrow>
    layer_walk (spatial_id t) (temporal_id t) [t]"
  by (simp add: layer_walk_def)

lemma layer_walk_Cons:
  assumes "layer_walk sid tid ts" "bare t = t" "unat (spatial_id t) < 4" "unat (temporal_id t) < 8"
    and "sid = spatial_id t \<and> (tid = temporal_id t \<or> unat tid = unat (temporal_id t) + 1)
       \<or> unat sid = unat (spatial_id t) + 1 \<and> tid = 0"
  shows "layer_walk (spatial_id t) (temporal_id t) (t # ts)"
  using assms by (cases ts) (auto simp: layer_walk_def layer_follows_def)

lemma accepts_layers:
  assumes "unat sid < 4" and "unat tid < 8"
  shows "accepts pending (read_template_layers_loop acc sid tid)
     (\<lambda>ts k. \<exists>new. ts = acc @ new \<and> layer_walk sid tid new \<and> length ts \<le> 64 \<and> k = 2 * length new)"
  using assms
proof (induction "64 - length acc" arbitrary: acc sid tid)
  case 0
  have "read_template_layers_loop acc sid tid = (\<lambda>r. Inl TooManyTemplates)"
    using 0 by (intro ext) (subst read_template_layers_loop.simps, simp add: try_push_def)
  then show ?case by (simp add: accepts_fail)
next
  case (Suc n)
  define t where "t = \<lparr>spatial_id = sid, temporal_id = tid, dtis = [], frame_diffs = [], chain_diffs = []\<rparr>"
  have t: "spatial_id t = sid" "temporal_id t = tid" "bare t = t" by (simp_all add: t_def bare_def)
  let ?Q = "\<lambda>sid tid acc ts k. \<exists>new. ts = acc @ new \<and> layer_walk sid tid new \<and> length ts \<le> 64 \<and> k = 2 * length new"
  have len: "length acc < 64" and n: "n = 64 - length (acc @ [t])" using Suc.hyps(2) by simp_all
  have IH: "accepts pending (read_template_layers_loop (acc @ [t]) s2 t2) (\<lambda>ts k. ?Q sid tid acc ts (2 + k))"
    if "unat s2 < 4" "unat t2 < 8"
      and "s2 = sid \<and> (t2 = tid \<or> unat t2 = unat tid + 1) \<or> unat s2 = unat sid + 1 \<and> t2 = 0" for s2 t2
  proof (rule accepts_weaken [OF Suc.hyps(1) [OF n that(1,2)]])
    fix ts k assume "?Q s2 t2 (acc @ [t]) ts k"
    then obtain new where new: "ts = (acc @ [t]) @ new" "layer_walk s2 t2 new" "length ts \<le> 64" "k = 2 * length new"
      by blast
    have "layer_walk sid tid (t # new)"
      using layer_walk_Cons [OF new(2) t(3)] t Suc.prems that(3) by simp
    with new show "?Q sid tid acc ts (2 + k)" by (intro exI [of _ "t # new"]) simp
  qed
  have ret: "accepts pending (\<lambda>r. Inr (acc @ [t], r)) (\<lambda>ts k. ?Q sid tid acc ts (2 + k))"
    using layer_walk_single [OF t(3)] t Suc.prems len by (intro accepts_ret exI [of _ "[t]"]) simp
  have sa: "unat (sat_add v 1) = unat v + 1" if "unat v < 8" for v :: u8
    using that by (simp add: unat_sat_add)
  have "accepts pending (layers_next (acc @ [t]) sid tid idc) (\<lambda>ts k. ?Q sid tid acc ts (2 + k))" for idc
    unfolding layers_next_def [abs_def]
    using Suc.prems sa [of tid] sa [of sid]
    by (intro accepts_if accepts_fail ret IH) simp_all
  then have "accepts pending (\<lambda>r. and_then (read_err (read_bits 2 r)) (\<lambda>(idc, r).
        layers_next (acc @ [t]) sid tid idc r)) (\<lambda>ts k. ?Q sid tid acc ts k)"
    by (intro accepts_bind [OF accepts_err [OF accepts_field]]) simp
  then show ?case
    using layers_unfold [OF len, of t] by (simp add: t)
qed

lemma accepts_dti: "accepts pending read_dti (\<lambda>d k. True \<and> length (word_bits 2 (dti_bits d)) \<le> k)"
  unfolding read_dti_def [abs_def] by (intro accepts_map [OF accepts_err [OF accepts_field]]) simp

lemma length_dtis_bits: "length (dtis_bits ds) = sum_list (map (\<lambda>d. length (word_bits 2 (dti_bits d))) ds)"
  by (simp add: dtis_bits_def length_concat comp_def)

lemma accepts_dtis: "accepts pending (repeat_n n read_dti) (\<lambda>ds k. length ds = n \<and> length (dtis_bits ds) \<le> k)"
  by (rule accepts_weaken [OF accepts_repeat_n [OF accepts_dti]]) (simp add: length_dtis_bits)

lemma sum_list_length_bits: "sum_list (map (\<lambda>x. length (f x)) xs) = length (concat (map f xs))"
  by (simp add: length_concat comp_def)

lemma accepts_pass:
  assumes "\<And>t. t \<in> set (templates s) \<Longrightarrow> accepts pending (p t) (\<lambda>u k. P t u \<and> c u \<le> k)"
  shows "accepts pending (\<lambda>r. and_then (each_mut p (templates s) r) (\<lambda>(ts, r). Inr (s\<lparr>templates := ts\<rparr>, r)))
     (\<lambda>s' k. \<exists>ts. s' = s\<lparr>templates := ts\<rparr> \<and> list_all2 P (templates s) ts \<and> sum_list (map c ts) \<le> k)"
  by (rule accepts_map [OF accepts_each_mut [OF assms]]) auto

lemma accepts_template_dtis:
  assumes "\<And>t. t \<in> set (templates s) \<Longrightarrow> dtis t = []"
  shows "accepts pending (read_template_dtis s) (\<lambda>s' k. \<exists>ts. s' = s\<lparr>templates := ts\<rparr> \<and>
     list_all2 (\<lambda>t u. u = t\<lparr>dtis := dtis u\<rparr> \<and> length (dtis u) = unat (decode_target_count s)) (templates s) ts \<and>
     sum_list (map (\<lambda>u. length (dtis_bits (dtis u))) ts) \<le> k)"
  unfolding read_template_dtis_def [abs_def] Let_def
  by (intro accepts_pass accepts_map [OF accepts_dtis]) (simp add: assms)

lemma accepts_fdiffs_loop:
  assumes "length acc \<le> 8"
  shows "accepts pending (read_fdiffs_loop acc) (\<lambda>fds k. \<exists>new. fds = acc @ new \<and> length fds \<le> 8 \<and>
     list_all (\<lambda>d. 1 \<le> unat d \<and> unat d \<le> 16) new \<and> length (fdiffs_bits new) \<le> k)"
  using assms
proof (induction "8 - length acc" arbitrary: acc rule: less_induct)
  case less
  let ?Q = "\<lambda>acc fds k. \<exists>new. fds = acc @ new \<and> length fds \<le> 8 \<and>
     list_all (\<lambda>d. 1 \<le> unat d \<and> unat d \<le> 16) new \<and> length (fdiffs_bits new) \<le> k"
  have ret: "accepts pending (\<lambda>r. Inr (acc, r)) (\<lambda>fds k. ?Q acc fds (1 + k))"
    using less.prems by (intro accepts_ret) (simp add: fdiffs_bits_def)
  have push: "accepts pending (\<lambda>r. and_then (try_push MAX_FRAME_DIFFS TooManyFrameDiffs acc (sat_add v 1)) (\<lambda>fds.
       read_fdiffs_loop fds r)) (\<lambda>fds k. ?Q acc fds (1 + (4 + k)))" if v: "unat v < 2 ^ 4" for v
  proof (cases "length acc < 8")
    case True
    let ?d = "sat_add v 1"
    have d: "unat ?d = unat v + 1" using v by (simp add: unat_sat_add)
    have "accepts pending (read_fdiffs_loop (acc @ [?d])) (?Q (acc @ [?d]))"
      using True less.hyps [of "acc @ [?d]"] by simp
    then have "accepts pending (read_fdiffs_loop (acc @ [?d])) (\<lambda>fds k. ?Q acc fds (1 + (4 + k)))"
    proof (rule accepts_weaken)
      fix fds k assume "?Q (acc @ [?d]) fds k"
      then obtain new where "fds = (acc @ [?d]) @ new" "length fds \<le> 8"
        "list_all (\<lambda>d. 1 \<le> unat d \<and> unat d \<le> 16) new" "length (fdiffs_bits new) \<le> k" by blast
      with d v show "?Q acc fds (1 + (4 + k))"
        by (intro exI [of _ "?d # new"]) (simp add: fdiffs_bits_def)
    qed
    with True show ?thesis by (simp add: try_push_def)
  qed (simp add: try_push_def accepts_fail)
  show ?case
    unfolding read_fdiffs_loop.simps [of acc, abs_def]
    apply (rule accepts_bind [OF accepts_err [OF accepts_flag]])
    apply (rule accepts_if)
     apply (rule accepts_bind [OF accepts_err [OF accepts_u16]])
      apply simp
    using push ret by auto
qed

lemma accepts_template_fdiffs:
  assumes "\<And>t. t \<in> set (templates s) \<Longrightarrow> frame_diffs t = []"
  shows "accepts pending (read_template_fdiffs s) (\<lambda>s' k. \<exists>ts. s' = s\<lparr>templates := ts\<rparr> \<and>
     list_all2 (\<lambda>t u. u = t\<lparr>frame_diffs := frame_diffs u\<rparr> \<and> length (frame_diffs u) \<le> 8 \<and>
       list_all (\<lambda>d. 1 \<le> unat d \<and> unat d \<le> 16) (frame_diffs u)) (templates s) ts \<and>
     sum_list (map (\<lambda>u. length (fdiffs_bits (frame_diffs u))) ts) \<le> k)"
  unfolding read_template_fdiffs_def [abs_def]
  by (intro accepts_pass accepts_map [OF accepts_fdiffs_loop]) (auto simp: assms)

lemma accepts_chain:
  "n \<le> 8 \<Longrightarrow> accepts pending (repeat_n m (\<lambda>r. read_err (read_bits_u8 n r)))
     (\<lambda>ds k. length ds = m \<and> list_all (\<lambda>d. unat d < 2 ^ n) ds \<and> length (chain_bits n ds) \<le> k)"
proof -
  assume n: "n \<le> 8"
  have "accepts pending (\<lambda>r. read_err (read_bits_u8 n r))
      (\<lambda>d k. unat d < 2 ^ n \<and> length (word_bits n (ucast d :: u32)) \<le> k)"
    by (rule accepts_weaken [OF accepts_err [OF accepts_u8 [OF n]]]) simp
  from accepts_repeat_n [OF this] show ?thesis
    by (rule accepts_weaken) (simp add: chain_bits_def length_concat comp_def)
qed

definition chains_read :: "TemplateDependencyStructure \<Rightarrow> TemplateDependencyStructure \<Rightarrow> bool" where
  "chains_read s s' \<longleftrightarrow>
     s' = s\<lparr>chain_count := chain_count s', decode_target_protected_by := decode_target_protected_by s',
            templates := templates s'\<rparr> \<and>
     unat (chain_count s') \<le> unat (decode_target_count s) \<and>
     (if chain_count s' = 0 then decode_target_protected_by s' = []
      else length (decode_target_protected_by s') = unat (decode_target_count s) \<and>
           list_all (\<lambda>p. p < chain_count s') (decode_target_protected_by s')) \<and>
     list_all2 (\<lambda>t u. u = t\<lparr>chain_diffs := chain_diffs u\<rparr> \<and> length (chain_diffs u) = unat (chain_count s') \<and>
        list_all (\<lambda>d. unat d < 16) (chain_diffs u)) (templates s) (templates s')"

lemma accepts_template_chains:
  assumes dt: "1 \<le> unat (decode_target_count s)" "unat (decode_target_count s) \<le> 32"
    and e: "decode_target_protected_by s = []" "\<And>t. t \<in> set (templates s) \<Longrightarrow> chain_diffs t = []"
  shows "accepts pending (read_template_chains s) (\<lambda>s' k. chains_read s s' \<and> length (chains_bits s') \<le> k)"
proof -
  let ?n = "ucast (decode_target_count s) + 1 :: u32"
  let ?N = "\<lambda>cc :: u8. length (ns_bits ?n (ucast cc))"
  have c: "sat_add (ucast (decode_target_count s)) 1 = ?n"
    using dt by (simp add: sat_add_def plus_less_left_iff)
  have u: "unat ?n = unat (decode_target_count s) + 1"
    using dt by (simp add: unat_add_lem [THEN iffD1])
  have zero: "accepts pending (\<lambda>r. Inr (s\<lparr>chain_count := 0\<rparr>, r))
      (\<lambda>s' j. chains_read s s' \<and> length (chains_bits s') \<le> ?N 0 + j)"
  proof (rule accepts_ret)
    have "t = t\<lparr>chain_diffs := []\<rparr>" if "t \<in> set (templates s)" for t
      using e(2) [OF that] by (cases t) simp
    then have "chains_read s (s\<lparr>chain_count := 0\<rparr>)"
      using e by (auto simp: chains_read_def list_all2_same)
    then show "chains_read s (s\<lparr>chain_count := 0\<rparr>) \<and> length (chains_bits (s\<lparr>chain_count := 0\<rparr>)) \<le> ?N 0 + 0"
      by (simp add: chains_bits_def)
  qed
  have prot: "accepts pending (repeat_n (unat (decode_target_count s)) (\<lambda>r. read_err (read_ns_u8 (ucast cc) r)))
      (\<lambda>ps k. length ps = unat (decode_target_count s) \<and> list_all (\<lambda>p. p < cc) ps \<and>
         length (concat (map (\<lambda>p. ns_bits (ucast cc) (ucast p)) ps)) \<le> k)"
    if cc: "cc \<noteq> 0" "unat cc \<le> 32" for cc :: u8
  proof -
    have "1 \<le> unat cc" using cc(1) by (simp add: Suc_le_eq unat_gt_0)
    then have "accepts pending (\<lambda>r. read_err (read_ns_u8 (ucast cc) r))
       (\<lambda>p k. p < cc \<and> length (ns_bits (ucast cc) (ucast p)) \<le> k)"
      using cc by (intro accepts_weaken [OF accepts_err [OF accepts_ns_u8]]) (auto simp: word_less_nat_alt)
    from accepts_repeat_n [OF this] show ?thesis
      by (rule accepts_weaken) (simp add: length_concat comp_def)
  qed
  let ?p = "\<lambda>cc t r. and_then (repeat_n (unat cc) (\<lambda>r. read_err (read_bits_u8 4 r)) r)
                          (\<lambda>(ds, r). Inr (t\<lparr>chain_diffs := chain_diffs t @ ds\<rparr>, r))"
  have diffs: "accepts pending (\<lambda>r. and_then (each_mut (?p cc) (templates s) r)
        (\<lambda>(ts, r). Inr (s\<lparr>chain_count := cc, decode_target_protected_by := ps, templates := ts\<rparr>, r)))
      (\<lambda>s' j. chains_read s s' \<and> length (chains_bits s') \<le> ?N cc + (kp + j))"
    if cc: "cc \<noteq> 0" "unat cc \<le> unat (decode_target_count s)"
      and ps: "length ps = unat (decode_target_count s)" "list_all (\<lambda>p. p < cc) ps"
        "length (concat (map (\<lambda>p. ns_bits (ucast cc) (ucast p)) ps)) \<le> kp" for cc ps kp
  proof -
    let ?P = "\<lambda>t u. u = t\<lparr>chain_diffs := chain_diffs u\<rparr> \<and> length (chain_diffs u) = unat cc \<and>
        list_all (\<lambda>d. unat d < 16) (chain_diffs u)"
    have "accepts pending (?p cc t) (\<lambda>u k. ?P t u \<and> length (chain_bits 4 (chain_diffs u)) \<le> k)"
      if "t \<in> set (templates s)" for t
      using e(2) [OF that] by (intro accepts_map [OF accepts_chain]) simp_all
    note em = accepts_each_mut [OF this, of "templates s"]
    show ?thesis
    proof (rule accepts_map [OF em])
      fix ts k assume "list_all2 ?P (templates s) ts \<and>
        sum_list (map (\<lambda>u. length (chain_bits 4 (chain_diffs u))) ts) \<le> k"
      then show "chains_read s (s\<lparr>chain_count := cc, decode_target_protected_by := ps, templates := ts\<rparr>) \<and>
         length (chains_bits (s\<lparr>chain_count := cc, decode_target_protected_by := ps, templates := ts\<rparr>)) \<le> ?N cc + (kp + k)"
        using cc ps by (simp add: chains_read_def chains_bits_def length_concat comp_def)
    qed simp
  qed
  let ?q = "\<lambda>cc r. if cc = 0 then Inr (s\<lparr>chain_count := 0\<rparr>, r)
      else and_then (repeat_n (unat (decode_target_count s)) (\<lambda>r. read_err (read_ns_u8 (ucast cc) r)) r) (\<lambda>(ps, r).
         and_then (each_mut (?p cc) (templates s) r)
        (\<lambda>(ts, r). Inr (s\<lparr>chain_count := cc, decode_target_protected_by := ps, templates := ts\<rparr>, r)))"
  have eq: "read_template_chains s = (\<lambda>r. and_then (read_err (read_ns_u8 ?n r)) (\<lambda>(cc, r). ?q cc r))"
    using e(1) by (intro ext) (simp add: read_template_chains_def c Let_def cong: if_cong)
  show ?thesis
    unfolding eq
  proof (rule accepts_bind [OF accepts_err [OF accepts_ns_u8]])
    fix cc :: u8 and k assume cc: "unat cc < unat ?n \<and> k = ?N cc"
    show "accepts pending (?q cc) (\<lambda>s' j. chains_read s s' \<and> length (chains_bits s') \<le> k + j)"
    proof (rule accepts_if)
      assume "cc = 0" then show "accepts pending (\<lambda>r. Inr (s\<lparr>chain_count := 0\<rparr>, r))
         (\<lambda>s' j. chains_read s s' \<and> length (chains_bits s') \<le> k + j)" using zero cc by simp
    next
      assume nz: "cc \<noteq> 0"
      show "accepts pending (\<lambda>r. and_then (repeat_n (unat (decode_target_count s)) (\<lambda>r. read_err (read_ns_u8 (ucast cc) r)) r) (\<lambda>(ps, r).
         and_then (each_mut (?p cc) (templates s) r)
        (\<lambda>(ts, r). Inr (s\<lparr>chain_count := cc, decode_target_protected_by := ps, templates := ts\<rparr>, r))))
         (\<lambda>s' j. chains_read s s' \<and> length (chains_bits s') \<le> k + j)"
        by (rule accepts_bind [OF prot [OF nz]]) (use cc u dt nz diffs [of cc] in auto)
    qed
  qed (use u dt in simp_all)
qed

lemma accepts_dimension: "accepts pending read_dimension (\<lambda>v k. v \<noteq> 0 \<and> k = 16)"
proof -
  have "(if unat (sat_add v 1) < 2 ^ 16 then ucast (sat_add v 1) else - 1 :: u16) \<noteq> 0"
    if "unat v < 2 ^ 16" for v :: u32
  proof (cases "unat v + 1 < 2 ^ 16")
    case True
    then have "unat (sat_add v 1) = unat v + 1" by (simp add: unat_sat_add)
    with True have "unat (ucast (sat_add v 1) :: u16) = unat v + 1"
      by (simp add: unsigned_ucast_eq take_bit_nat_eq_self)
    with True \<open>unat (sat_add v 1) = unat v + 1\<close> show ?thesis
      by (metis Suc_eq_plus1 nat.distinct(1) unat_0)
  next
    case False
    then have "\<not> unat (sat_add v 1) < 2 ^ 16" using that by (simp add: unat_sat_add)
    then show ?thesis by simp
  qed
  then show ?thesis
    unfolding read_dimension_def [abs_def] Let_def
    by (intro accepts_map [OF accepts_err [OF accepts_field]]) simp
qed

lemma accepts_resolutions:
  "accepts pending (read_resolutions s) (\<lambda>s' k. \<exists>rs. s' = s\<lparr>resolutions := rs\<rparr> \<and>
     length rs = spatial_layer_count s \<and> list_all (\<lambda>x. res_width x \<noteq> 0 \<and> res_height x \<noteq> 0) rs \<and>
     length (concat (map resolution_bits rs)) \<le> k)"
proof -
  have "accepts pending (\<lambda>r. and_then (read_dimension r) (\<lambda>(w, r). and_then (read_dimension r) (\<lambda>(h, r).
         Inr (\<lparr>res_width = w, res_height = h\<rparr>, r))))
      (\<lambda>x k. (res_width x \<noteq> 0 \<and> res_height x \<noteq> 0) \<and> length (resolution_bits x) \<le> k)"
    by (intro accepts_bind [OF accepts_dimension] accepts_map [OF accepts_dimension])
      (simp add: resolution_bits_def)
  from accepts_repeat_n [OF this]
  show ?thesis
    unfolding read_resolutions_def [abs_def] Let_def
    by (intro accepts_if accepts_fail) (auto intro!: accepts_map simp: length_concat comp_def)
qed

lemma layer_bits_length: "ts \<noteq> [] \<Longrightarrow> length (layer_bits ts) = 2 * length ts"
  by (induction ts rule: layer_bits.induct) simp_all

lemma layer_follows_layers:
  "spatial_id p' = spatial_id p \<Longrightarrow> temporal_id p' = temporal_id p \<Longrightarrow> spatial_id n' = spatial_id n \<Longrightarrow>
   temporal_id n' = temporal_id n \<Longrightarrow> layer_follows p' n' \<longleftrightarrow> layer_follows p n"
  by (simp add: layer_follows_def)

abbreviation same_layer :: "FrameDependencyTemplate \<Rightarrow> FrameDependencyTemplate \<Rightarrow> bool" where
  "same_layer t u \<equiv> spatial_id u = spatial_id t \<and> temporal_id u = temporal_id t"

lemma successively_same_layer:
  "list_all2 same_layer ts us \<Longrightarrow> successively layer_follows ts \<Longrightarrow> successively layer_follows us"
proof (induction ts arbitrary: us rule: induct_list012)
  case (3 x y zs)
  then obtain x' y' zs' where us: "us = x' # y' # zs'" by (auto simp: list_all2_Cons1)
  with 3 have "layer_follows x' y' \<longleftrightarrow> layer_follows x y" by (intro layer_follows_layers) auto
  with 3 us show ?case by auto
qed (auto simp: list_all2_Cons1)

lemma layer_bits_same_layer: "list_all2 same_layer ts us \<Longrightarrow> layer_bits us = layer_bits ts"
proof (induction ts arbitrary: us rule: induct_list012)
  case (3 x y zs)
  then obtain x' y' zs' where us: "us = x' # y' # zs'" by (auto simp: list_all2_Cons1)
  with 3 have "layer_bits (y' # zs') = layer_bits (y # zs)" by simp
  with 3 us show ?case by simp
qed (auto simp: list_all2_Cons1)

lemma layer_walk_wf:
  assumes "layer_walk 0 0 ts" and "list_all2 (\<lambda>t u. same_layer t u \<and> P u) ts us"
  shows "us \<noteq> []" "spatial_id (hd us) = 0" "temporal_id (hd us) = 0" "successively layer_follows us"
    "length us = length ts" "length (layer_bits us) = 2 * length ts"
    "\<And>u. u \<in> set us \<Longrightarrow> unat (spatial_id u) < 4 \<and> unat (temporal_id u) < 8 \<and> P u"
proof -
  have sl: "list_all2 same_layer ts us" using assms(2) by (rule list_all2_mono) simp
  show "us \<noteq> []" "spatial_id (hd us) = 0" "temporal_id (hd us) = 0"
    using assms by (cases ts; cases us; auto simp: layer_walk_def)+
  show "length us = length ts" using sl by (simp add: list_all2_lengthD)
  show "successively layer_follows us"
    using successively_same_layer [OF sl] assms(1) by (simp add: layer_walk_def)
  show "length (layer_bits us) = 2 * length ts"
    using layer_bits_same_layer [OF sl] assms(1) by (simp add: layer_bits_length layer_walk_def)
  fix u assume "u \<in> set us"
  then obtain i where i: "i < length us" "us ! i = u" by (auto simp: in_set_conv_nth)
  with sl have "i < length ts" by (simp add: list_all2_lengthD)
  with assms(1) have "unat (spatial_id (ts ! i)) < 4 \<and> unat (temporal_id (ts ! i)) < 8"
    by (simp add: layer_walk_def list_all_length)
  with assms(2) i \<open>i < length ts\<close> show "unat (spatial_id u) < 4 \<and> unat (temporal_id u) < 8 \<and> P u"
    using list_all2_nthD [OF assms(2), of i] by auto
qed

subsection \<open>Structures\<close>

lemma template_upd:
  "u = t\<lparr>dtis := ds\<rparr> \<Longrightarrow> same_layer t u \<and> frame_diffs u = frame_diffs t \<and> chain_diffs u = chain_diffs t"
  "u = t\<lparr>frame_diffs := fs\<rparr> \<Longrightarrow> same_layer t u \<and> dtis u = dtis t \<and> chain_diffs u = chain_diffs t"
  "u = t\<lparr>chain_diffs := cs\<rparr> \<Longrightarrow> same_layer t u \<and> dtis u = dtis t \<and> frame_diffs u = frame_diffs t"
  by simp_all

text \<open>The three passes after the layer walk, seen together.\<close>

lemma passes_combine:
  fixes dt cc :: nat
  assumes 2: "list_all2 (\<lambda>t u. u = t\<lparr>dtis := dtis u\<rparr> \<and> length (dtis u) = dt) ts1 ts2"
    and 3: "list_all2 (\<lambda>t u. u = t\<lparr>frame_diffs := frame_diffs u\<rparr> \<and> length (frame_diffs u) \<le> 8 \<and>
       list_all (\<lambda>d. 1 \<le> unat d \<and> unat d \<le> 16) (frame_diffs u)) ts2 ts3"
    and 4: "list_all2 (\<lambda>t u. u = t\<lparr>chain_diffs := chain_diffs u\<rparr> \<and> length (chain_diffs u) = cc \<and>
        list_all (\<lambda>d. unat d < 16) (chain_diffs u)) ts3 ts4"
  shows "list_all2 (\<lambda>t u. same_layer t u \<and> (length (dtis u) = dt \<and> length (frame_diffs u) \<le> 8 \<and>
       list_all (\<lambda>d. 1 \<le> unat d \<and> unat d \<le> 16) (frame_diffs u) \<and> length (chain_diffs u) = cc \<and>
       list_all (\<lambda>d. unat d < 16) (chain_diffs u))) ts1 ts4"
    and "map dtis ts4 = map dtis ts2" and "map frame_diffs ts4 = map frame_diffs ts3"
proof -
  have len: "length ts2 = length ts1" "length ts3 = length ts1" "length ts4 = length ts1"
    using list_all2_lengthD [OF 2] list_all2_lengthD [OF 3] list_all2_lengthD [OF 4] by simp_all
  have i2: "same_layer (ts1 ! i) (ts2 ! i)" "length (dtis (ts2 ! i)) = dt" if "i < length ts1" for i
    using list_all2_nthD [OF 2 that] template_upd(1) by blast+
  have i3: "same_layer (ts2 ! i) (ts3 ! i)" "dtis (ts3 ! i) = dtis (ts2 ! i)"
      "length (frame_diffs (ts3 ! i)) \<le> 8"
      "list_all (\<lambda>d. 1 \<le> unat d \<and> unat d \<le> 16) (frame_diffs (ts3 ! i))" if "i < length ts1" for i
    using list_all2_nthD [OF 3, unfolded len, OF that] template_upd(2) by blast+
  have i4: "same_layer (ts3 ! i) (ts4 ! i)" "dtis (ts4 ! i) = dtis (ts3 ! i)"
      "frame_diffs (ts4 ! i) = frame_diffs (ts3 ! i)" "length (chain_diffs (ts4 ! i)) = cc"
      "list_all (\<lambda>d. unat d < 16) (chain_diffs (ts4 ! i))" if "i < length ts1" for i
    using list_all2_nthD [OF 4, unfolded len, OF that] template_upd(3) by blast+
  show "map dtis ts4 = map dtis ts2" "map frame_diffs ts4 = map frame_diffs ts3"
    using len i3 i4 by (auto intro!: nth_equalityI)
  show "list_all2 (\<lambda>t u. same_layer t u \<and> (length (dtis u) = dt \<and> length (frame_diffs u) \<le> 8 \<and>
       list_all (\<lambda>d. 1 \<le> unat d \<and> unat d \<le> 16) (frame_diffs u) \<and> length (chain_diffs u) = cc \<and>
       list_all (\<lambda>d. unat d < 16) (chain_diffs u))) ts1 ts4"
    unfolding list_all2_conv_all_nth using len i2 i3 i4 by simp
qed

text \<open>The structure before its resolutions are read.\<close>

definition structure_read :: "TemplateDependencyStructure \<Rightarrow> nat \<Rightarrow> bool" where
  "structure_read s k \<longleftrightarrow> structure_wf s \<and> resolutions s = [] \<and> length (structure_bits s) \<le> k + 1"

lemma structure_upd:
  "s = b\<lparr>chain_count := c, decode_target_protected_by := p, templates := t\<rparr> \<Longrightarrow>
     template_id_offset s = template_id_offset b \<and> decode_target_count s = decode_target_count b \<and>
     resolutions s = resolutions b"
  by simp

lemma structure_readI:
  assumes off: "unat off < 64" and dtc: "1 \<le> unat dtc" "unat dtc \<le> 32"
    and walk: "layer_walk 0 0 ts1" "length ts1 \<le> 64" "k1 = 2 * length ts1"
    and s1: "s1 = \<lparr>template_id_offset = off, decode_target_count = dtc, chain_count = 0,
                decode_target_protected_by = [], templates = ts1, resolutions = []\<rparr>"
    and 2: "list_all2 (\<lambda>t u. u = t\<lparr>dtis := dtis u\<rparr> \<and> length (dtis u) = unat dtc) ts1 ts2"
      "sum_list (map (\<lambda>u. length (dtis_bits (dtis u))) ts2) \<le> k2"
    and 3: "list_all2 (\<lambda>t u. u = t\<lparr>frame_diffs := frame_diffs u\<rparr> \<and> length (frame_diffs u) \<le> 8 \<and>
       list_all (\<lambda>d. 1 \<le> unat d \<and> unat d \<le> 16) (frame_diffs u)) ts2 ts3"
      "sum_list (map (\<lambda>u. length (fdiffs_bits (frame_diffs u))) ts3) \<le> k3"
    and 4: "chains_read (s1\<lparr>templates := ts3\<rparr>) s" "length (chains_bits s) \<le> k4"
  shows "structure_read s (11 + k1 + k2 + k3 + k4)"
proof -
  let ?ts = "templates s"
  have s: "template_id_offset s = off" "decode_target_count s = dtc" "resolutions s = []"
    using structure_upd [OF conjunct1 [OF 4(1) [unfolded chains_read_def]]] s1 by simp_all
  have cc: "unat (chain_count s) \<le> unat dtc"
    and pb: "if chain_count s = 0 then decode_target_protected_by s = []
      else length (decode_target_protected_by s) = unat dtc \<and>
           list_all (\<lambda>p. p < chain_count s) (decode_target_protected_by s)"
    and l4: "list_all2 (\<lambda>t u. u = t\<lparr>chain_diffs := chain_diffs u\<rparr> \<and> length (chain_diffs u) = unat (chain_count s) \<and>
        list_all (\<lambda>d. unat d < 16) (chain_diffs u)) ts3 ?ts"
    using conjunct2 [OF 4(1) [unfolded chains_read_def]] s1 by simp_all
  note pc = passes_combine [OF 2(1) 3(1) l4]
  note lw = layer_walk_wf [OF walk(1) pc(1)]
  have "structure_wf s"
    unfolding structure_wf_def s
    using off dtc cc pb lw walk(2) by (auto simp: list_all_iff template_wf_def)
  moreover have "length (structure_bits s) \<le> (11 + k1 + k2 + k3 + k4) + 1"
  proof -
    have "concat (map (dtis_bits \<circ> dtis) ?ts) = concat (map (dtis_bits \<circ> dtis) ts2)"
      using pc(2) by (metis map_map)
    moreover have "concat (map (fdiffs_bits \<circ> frame_diffs) ?ts) = concat (map (fdiffs_bits \<circ> frame_diffs) ts3)"
      using pc(3) by (metis map_map)
    ultimately show ?thesis
      using 2(2) 3(2) 4(2) lw(6) walk(3) s(3)
      by (simp add: structure_bits_def length_concat comp_def)
  qed
  ultimately show ?thesis using s by (simp add: structure_read_def)
qed

lemma accepts_structure_end:
  assumes "structure_read s k"
  shows "accepts pending (\<lambda>r. and_then (read_err (read_bit r)) (\<lambda>(b, r).
      if b \<noteq> 0 then read_resolutions s r else Inr (s, r)))
    (\<lambda>s' j. structure_wf s' \<and> length (structure_bits s') \<le> k + j)"
proof (rule accepts_bind [OF accepts_err [OF accepts_flag]], rule accepts_if)
  fix b :: u32 and j :: nat assume j: "j = 1 \<and> b \<in> {0, 1}"
  show "accepts pending (\<lambda>r. Inr (s, r)) (\<lambda>s' i. structure_wf s' \<and> length (structure_bits s') \<le> k + (j + i))"
    using assms j by (intro accepts_ret) (simp add: structure_read_def)
  show "accepts pending (read_resolutions s) (\<lambda>s' i. structure_wf s' \<and> length (structure_bits s') \<le> k + (j + i))"
  proof (rule accepts_weaken [OF accepts_resolutions], elim exE conjE)
    fix s' i rs assume rs: "s' = s\<lparr>resolutions := rs\<rparr>" "length rs = spatial_layer_count s"
      "list_all (\<lambda>x. res_width x \<noteq> 0 \<and> res_height x \<noteq> 0) rs"
      "length (concat (map resolution_bits rs)) \<le> i"
    have "spatial_layer_count s' = spatial_layer_count s" by (simp add: rs(1) spatial_layer_count_def)
    moreover have "chains_bits s' = chains_bits s" by (simp add: rs(1) chains_bits_def cong: if_cong)
    ultimately show "structure_wf s' \<and> length (structure_bits s') \<le> k + (j + i)"
      using assms rs j by (auto simp: structure_read_def structure_wf_def structure_bits_def)
  qed
qed

lemma accepts_structure:
  "accepts pending read_structure (\<lambda>s k. structure_wf s \<and> length (structure_bits s) \<le> k)"
  unfolding read_structure_def [abs_def]
proof (rule accepts_bind [OF accepts_err [OF accepts_u8]], simp,
    rule accepts_bind [OF accepts_err [OF accepts_u8]], simp, unfold Let_def)
  fix off dtc0 :: u8 and k0 k0' :: nat
  assume off: "k0 = 6 \<and> unat off < 2 ^ 6" and d0: "k0' = 5 \<and> unat dtc0 < 2 ^ 5"
  let ?dtc = "sat_add dtc0 1"
  let ?Q = "\<lambda>k s j. structure_wf s \<and> length (structure_bits s) \<le> k0 + (k0' + (k + j))"
  have dtc: "1 \<le> unat ?dtc" "unat ?dtc \<le> 32" using d0 by (simp_all add: unat_sat_add)
  let ?s0 = "\<lparr>template_id_offset = off, decode_target_count = ?dtc, chain_count = 0,
                decode_target_protected_by = [], templates = [], resolutions = []\<rparr>"
  have layers: "accepts pending (read_template_layers ?s0) (\<lambda>s k. \<exists>ts. s = ?s0\<lparr>templates := ts\<rparr> \<and>
      layer_walk 0 0 ts \<and> length ts \<le> 64 \<and> k = 2 * length ts)"
    unfolding read_template_layers_def [abs_def]
    by (rule accepts_map [OF accepts_layers]) auto
  show "accepts pending (\<lambda>r. and_then (read_template_layers ?s0 r) (\<lambda>(s, r).
          and_then (read_template_dtis s r) (\<lambda>(s, r).
          and_then (read_template_fdiffs s r) (\<lambda>(s, r).
          and_then (read_template_chains s r) (\<lambda>(s, r).
          and_then (read_err (read_bit r)) (\<lambda>(b, r).
            if b \<noteq> 0 then read_resolutions s r else Inr (s, r)))))))
     (\<lambda>s j. structure_wf s \<and> length (structure_bits s) \<le> k0 + (k0' + j))"
  proof (rule accepts_bind [OF layers], elim exE conjE)
    fix s1 k1 ts1 assume s1: "s1 = ?s0\<lparr>templates := ts1\<rparr>" and w: "layer_walk 0 0 ts1" "length ts1 \<le> 64" "k1 = 2 * length ts1"
    have bare: "dtis t = []" "frame_diffs t = []" "chain_diffs t = []" if "t \<in> set ts1" for t
    proof -
      have "bare t = t" using w(1) that by (auto simp: layer_walk_def list_all_iff)
      then show "dtis t = []" "frame_diffs t = []" "chain_diffs t = []"
        by (metis bare_def FrameDependencyTemplate.select_convs)+
    qed
    show "accepts pending (\<lambda>r. and_then (read_template_dtis s1 r) (\<lambda>(s, r).
          and_then (read_template_fdiffs s r) (\<lambda>(s, r).
          and_then (read_template_chains s r) (\<lambda>(s, r).
          and_then (read_err (read_bit r)) (\<lambda>(b, r).
            if b \<noteq> 0 then read_resolutions s r else Inr (s, r))))))
       (?Q k1)"
    proof (rule accepts_bind [OF accepts_template_dtis], use s1 bare in simp, elim exE conjE)
      fix s2 k2 ts2 assume s2: "s2 = s1\<lparr>templates := ts2\<rparr>" and l2: "list_all2 (\<lambda>t u. u = t\<lparr>dtis := dtis u\<rparr> \<and>
          length (dtis u) = unat (decode_target_count s1)) (templates s1) ts2"
        and c2: "sum_list (map (\<lambda>u. length (dtis_bits (dtis u))) ts2) \<le> k2"
      have b2: "frame_diffs u = [] \<and> chain_diffs u = []" if u: "u \<in> set ts2" for u
      proof -
        obtain t where "t \<in> set ts1" "u = t\<lparr>dtis := dtis u\<rparr>"
          using list_all2_right [OF l2 u] s1 by auto
        then show ?thesis using bare [of t] template_upd(1) by metis
      qed
      show "accepts pending (\<lambda>r. and_then (read_template_fdiffs s2 r) (\<lambda>(s, r).
          and_then (read_template_chains s r) (\<lambda>(s, r).
          and_then (read_err (read_bit r)) (\<lambda>(b, r).
            if b \<noteq> 0 then read_resolutions s r else Inr (s, r)))))
         (\<lambda>s j. ?Q k1 s (k2 + j))"
      proof (rule accepts_bind [OF accepts_template_fdiffs], use s2 b2 in simp, elim exE conjE)
        fix s3 k3 ts3 assume s3: "s3 = s2\<lparr>templates := ts3\<rparr>"
          and l3: "list_all2 (\<lambda>t u. u = t\<lparr>frame_diffs := frame_diffs u\<rparr> \<and> length (frame_diffs u) \<le> 8 \<and>
             list_all (\<lambda>d. 1 \<le> unat d \<and> unat d \<le> 16) (frame_diffs u)) (templates s2) ts3"
          and c3: "sum_list (map (\<lambda>u. length (fdiffs_bits (frame_diffs u))) ts3) \<le> k3"
        have b3: "chain_diffs u = []" if u: "u \<in> set ts3" for u
        proof -
          obtain t where "t \<in> set ts2" "u = t\<lparr>frame_diffs := frame_diffs u\<rparr>"
            using list_all2_right [OF l3 u] s2 by auto
          then show ?thesis using b2 [of t] template_upd(2) by metis
        qed
        show "accepts pending (\<lambda>r. and_then (read_template_chains s3 r) (\<lambda>(s, r).
          and_then (read_err (read_bit r)) (\<lambda>(b, r).
            if b \<noteq> 0 then read_resolutions s r else Inr (s, r))))
           (\<lambda>s j. ?Q k1 s (k2 + (k3 + j)))"
        proof (rule accepts_bind [OF accepts_template_chains])
          fix s4 k4 assume "chains_read s3 s4 \<and> length (chains_bits s4) \<le> k4"
          then have "structure_read s4 (11 + k1 + k2 + k3 + k4)"
            using off d0 dtc s1 s2 s3 w l2 c2 l3 c3
            by (intro structure_readI [of off ?dtc ts1 k1 "?s0\<lparr>templates := ts1\<rparr>" ts2 k2 ts3 k3 s4 k4]) simp_all
          from accepts_structure_end [OF this]
          show "accepts pending (\<lambda>r. and_then (read_err (read_bit r)) (\<lambda>(b, r).
            if b \<noteq> 0 then read_resolutions s4 r else Inr (s4, r))) (\<lambda>s j. ?Q k1 s (k2 + (k3 + (k4 + j))))"
            using off d0 by (simp add: add.assoc)
        qed (use s1 s2 s3 dtc b3 in simp_all)
      qed
    qed
  qed
qed

subsection \<open>Descriptors\<close>

lemma custom_fdiff_fits:
  assumes sz: "0 < sz" "unat (sz :: u32) < 2 ^ 2" and v: "unat (v :: u16) < 2 ^ (4 * unat sz)"
  shows "unat (sat_mul 4 sz) = 4 * unat sz" "4 * unat sz \<le> 16"
    "1 \<le> unat (sat_add v 1)" "unat (sat_add v 1) \<le> 4096"
    "length (custom_fdiff_bits (sat_add v 1)) \<le> 2 + 4 * unat sz"
proof -
  have "unat sz \<in> {1, 2, 3}" using sz by (auto simp: word_less_nat_alt)
  then consider "sz = 1" | "sz = 2" | "sz = 3" by (auto simp: word_unat_eq_iff)
  then have *: "unat (sat_mul 4 sz) = 4 * unat sz \<and> 4 * unat sz \<le> 16 \<and> 1 \<le> unat (sat_add v 1) \<and>
      unat (sat_add v 1) \<le> 4096 \<and> length (custom_fdiff_bits (sat_add v 1)) \<le> 2 + 4 * unat sz"
    using v by cases (simp_all add: sat_mul_def unat_sat_add custom_fdiff_bits_def custom_fdiff_size_def)
  then show "unat (sat_mul 4 sz) = 4 * unat sz" "4 * unat sz \<le> 16"
    "1 \<le> unat (sat_add v 1)" "unat (sat_add v 1) \<le> 4096"
    "length (custom_fdiff_bits (sat_add v 1)) \<le> 2 + 4 * unat sz" by blast+
qed

lemma accepts_custom_fdiffs:
  assumes "length acc \<le> 8"
  shows "accepts pending (\<lambda>r. and_then (read_err (read_bits 2 r)) (\<lambda>(sz, r). read_custom_fdiffs sz acc r))
     (\<lambda>fds k. \<exists>new. fds = acc @ new \<and> length fds \<le> 8 \<and>
        list_all (\<lambda>d. 1 \<le> unat d \<and> unat d \<le> 4096) new \<and> length (custom_fdiffs_bits new) \<le> k)"
  using assms
proof (induction "8 - length acc" arbitrary: acc rule: less_induct)
  case less
  let ?Q = "\<lambda>acc fds k. \<exists>new. fds = acc @ new \<and> length fds \<le> 8 \<and>
     list_all (\<lambda>d. 1 \<le> unat d \<and> unat d \<le> 4096) new \<and> length (custom_fdiffs_bits new) \<le> k"
  have push: "accepts pending (\<lambda>r. and_then (try_push MAX_FRAME_DIFFS TooManyFrameDiffs acc (sat_add v 1)) (\<lambda>fds.
        and_then (read_err (read_bits 2 r)) (\<lambda>(sz, r). read_custom_fdiffs sz fds r)))
      (\<lambda>fds k. ?Q acc fds (2 + (4 * unat sz + k)))"
    if sz: "0 < sz" "unat (sz :: u32) < 2 ^ 2" "unat v < 2 ^ (4 * unat sz)" for sz v
  proof (cases "length acc < 8")
    case True
    let ?d = "sat_add v 1"
    note f = custom_fdiff_fits [OF sz]
    have "accepts pending (\<lambda>r. and_then (read_err (read_bits 2 r)) (\<lambda>(sz, r). read_custom_fdiffs sz (acc @ [?d]) r))
        (?Q (acc @ [?d]))"
      using True less.hyps [of "acc @ [?d]"] by simp
    then have "accepts pending (\<lambda>r. and_then (read_err (read_bits 2 r)) (\<lambda>(sz, r). read_custom_fdiffs sz (acc @ [?d]) r))
        (\<lambda>fds k. ?Q acc fds (2 + (4 * unat sz + k)))"
    proof (rule accepts_weaken)
      fix fds k assume "?Q (acc @ [?d]) fds k"
      then obtain new where "fds = (acc @ [?d]) @ new" "length fds \<le> 8"
        "list_all (\<lambda>d. 1 \<le> unat d \<and> unat d \<le> 4096) new" "length (custom_fdiffs_bits new) \<le> k" by blast
      with f show "?Q acc fds (2 + (4 * unat sz + k))"
        by (intro exI [of _ "?d # new"]) (simp add: custom_fdiffs_bits_def)
    qed
    with True show ?thesis by (simp add: try_push_def)
  qed (simp add: try_push_def accepts_fail)
  have "accepts pending (read_custom_fdiffs sz acc) (\<lambda>fds k. ?Q acc fds (2 + k))" if u: "unat sz < 2 ^ 2" for sz
    unfolding read_custom_fdiffs.simps [of sz acc, abs_def]
  proof (rule accepts_if)
    assume sz: "0 < sz"
    note w = custom_fdiff_fits(1,2) [OF sz u, of 0, simplified]
    show "accepts pending (\<lambda>r. and_then (read_err (read_bits_u16 (unat (sat_mul 4 sz)) r)) (\<lambda>(v, r).
        and_then (try_push MAX_FRAME_DIFFS TooManyFrameDiffs acc (sat_add v 1)) (\<lambda>fds.
        and_then (read_err (read_bits 2 r)) (\<lambda>(sz, r). read_custom_fdiffs sz fds r))))
      (\<lambda>fds k. ?Q acc fds (2 + k))"
      unfolding w(1) using push [OF sz u] w(2)
      by (intro accepts_bind [OF accepts_err [OF accepts_u16]]) simp_all
  next
    show "accepts pending (\<lambda>r. Inr (acc, r)) (\<lambda>fds k. ?Q acc fds (2 + k))"
      using less.prems by (intro accepts_ret) (simp add: custom_fdiffs_bits_def)
  qed
  then show ?case by (intro accepts_bind [OF accepts_err [OF accepts_field]]) simp
qed

lemma accepts_frame_dependencies:
  assumes "structure_wf active"
  shows "accepts pending (read_frame_dependencies active m f) (\<lambda>d k. \<exists>t. template_of active (mf_template_id m) = Some t \<and>
     deps_wf f (unat (decode_target_count active)) (unat (chain_count active)) t d \<and> length (deps_bits f d) \<le> k)"
  unfolding read_frame_dependencies_def [abs_def]
proof (rule accepts_pure_bind)
  fix t assume "ok_or (UnknownTemplateId (mf_template_id m))
    (get_at (templates active) (template_index active (mf_template_id m))) = Inr t"
  then have t: "get_at (templates active) (template_index active (mf_template_id m)) = Some t"
    by (simp add: ok_or_Inr_iff)
  note tw = template_wfD [OF structure_wfD(10) [OF assms get_at_in_set [OF t]]]
  let ?dt = "unat (decode_target_count active)" and ?cc = "unat (chain_count active)"
  have 1: "accepts pending (\<lambda>r. if custom_dtis f
        then and_then (each_mut (\<lambda>_. read_dti) (dtis t) r) (\<lambda>(ds, r). Inr (t\<lparr>dtis := ds\<rparr>, r))
        else Inr (t, r)) (\<lambda>d k. \<exists>ds. d = t\<lparr>dtis := ds\<rparr> \<and> length ds = ?dt \<and> (\<not> custom_dtis f \<longrightarrow> ds = dtis t) \<and>
          length (if custom_dtis f then dtis_bits ds else []) \<le> k)"
  proof (rule accepts_if)
    show "accepts pending (\<lambda>r. Inr (t, r)) (\<lambda>d k. \<exists>ds. d = t\<lparr>dtis := ds\<rparr> \<and> length ds = ?dt \<and> (\<not> custom_dtis f \<longrightarrow> ds = dtis t) \<and>
          length (if custom_dtis f then dtis_bits ds else []) \<le> k)" if "\<not> custom_dtis f"
      using tw(3) that by (intro accepts_ret exI [of _ "dtis t"]) simp
  qed (use tw(3) in \<open>auto simp: each_mut_const intro!: accepts_map [OF accepts_dtis]\<close>)
  have 2: "accepts pending (\<lambda>r. if custom_fdiffs f
        then and_then (read_err (read_bits 2 r)) (\<lambda>(sz, r).
             and_then (read_custom_fdiffs sz [] r) (\<lambda>(fds, r). Inr (d\<lparr>frame_diffs := fds\<rparr>, r)))
        else Inr (d, r)) (\<lambda>d' k. \<exists>fds. d' = d\<lparr>frame_diffs := fds\<rparr> \<and> (custom_fdiffs f \<longrightarrow> length fds \<le> 8 \<and>
          list_all (\<lambda>d. 1 \<le> unat d \<and> unat d \<le> 4096) fds) \<and> (\<not> custom_fdiffs f \<longrightarrow> fds = frame_diffs d) \<and>
          length (if custom_fdiffs f then custom_fdiffs_bits fds else []) \<le> k)" for d
  proof (cases "custom_fdiffs f")
    case True
    have "accepts pending (\<lambda>r. and_then (and_then (read_err (read_bits 2 r)) (\<lambda>(sz, r). read_custom_fdiffs sz [] r))
        (\<lambda>(fds, r). Inr (d\<lparr>frame_diffs := fds\<rparr>, r)))
      (\<lambda>d' k. \<exists>fds. d' = d\<lparr>frame_diffs := fds\<rparr> \<and> length fds \<le> 8 \<and>
          list_all (\<lambda>d. 1 \<le> unat d \<and> unat d \<le> 4096) fds \<and> length (custom_fdiffs_bits fds) \<le> k)"
      by (rule accepts_map [OF accepts_custom_fdiffs]) auto
    with True show ?thesis by (simp add: and_then_assoc(2))
  next
    case False
    have "d = d\<lparr>frame_diffs := frame_diffs d\<rparr>" by simp
    with False show ?thesis by (auto intro!: accepts_ret)
  qed
  have 3: "accepts pending (\<lambda>r. if custom_chains f
        then and_then (each_mut (\<lambda>_ r. read_err (read_bits_u8 8 r)) (chain_diffs d) r)
               (\<lambda>(ds, r). Inr (d\<lparr>chain_diffs := ds\<rparr>, r))
        else Inr (d, r)) (\<lambda>d' k. \<exists>cs. d' = d\<lparr>chain_diffs := cs\<rparr> \<and> length cs = ?cc \<and>
          (\<not> custom_chains f \<longrightarrow> cs = chain_diffs d) \<and> length (if custom_chains f then chain_bits 8 cs else []) \<le> k)"
    if d: "length (chain_diffs d) = ?cc" for d
  proof (rule accepts_if)
    show "accepts pending (\<lambda>r. Inr (d, r)) (\<lambda>d' k. \<exists>cs. d' = d\<lparr>chain_diffs := cs\<rparr> \<and> length cs = ?cc \<and>
          (\<not> custom_chains f \<longrightarrow> cs = chain_diffs d) \<and> length (if custom_chains f then chain_bits 8 cs else []) \<le> k)"
      if "\<not> custom_chains f"
      using d that by (intro accepts_ret exI [of _ "chain_diffs d"]) simp
  qed (use d in \<open>auto simp: each_mut_const intro!: accepts_map [OF accepts_chain]\<close>)
  show "accepts pending (\<lambda>r. and_then (if custom_dtis f
        then and_then (each_mut (\<lambda>_. read_dti) (dtis t) r) (\<lambda>(ds, r). Inr (t\<lparr>dtis := ds\<rparr>, r))
        else Inr (t, r)) (\<lambda>(deps, r).
     and_then (if custom_fdiffs f
        then and_then (read_err (read_bits 2 r)) (\<lambda>(sz, r).
             and_then (read_custom_fdiffs sz [] r) (\<lambda>(fds, r). Inr (deps\<lparr>frame_diffs := fds\<rparr>, r)))
        else Inr (deps, r)) (\<lambda>(deps, r).
      if custom_chains f
        then and_then (each_mut (\<lambda>_ r. read_err (read_bits_u8 8 r)) (chain_diffs deps) r)
               (\<lambda>(ds, r). Inr (deps\<lparr>chain_diffs := ds\<rparr>, r))
        else Inr (deps, r))))
     (\<lambda>d k. \<exists>t. template_of active (mf_template_id m) = Some t \<and> deps_wf f ?dt ?cc t d \<and> length (deps_bits f d) \<le> k)"
    apply (rule accepts_bind [OF 1], elim exE conjE)
    apply (rule accepts_bind [OF 2], elim exE conjE)
    apply (rule accepts_weaken [OF 3])
    subgoal using tw(6) by simp
    subgoal by (elim exE conjE, intro exI [of _ t])
        (auto simp: template_of_def t deps_wf_def deps_bits_def)
    done
qed

text \<open>A structure held by a reader or a writer, if any, is well formed.\<close>

definition held_wf :: "TemplateDependencyStructure option \<Rightarrow> bool" where
  "held_wf c \<longleftrightarrow> (case c of None \<Rightarrow> True | Some s \<Rightarrow> structure_wf s)"

lemma accepts_fields:
  assumes c: "held_wf c" and m: "unat (mf_template_id m) < 64" and f: "unat (fields_raw f) < 8"
  shows "accepts pending (parse_fields c m (sp, tp, f)) (\<lambda>dd k. \<exists>active. in_force c dd = Some active \<and>
     structure_wf active \<and> descriptor_wf active dd \<and> mandatory dd = m \<and>
     (attached_structure dd \<noteq> None) = sp \<and> (active_decode_targets dd \<noteq> None) = tp \<and> dd_fields dd = f \<and>
     length (extended_bits active dd) \<le> 5 + k)"
  unfolding parse_fields_def [abs_def] prod.case
proof (rule accepts_bind [where Q = "\<lambda>a k. (a \<noteq> None) = sp \<and> held_wf a \<and>
    length (case a of Some s \<Rightarrow> structure_bits s | None \<Rightarrow> []) \<le> k"])
  show "accepts pending (\<lambda>r. if sp then and_then (read_structure r) (\<lambda>(s, r). Inr (Some s, r)) else Inr (None, r))
     (\<lambda>a k. (a \<noteq> None) = sp \<and> held_wf a \<and> length (case a of Some s \<Rightarrow> structure_bits s | None \<Rightarrow> []) \<le> k)"
    by (intro accepts_if accepts_ret accepts_map [OF accepts_structure]) (simp_all add: held_wf_def)
next
  fix a k assume a: "(a \<noteq> None) = sp \<and> held_wf a \<and> length (case a of Some s \<Rightarrow> structure_bits s | None \<Rightarrow> []) \<le> k"
  let ?R = "\<lambda>dd j. \<exists>active. in_force c dd = Some active \<and>
     structure_wf active \<and> descriptor_wf active dd \<and> mandatory dd = m \<and>
     (attached_structure dd \<noteq> None) = sp \<and> (active_decode_targets dd \<noteq> None) = tp \<and> dd_fields dd = f \<and>
     length (extended_bits active dd) \<le> 5 + j"
  show "accepts pending (\<lambda>r. and_then (case a of Some s \<Rightarrow> Inr s | None \<Rightarrow> ok_or NoStructure c) (\<lambda>active.
     and_then (if tp then and_then (read_err (read_bits (unat (decode_target_count active)) r)) (\<lambda>(v, r). Inr (Some v, r))
          else Inr (None, r)) (\<lambda>(targets, r).
     and_then (read_frame_dependencies active m f r) (\<lambda>(deps, r).
       Inr (\<lparr>start_of_frame = mf_start_of_frame m, end_of_frame = mf_end_of_frame m,
             template_id = mf_template_id m, frame_number = mf_frame_number m,
             attached_structure = a, active_decode_targets = targets,
             dd_fields = f, frame_dependencies = deps,
             resolution = get_at (resolutions active) (unat (spatial_id deps))\<rparr>, r)))))
     (\<lambda>dd j. ?R dd (k + j))"
  proof (rule accepts_pure_bind)
    fix active assume act: "(case a of Some s \<Rightarrow> Inr s | None \<Rightarrow> ok_or NoStructure c) = Inr active"
    then have sw: "structure_wf active"
      using a c by (auto simp: held_wf_def ok_or_Inr_iff split: option.splits)
    have tg: "accepts pending (\<lambda>r. if tp then and_then (read_err (read_bits (unat (decode_target_count active)) r)) (\<lambda>(v, r). Inr (Some v, r))
          else Inr (None, r)) (\<lambda>t k. (t \<noteq> None) = tp \<and>
            (case t of None \<Rightarrow> True | Some v \<Rightarrow> unat v < 2 ^ unat (decode_target_count active)) \<and>
            length (case t of Some v \<Rightarrow> word_bits (unat (decode_target_count active)) v | None \<Rightarrow> []) \<le> k)"
      by (intro accepts_if accepts_ret accepts_map [OF accepts_err [OF accepts_field]]) simp_all
    show "accepts pending (\<lambda>r. and_then (if tp then and_then (read_err (read_bits (unat (decode_target_count active)) r)) (\<lambda>(v, r). Inr (Some v, r))
          else Inr (None, r)) (\<lambda>(targets, r).
     and_then (read_frame_dependencies active m f r) (\<lambda>(deps, r).
       Inr (\<lparr>start_of_frame = mf_start_of_frame m, end_of_frame = mf_end_of_frame m,
             template_id = mf_template_id m, frame_number = mf_frame_number m,
             attached_structure = a, active_decode_targets = targets,
             dd_fields = f, frame_dependencies = deps,
             resolution = get_at (resolutions active) (unat (spatial_id deps))\<rparr>, r))))
     (\<lambda>dd j. ?R dd (k + j))"
    proof (rule accepts_bind [OF tg], rule accepts_map [OF accepts_frame_dependencies [OF sw]], elim exE conjE)
      fix t :: "u32 option" and kt d kd tm
      assume t: "(t \<noteq> None) = tp" "case t of None \<Rightarrow> True | Some v \<Rightarrow> unat v < 2 ^ unat (decode_target_count active)"
          "length (case t of Some v \<Rightarrow> word_bits (unat (decode_target_count active)) v | None \<Rightarrow> []) \<le> kt"
        and d: "template_of active (mf_template_id m) = Some tm"
          "deps_wf f (unat (decode_target_count active)) (unat (chain_count active)) tm d" "length (deps_bits f d) \<le> kd"
      let ?dd = "\<lparr>start_of_frame = mf_start_of_frame m, end_of_frame = mf_end_of_frame m,
             template_id = mf_template_id m, frame_number = mf_frame_number m,
             attached_structure = a, active_decode_targets = t,
             dd_fields = f, frame_dependencies = d,
             resolution = get_at (resolutions active) (unat (spatial_id d))\<rparr>"
      have "in_force c ?dd = Some active"
        using act by (auto simp: in_force_def ok_or_Inr_iff split: option.splits)
      moreover have "descriptor_wf active ?dd" using m f t d by (simp add: descriptor_wf_def)
      moreover have "length (extended_bits active ?dd) \<le> 5 + (k + (kt + kd))"
        using a t(3) d(3) by (simp add: extended_bits_def)
      ultimately show "?R ?dd (k + (kt + kd))"
        using sw a t(1) by (intro exI [of _ active]) (simp add: mandatory_def)
    qed
  qed
qed

lemma accepts_flags: "accepts pending parse_flags (\<lambda>(sp, tp, f) k. unat (fields_raw f) < 8 \<and> k = 5)"
  unfolding parse_flags_def [abs_def] set_custom_fields_of
  by (intro accepts_bind [OF accepts_err [OF accepts_flag]] accepts_ret) (simp add: fields_raw_less)

lemma read_mandatory_Inr:
  assumes "read_mandatory buf = Inr m"
  shows "3 \<le> length buf" "unat (mf_template_id m) < 64"
proof -
  obtain f h l rest where buf: "buf = f # h # l # rest" and m: "mf_template_id m = f AND 0x3f"
    using assms by (auto simp: read_mandatory_def split: list.splits)
  have "f AND 0x3f = take_bit 6 f" by (simp add: take_bit_eq_mask mask_eq_exp_minus_1)
  moreover have "unat (take_bit 6 f) < 2 ^ 6"
    by (metis take_bit_nat_less_exp unsigned_take_bit_eq)
  ultimately show "unat (mf_template_id m) < 64" using m by simp
  show "3 \<le> length buf" by (simp add: buf)
qed

text \<open>What \<open>parse\<close> accepts is well formed and fits in as many bytes as it came in.\<close>

lemma parse_accepts:
  assumes c: "held_wf (rd_structure d)" and p: "parse d buf = Inr dd"
  obtains active where "in_force (rd_structure d) dd = Some active" "structure_wf active"
    "descriptor_wf active dd" "length (descriptor_bits active dd) \<le> 8 * length buf" "length buf \<le> 255"
proof -
  from p obtain m sp tp f r r' where b: "length buf \<le> 255" and m: "read_mandatory buf = Inr m"
    and fl: "(if 3 < length buf then parse_flags (with_offset buf 24)
              else Inr ((False, False, fields_empty), with_offset buf 24)) = Inr ((sp, tp, f), r)"
    and body: "parse_fields (rd_structure d) m (sp, tp, f) r = Inr (dd, r')"
    by (auto simp: parse_def Let_def and_then_Inr_iff split: if_splits)
  note mw = read_mandatory_Inr [OF m]
  have p0: "length (pending (with_offset buf 24)) = 8 * length buf - 24"
    using mw(1) by (simp add: pending_with_offset)
  have f8: "unat (fields_raw f) < 8"
    and k0: "3 < length buf \<Longrightarrow> length (pending (with_offset buf 24)) = 5 + length (pending r)"
    and ne: "\<not> 3 < length buf \<Longrightarrow> \<not> sp \<and> \<not> tp \<and> f = fields_empty"
    using fl acceptsD [OF accepts_flags, of "with_offset buf 24" "(sp, tp, f)" r]
    by (auto simp: fields_empty_def split: if_splits)
  from acceptsD [OF accepts_fields [OF c mw(2) f8] body] obtain k active where
    k: "length (pending r) = k + length (pending r')" and act: "in_force (rd_structure d) dd = Some active"
      "structure_wf active" "descriptor_wf active dd"
    and fld: "(attached_structure dd \<noteq> None) = sp" "(active_decode_targets dd \<noteq> None) = tp" "dd_fields dd = f"
      "length (extended_bits active dd) \<le> 5 + k" by blast
  have "length (descriptor_bits active dd) \<le> 8 * length buf"
  proof (cases "3 < length buf")
    case True
    have "length (extended_bits active dd) + 24 \<le> 8 * length buf"
      using k0 [OF True] k fld(4) p0 mw(1) by linarith
    then show ?thesis using mw(1) by (simp add: descriptor_bits_def)
  next
    case False
    then have "\<not> has_extended dd" using ne fld by (auto simp: has_extended_def fields_is_empty_def fields_empty_def)
    then show ?thesis using mw(1) by (simp add: descriptor_bits_def)
  qed
  then show ?thesis using that act b by blast
qed

lemma read_dd_keeps_wf:
  assumes "held_wf (rd_structure d)" and "read_dd d buf = Inr (dd, d')"
  shows "held_wf (rd_structure d')" "in_force (rd_structure d) dd = rd_structure d'"
proof -
  from assms(2) have p: "parse d buf = Inr dd" and d': "d' = commit dd d"
    by (auto simp: read_dd_def and_then_Inr_iff)
  show eq: "in_force (rd_structure d) dd = rd_structure d'"
    by (auto simp: d' commit_def in_force_def Let_def split: option.splits)
  from parse_accepts [OF assms(1) p] eq show "held_wf (rd_structure d')"
    by (metis held_wf_def option.simps(5))
qed

subsection \<open>The reader over its life\<close>

definition reader_inv :: "DependencyDescriptorReader \<Rightarrow> bool" where
  "reader_inv d \<longleftrightarrow> (case rd_structure d of
     None \<Rightarrow> rd_active_decode_targets d = 0
   | Some s \<Rightarrow> structure_wf s \<and> unat (rd_active_decode_targets d) < 2 ^ unat (decode_target_count s))"

datatype reader_op = OpRead "u8 list" | OpReset

fun reader_step :: "reader_op \<Rightarrow> DependencyDescriptorReader \<Rightarrow> DependencyDescriptorReader" where
  "reader_step (OpRead buf) d = (case read_dd d buf of Inl e \<Rightarrow> d | Inr (dd, d') \<Rightarrow> d')"
| "reader_step OpReset d = reader_reset d"

lemma reader_inv_held: "reader_inv d \<Longrightarrow> held_wf (rd_structure d)"
  by (auto simp: reader_inv_def held_wf_def split: option.splits)

lemma unat_mask_less: "n \<le> 32 \<Longrightarrow> unat (mask n :: u32) < 2 ^ n"
  by (metis take_bit_eq_mask and.idem take_bit_nat_less_exp unsigned_take_bit_eq)

lemma read_dd_inv:
  assumes "reader_inv d" and "read_dd d buf = Inr (dd, d')"
  shows "reader_inv d'"
proof -
  note held = reader_inv_held [OF assms(1)]
  from assms(2) have p: "parse d buf = Inr dd" and d': "d' = commit dd d"
    by (auto simp: read_dd_def and_then_Inr_iff)
  from parse_accepts [OF held p] obtain active where a: "in_force (rd_structure d) dd = Some active"
    "structure_wf active" "descriptor_wf active dd" by blast
  have "rd_structure d' = Some active" using read_dd_keeps_wf(2) [OF held assms(2)] a(1) by simp
  moreover have "unat (rd_active_decode_targets d') < 2 ^ unat (decode_target_count active)"
  proof (cases "active_decode_targets dd")
    case (Some m)
    with a(3) show ?thesis by (simp add: d' commit_def Let_def descriptor_wf_def)
  next
    case None
    show ?thesis
    proof (cases "attached_structure dd")
      case (Some s)
      with a None show ?thesis
        using structure_wfD(3) [OF a(2)] unat_mask_less [of "unat (decode_target_count s)"]
        by (simp add: d' commit_def in_force_def all_decode_targets_bitmask_mask)
    next
      case n: None
      with a None assms(1) show ?thesis by (simp add: d' commit_def in_force_def reader_inv_def)
    qed
  qed
  ultimately show ?thesis using a(2) by (simp add: reader_inv_def)
qed

lemma reader_step_inv: "reader_inv d \<Longrightarrow> reader_inv (reader_step op d)"
proof (cases op)
  case OpReset
  then show ?thesis by (simp add: reader_inv_def reader_reset_def)
qed (auto intro: read_dd_inv split: sum.splits)

text \<open>
  C3. From a fresh reader, after any sequence of reads of arbitrary bytes (accepted or refused) and
  resets, the structure held is well formed (every list within the capacity of its \<open>ArrayVec\<close>,
  layer ids and diffs in range), and the active decode-target mask has no bit beyond the
  structure's decode targets.
\<close>

theorem reader_always_wf: "reader_inv (fold reader_step ops reader_default)"
proof -
  have "reader_inv d \<Longrightarrow> reader_inv (fold reader_step ops d)" for d
    by (induction ops arbitrary: d) (simp_all add: reader_step_inv)
  then show ?thesis by (simp add: reader_inv_def reader_default_def)
qed

subsection \<open>Round trips\<close>

definition ex_template :: FrameDependencyTemplate where
  "ex_template = \<lparr>spatial_id = 0, temporal_id = 0, dtis = [Switch, Required], frame_diffs = [3],
     chain_diffs = [2]\<rparr>"

definition ex_structure :: TemplateDependencyStructure where
  "ex_structure = \<lparr>template_id_offset = 62, decode_target_count = 2, chain_count = 1,
     decode_target_protected_by = [0, 0],
     templates = [ex_template, ex_template\<lparr>temporal_id := 1, frame_diffs := [1, 2]\<rparr>],
     resolutions = [\<lparr>res_width = 640, res_height = 360\<rparr>]\<rparr>"

definition ex_descriptor :: DependencyDescriptor where
  "ex_descriptor = \<lparr>start_of_frame = True, end_of_frame = False, template_id = 63, frame_number = 513,
     attached_structure = Some ex_structure, active_decode_targets = Some 1, dd_fields = DdFields 3,
     frame_dependencies = ex_template\<lparr>temporal_id := 1, dtis := [NotPresent, Switch], frame_diffs := [300, 7]\<rparr>,
     resolution = Some \<lparr>res_width = 640, res_height = 360\<rparr>\<rparr>"

lemma ex_wf: "structure_wf ex_structure" "descriptor_wf ex_structure ex_descriptor"
  by code_simp+

lemma ex_bits: "length (descriptor_bits ex_structure ex_descriptor) = 140"
  by code_simp

lemma ex_in_force: "in_force c ex_descriptor = Some ex_structure"
  by (simp add: in_force_def ex_descriptor_def)

text \<open>
  C1. Round trip. A well-formed descriptor that the writer has written into at most 255 bytes is
  read back by a reader that holds the same structure as the writer: the reader returns the very
  descriptor, and reader and writer again hold the same structure.
\<close>

theorem dd_roundtrip:
  assumes "structure_wf active" and "descriptor_wf active dd"
    and "in_force (wr_structure w) dd = Some active" and "rd_structure d = wr_structure w"
    and "write_dd w dd out = Inr (len, out', w')" and "len \<le> MAX_DD_LEN"
  shows "\<exists>d'. read_dd d (take len out') = Inr (dd, d') \<and> rd_structure d' = wr_structure w'"
proof -
  let ?n = "length (descriptor_bits active dd)"
  note ws = write_dd_spec [OF assms(1-3), of out]
  from ws assms(5) have len: "len = (?n + 7) div 8" and w': "w' = w\<lparr>wr_structure := Some active\<rparr>"
    and sb: "stream_bits (take len out') = descriptor_bits active dd @ replicate (8 * len - ?n) False"
    by (auto split: if_splits)
  have "parse d (take len out') = Inr dd"
  proof (rule parse_descriptor [OF assms(1,2)])
    show "in_force (rd_structure d) dd = Some active" using assms(3,4) by simp
    show "length (replicate (8 * len - ?n) False) < 8" using len by simp
    show "length (take len out') \<le> 255" using assms(6) by simp
  qed (rule sb)
  moreover have "rd_structure (commit dd d) = Some active"
    using assms(3,4) by (auto simp: commit_def in_force_def Let_def split: option.splits)
  ultimately show ?thesis by (simp add: read_dd_def w')
qed

theorem dd_roundtrip_witness:
  "\<exists>len out' w' d'. write_dd writer_default ex_descriptor (replicate 18 0) = Inr (len, out', w') \<and>
     len = 18 \<and> read_dd reader_default (take len out') = Inr (ex_descriptor, d')"
proof -
  have "in_force (wr_structure writer_default) ex_descriptor = Some ex_structure" by (rule ex_in_force)
  note ws = write_dd_spec [OF ex_wf this, of "replicate 18 0", unfolded ex_bits]
  from ws obtain out' where o: "write_dd writer_default ex_descriptor (replicate 18 0) =
      Inr (18, out', writer_default\<lparr>wr_structure := Some ex_structure\<rparr>)" by auto
  have "\<exists>d'. read_dd reader_default (take 18 out') = Inr (ex_descriptor, d') \<and>
      rd_structure d' = wr_structure (writer_default\<lparr>wr_structure := Some ex_structure\<rparr>)"
    by (rule dd_roundtrip [OF ex_wf ex_in_force _ o])
      (simp_all add: reader_default_def writer_default_def)
  with o show ?thesis by blast
qed

text \<open>
  C4. Writing is total on well-formed descriptors whose encoding is within the format's 255 bytes:
  given a buffer with room for the descriptor's bits it succeeds and uses the fewest whole bytes that
  hold them, whatever the buffer held before; given less room it returns \<open>Overflow\<close>, and no other
  error is possible.
\<close>

theorem dd_write_total:
  assumes "structure_wf active" and "descriptor_wf active dd"
    and "in_force (wr_structure w) dd = Some active" and "length (descriptor_bits active dd) \<le> 8 * MAX_DD_LEN"
  shows "(if length (descriptor_bits active dd) \<le> 8 * length out
          then \<exists>out'. write_dd w dd out =
                 Inr ((length (descriptor_bits active dd) + 7) div 8, out', w\<lparr>wr_structure := Some active\<rparr>)
          else write_dd w dd out = Inl WOverflow)"
  using write_dd_spec [OF assms(1-3), of out] by (auto split: if_splits)

theorem dd_write_total_witness:
  "(\<exists>out'. write_dd writer_default ex_descriptor (replicate 20 7) =
      Inr (18, out', writer_default\<lparr>wr_structure := Some ex_structure\<rparr>)) \<and>
   write_dd writer_default ex_descriptor (replicate 17 7) = Inl WOverflow"
  using dd_write_total [OF ex_wf ex_in_force, of "replicate 20 7" writer_default]
    dd_write_total [OF ex_wf ex_in_force, of "replicate 17 7" writer_default]
  by (simp add: ex_bits)

text \<open>
  C2. What the reader accepts from the network can be forwarded: a writer that holds the reader's
  structure re-encodes an accepted descriptor into a buffer as large as the one it came in, in no
  more bytes, and a third party holding that structure decodes the same descriptor from them.
\<close>

theorem dd_forward:
  assumes "reader_inv d" and "parse d buf = Inr dd" and "wr_structure w = rd_structure d"
    and "rd_structure d2 = rd_structure d" and "length out = length buf"
  shows "\<exists>len out' w'. write_dd w dd out = Inr (len, out', w') \<and> len \<le> length buf \<and>
     parse d2 (take len out') = Inr dd"
proof -
  obtain active where a: "in_force (rd_structure d) dd = Some active" "structure_wf active"
    "descriptor_wf active dd" "length (descriptor_bits active dd) \<le> 8 * length buf" "length buf \<le> 255"
    using parse_accepts [OF reader_inv_held [OF assms(1)] assms(2)] .
  let ?n = "length (descriptor_bits active dd)" and ?len = "(length (descriptor_bits active dd) + 7) div 8"
  have "in_force (wr_structure w) dd = Some active" using a(1) assms(3) by simp
  from write_dd_spec [OF a(2,3) this, of out] a(4) assms(5) obtain out' where
    o: "write_dd w dd out = Inr (?len, out', w\<lparr>wr_structure := Some active\<rparr>)"
    and sb: "stream_bits (take ?len out') = descriptor_bits active dd @ replicate (8 * ?len - ?n) False"
    by auto
  have l: "?len \<le> length buf" using a(4) by linarith
  have "parse d2 (take ?len out') = Inr dd"
    by (rule parse_descriptor [OF a(2,3) _ sb]) (use a(1,5) l assms(4) in simp_all)
  with o l show ?thesis by blast
qed

definition ex_reader :: DependencyDescriptorReader where
  "ex_reader = \<lparr>rd_structure = Some ex_structure, rd_active_decode_targets = 3\<rparr>"

definition ex_delta :: DependencyDescriptor where
  "ex_delta = \<lparr>start_of_frame = True, end_of_frame = False, template_id = 62, frame_number = 258,
     attached_structure = None, active_decode_targets = None, dd_fields = DdFields 0,
     frame_dependencies = ex_template, resolution = Some \<lparr>res_width = 640, res_height = 360\<rparr>\<rparr>"

theorem dd_forward_witness:
  "\<exists>len out' w'. write_dd \<lparr>wr_structure = Some ex_structure\<rparr> ex_delta [9, 9, 9] = Inr (len, out', w') \<and>
     len \<le> 3 \<and> parse ex_reader (take len out') = Inr ex_delta"
proof -
  have p: "parse ex_reader [190, 1, 2] = Inr ex_delta" by code_simp
  have i: "reader_inv ex_reader" by code_simp
  show ?thesis
    using dd_forward [OF i p, of "\<lparr>wr_structure = Some ex_structure\<rparr>" ex_reader "[9, 9, 9]"]
    by (simp add: ex_reader_def numeral_3_eq_3)
qed

end
