(* ===== verification/DD_Temporal.thy ===== *)
theory DD_Temporal
  imports DD_Accept
begin

text \<open>
  The descriptor source of a temporally scalable sender, \<open>crates/pulsebeam-core/src/dd/temporal.rs\<close>:
  the L1T1, L1T2 and L1T3 template structures, the per-frame generator, and the generator paired
  with a descriptor writer that yields one encoded descriptor per RTP packet.
\<close>

subsection \<open>The code\<close>

definition MAX_TEMPORAL_LAYERS :: u8 where "MAX_TEMPORAL_LAYERS = 3"

definition dti_spec :: "string \<Rightarrow> DecodeTargetIndication list" where
  "dti_spec spec = map (\<lambda>c. if c = CHR ''D'' then Discardable else if c = CHR ''S'' then Switch
     else if c = CHR ''R'' then Required else NotPresent) spec"

definition mk_template :: "u8 \<Rightarrow> string \<Rightarrow> u16 list \<Rightarrow> FrameDependencyTemplate" where
  "mk_template tid spec frame_diff =
     (let chain_diff = (case frame_diff of [] \<Rightarrow> 0 | d # _ \<Rightarrow> d)
      in \<lparr>spatial_id = 0, temporal_id = tid, dtis = dti_spec spec, frame_diffs = frame_diff,
          chain_diffs = [if unat chain_diff < 256 then ucast chain_diff else - 1]\<rparr>)"

definition structure_for :: "u8 \<Rightarrow> TemplateDependencyStructure \<times> u8 list" where
  "structure_for layers =
     (if layers = 1 then
        (\<lparr>template_id_offset = 0, decode_target_count = 1, chain_count = 1,
          decode_target_protected_by = [0], templates = [mk_template 0 ''S'' [1]], resolutions = []\<rparr>,
         [0])
      else if layers = 2 then
        (\<lparr>template_id_offset = 0, decode_target_count = 2, chain_count = 1,
          decode_target_protected_by = [0, 0],
          templates = [mk_template 0 ''SS'' [2], mk_template 1 ''-D'' [1]], resolutions = []\<rparr>,
         [0, 1])
      else
        (\<lparr>template_id_offset = 0, decode_target_count = 3, chain_count = 1,
          decode_target_protected_by = [0, 0, 0],
          templates = [mk_template 0 ''SSS'' [4], mk_template 1 ''-SS'' [2], mk_template 2 ''--D'' [1]],
          resolutions = []\<rparr>,
         [0, 2, 1, 2]))"

record TemporalDdGenerator =
  g_layers :: u8
  g_structure :: TemplateDependencyStructure
  g_pattern :: "u8 list"
  g_frame_number :: u16
  g_position :: nat

definition generator_new :: "u8 \<Rightarrow> TemporalDdGenerator" where
  "generator_new layers =
     (let layers = max 1 (min layers MAX_TEMPORAL_LAYERS);
          (s, p) = structure_for layers
      in \<lparr>g_layers = layers, g_structure = s, g_pattern = p, g_frame_number = 0, g_position = 0\<rparr>)"

definition next_temporal_id :: "TemporalDdGenerator \<Rightarrow> u8" where
  "next_temporal_id g = (case get_at (g_pattern g) (g_position g) of Some t \<Rightarrow> t | None \<Rightarrow> 0)"

definition template_default :: FrameDependencyTemplate where
  "template_default = \<lparr>spatial_id = 0, temporal_id = 0, dtis = [], frame_diffs = [], chain_diffs = []\<rparr>"

definition generator_next :: "bool \<Rightarrow> TemporalDdGenerator \<Rightarrow> DependencyDescriptor \<times> TemporalDdGenerator" where
  "generator_next is_keyframe g =
     (let g = (if is_keyframe then g\<lparr>g_position := 0\<rparr> else g);
          ti = unat (next_temporal_id g);
          deps = (case get_at (templates (g_structure g)) ti of Some t \<Rightarrow> t | None \<Rightarrow> template_default);
          (deps, flds) =
            (if is_keyframe then
               (let deps = deps\<lparr>frame_diffs := [], chain_diffs := map (\<lambda>_. 0) (chain_diffs deps)\<rparr>
                in (deps, set_custom_chains (chain_diffs deps \<noteq> []) (set_custom_fdiffs True fields_empty)))
             else (deps, fields_empty));
          tid = of_nat ((ti + unat (template_id_offset (g_structure g))) mod MAX_TEMPLATES) :: u8;
          dd = \<lparr>start_of_frame = True, end_of_frame = True, template_id = tid,
                frame_number = g_frame_number g,
                attached_structure = (if is_keyframe then Some (g_structure g) else None),
                active_decode_targets = None, dd_fields = flds, frame_dependencies = deps,
                resolution = None\<rparr>
      in (dd, g\<lparr>g_frame_number := g_frame_number g + 1,
                g_position := (if g_pattern g = [] then 0 else (g_position g + 1) mod length (g_pattern g))\<rparr>))"

record TemporalDdSource =
  ts_generator :: TemporalDdGenerator
  ts_writer :: DependencyDescriptorWriter

definition source_new :: "u8 \<Rightarrow> TemporalDdSource" where
  "source_new layers = \<lparr>ts_generator = generator_new layers, ts_writer = writer_default\<rparr>"

definition packet_descriptor :: "DependencyDescriptor \<Rightarrow> nat \<Rightarrow> nat \<Rightarrow> DependencyDescriptor" where
  "packet_descriptor dd packet_count index =
     dd\<lparr>start_of_frame := (index = 0), end_of_frame := (index + 1 = packet_count),
        attached_structure := (if index \<noteq> 0 then None else attached_structure dd)\<rparr>"

fun write_packets ::
  "DependencyDescriptor \<Rightarrow> nat \<Rightarrow> nat list \<Rightarrow> DependencyDescriptorWriter \<Rightarrow>
     DependencyDescriptorWriter \<times> (DdWriteError + u8 list list)" where
  "write_packets dd packet_count [] w = (w, Inr [])"
| "write_packets dd packet_count (index # is) w =
     (case write_dd w (packet_descriptor dd packet_count index) (replicate MAX_DD_LEN 0) of
        Inl e \<Rightarrow> (w, Inl e)
      | Inr (n, buf, w) \<Rightarrow>
          (case get_range buf 0 n of
             None \<Rightarrow> (w, Inl WOverflow)
           | Some bytes \<Rightarrow>
               (case write_packets dd packet_count is w of
                  (w, Inl e) \<Rightarrow> (w, Inl e)
                | (w, Inr ps) \<Rightarrow> (w, Inr (bytes # ps)))))"

definition next_frame ::
  "bool \<Rightarrow> nat \<Rightarrow> TemporalDdSource \<Rightarrow> TemporalDdSource \<times> (DdWriteError + u8 list list)" where
  "next_frame is_keyframe packet_count src =
     (let (dd, g) = generator_next is_keyframe (ts_generator src);
          (w, res) = write_packets dd packet_count [0..<packet_count] (ts_writer src)
      in (\<lparr>ts_generator = g, ts_writer = w\<rparr>, res))"

definition source_next :: "bool \<Rightarrow> TemporalDdSource \<Rightarrow> TemporalDdSource \<times> u8 list option" where
  "source_next is_keyframe src =
     (let (src, res) = next_frame is_keyframe 1 src
      in (src, case res of Inl e \<Rightarrow> None | Inr ps \<Rightarrow> get_at ps 0))"

subsection \<open>The generator\<close>

definition gen_inv :: "TemporalDdGenerator \<Rightarrow> bool" where
  "gen_inv g \<longleftrightarrow> g_layers g \<in> {1, 2, 3} \<and> (g_structure g, g_pattern g) = structure_for (g_layers g) \<and>
     g_position g < length (g_pattern g)"

lemma gen_inv_cases:
  assumes "gen_inv g"
  obtains (L1) "g_layers g = 1" "(g_structure g, g_pattern g) = structure_for 1" "g_position g = 0"
    | (L2) p where "g_layers g = 2" "(g_structure g, g_pattern g) = structure_for 2" "g_position g = p" "p \<in> {0, 1}"
    | (L3) p where "g_layers g = 3" "(g_structure g, g_pattern g) = structure_for 3" "g_position g = p" "p \<in> {0, 1, 2, 3}"
proof -
  consider "g_layers g = 1" | "g_layers g = 2" | "g_layers g = 3"
    using assms by (auto simp: gen_inv_def)
  then show thesis
  proof cases
    case 1
    with assms have "g_position g < length (snd (structure_for 1))" "(g_structure g, g_pattern g) = structure_for 1"
      unfolding gen_inv_def by (metis snd_conv)+
    with 1 show ?thesis by (intro L1) (simp_all add: structure_for_def)
  next
    case 2
    with assms have p: "g_position g < length (snd (structure_for 2))" and s: "(g_structure g, g_pattern g) = structure_for 2"
      unfolding gen_inv_def by (metis snd_conv)+
    from p have "g_position g < 2" by (simp add: structure_for_def)
    then have "g_position g \<in> {0, 1}" by auto
    with 2 s show ?thesis by (intro L2) simp_all
  next
    case 3
    with assms have p: "g_position g < length (snd (structure_for 3))" and s: "(g_structure g, g_pattern g) = structure_for 3"
      unfolding gen_inv_def by (metis snd_conv)+
    from p have "g_position g < 4" by (simp add: structure_for_def)
    then have "g_position g \<in> {0, 1, 2, 3}" by auto
    with 3 s show ?thesis by (intro L3) simp_all
  qed
qed

lemma gen_inv_new: "gen_inv (generator_new layers)"
proof -
  let ?l = "max 1 (min layers 3) :: u8"
  have l: "?l \<in> {1, 2, 3}"
  proof -
    have "unat ?l \<in> {1, 2, 3}" by (auto simp: max_def min_def word_le_nat_alt)
    then show ?thesis by (auto simp: word_unat_eq_iff)
  qed
  obtain s p where sp: "structure_for ?l = (s, p)" by (cases "structure_for ?l") auto
  then have "p \<noteq> []" by (auto simp: structure_for_def split: if_splits)
  with l sp show ?thesis
    by (simp add: gen_inv_def generator_new_def MAX_TEMPORAL_LAYERS_def Let_def)
qed

lemma snd_generator_next:
  "snd (generator_next kf g) = g\<lparr>g_frame_number := g_frame_number g + 1,
     g_position := (if g_pattern g = [] then 0
       else ((if kf then 0 else g_position g) + 1) mod length (g_pattern g))\<rparr>"
  by (cases kf; cases g) (simp_all add: generator_next_def Let_def)

lemma gen_inv_next: "gen_inv g \<Longrightarrow> gen_inv (snd (generator_next kf g))"
proof -
  assume g: "gen_inv g"
  then have "g_pattern g \<noteq> []" by (auto simp: gen_inv_def)
  with g show ?thesis by (simp add: gen_inv_def snd_generator_next)
qed

lemma structure_for_wf: "l \<in> {1, 2, 3} \<Longrightarrow> structure_wf (fst (structure_for l))"
proof -
  have "structure_wf (fst (structure_for 1))" "structure_wf (fst (structure_for 2))"
    "structure_wf (fst (structure_for 3))" by code_simp+
  then show "l \<in> {1, 2, 3} \<Longrightarrow> structure_wf (fst (structure_for l))" by auto
qed

lemma structure_for_bits: "l \<in> {1, 2, 3} \<Longrightarrow> length (structure_bits (fst (structure_for l))) \<le> 100"
proof -
  have "length (structure_bits (fst (structure_for 1))) \<le> 100" "length (structure_bits (fst (structure_for 2))) \<le> 100"
    "length (structure_bits (fst (structure_for 3))) \<le> 100" by code_simp+
  then show "l \<in> {1, 2, 3} \<Longrightarrow> length (structure_bits (fst (structure_for l))) \<le> 100" by auto
qed

text \<open>Every template of a structure sits at the index of its temporal id.\<close>

definition cur_template :: "TemporalDdGenerator \<Rightarrow> FrameDependencyTemplate" where
  "cur_template g = templates (g_structure g) ! unat (next_temporal_id g)"

lemma structure_for_template:
  assumes "gen_inv g"
  shows "get_at (templates (g_structure g)) (unat (next_temporal_id g)) = Some (cur_template g)"
    "temporal_id (cur_template g) = next_temporal_id g" "template_id_offset (g_structure g) = 0"
    "resolutions (g_structure g) = []" "length (chain_diffs (cur_template g)) = 1"
    "unat (next_temporal_id g) < 3" "unat (chain_count (g_structure g)) = 1"
  using assms
  by (cases rule: gen_inv_cases;
      auto simp: structure_for_def next_temporal_id_def get_at_def mk_template_def cur_template_def)+

definition restarted :: "bool \<Rightarrow> TemporalDdGenerator \<Rightarrow> TemporalDdGenerator" where
  "restarted kf g = (if kf then g\<lparr>g_position := 0\<rparr> else g)"

lemma restarted_simps [simp]:
  "g_structure (restarted kf g) = g_structure g" "g_frame_number (restarted kf g) = g_frame_number g"
  "g_layers (restarted kf g) = g_layers g" "g_pattern (restarted kf g) = g_pattern g"
  by (simp_all add: restarted_def)

lemma gen_inv_restart: "gen_inv g \<Longrightarrow> gen_inv (g\<lparr>g_position := 0\<rparr>)"
  by (auto simp: gen_inv_def)

lemma gen_inv_restarted: "gen_inv g \<Longrightarrow> gen_inv (restarted kf g)"
  by (cases kf) (simp_all add: restarted_def gen_inv_restart)

lemma generator_next_dd:
  assumes "gen_inv g"
  shows "fst (generator_next kf g) = \<lparr>start_of_frame = True, end_of_frame = True,
       template_id = next_temporal_id (restarted kf g), frame_number = g_frame_number g,
       attached_structure = (if kf then Some (g_structure g) else None), active_decode_targets = None,
       dd_fields = fields_of False kf kf,
       frame_dependencies = (if kf then (cur_template (restarted kf g))\<lparr>frame_diffs := [], chain_diffs := [0]\<rparr>
                             else cur_template (restarted kf g)),
       resolution = None\<rparr>"
proof -
  let ?g = "restarted kf g"
  note t = structure_for_template [OF gen_inv_restarted [OF assms, of kf]]
  have e: "map (\<lambda>_. 0) (chain_diffs (cur_template ?g)) = [0 :: u8]"
    using t(5) by (cases "chain_diffs (cur_template ?g)") auto
  have i: "of_nat (unat (next_temporal_id ?g) mod 64) = next_temporal_id ?g" using t(6) by simp
  have flds: "set_custom_chains True (set_custom_fdiffs True fields_empty) = fields_of False True True"
    "fields_empty = fields_of False False False"
    by (simp_all add: fields_defs)
  show ?thesis
  proof (cases kf)
    case True
    moreover have "chain_diffs (cur_template ?g) \<noteq> []" using e by auto
    ultimately show ?thesis
      using t(1,3) i e flds(1) by (simp add: generator_next_def Let_def restarted_def)
  next
    case False
    then show ?thesis using t(1,3) i flds(2) by (simp add: generator_next_def Let_def restarted_def)
  qed
qed

lemma template_of_next:
  assumes "gen_inv g"
  shows "template_of (g_structure g) (next_temporal_id g) = Some (cur_template g)"
proof -
  note t = structure_for_template [OF assms]
  have "int (template_index (g_structure g) (next_temporal_id g)) = int (unat (next_temporal_id g) mod 64)"
    by (simp add: template_index_int t(3) zmod_int)
  then have "template_index (g_structure g) (next_temporal_id g) = unat (next_temporal_id g) mod 64"
    by (simp only: of_nat_eq_iff)
  then show ?thesis using t(1,6) by (simp add: template_of_def)
qed

lemma generator_next_wf:
  assumes "gen_inv g"
  shows "descriptor_wf (g_structure g) (fst (generator_next kf g))"
    and "length (deps_bits (dd_fields (fst (generator_next kf g))) (frame_dependencies (fst (generator_next kf g)))) \<le> 10"
    and "attached_structure (fst (generator_next kf g)) = (if kf then Some (g_structure g) else None)"
    and "active_decode_targets (fst (generator_next kf g)) = None"
proof -
  let ?g = "restarted kf g"
  have g: "gen_inv ?g" by (rule gen_inv_restarted [OF assms])
  have dd: "fst (generator_next kf g) = \<lparr>start_of_frame = True, end_of_frame = True,
       template_id = next_temporal_id ?g, frame_number = g_frame_number g,
       attached_structure = (if kf then Some (g_structure g) else None), active_decode_targets = None,
       dd_fields = fields_of False kf kf,
       frame_dependencies = (if kf then (cur_template ?g)\<lparr>frame_diffs := [], chain_diffs := [0]\<rparr>
                             else cur_template ?g),
       resolution = None\<rparr>" by (rule generator_next_dd [OF assms])
  have t: "template_of (g_structure g) (next_temporal_id ?g) = Some (cur_template ?g)"
    using template_of_next [OF g] by simp
  have s: "resolutions (g_structure g) = []" "unat (next_temporal_id ?g) < 3"
    "unat (chain_count (g_structure g)) = 1"
    using structure_for_template(4,6,7) [OF g] by simp_all
  have d: "deps_wf (fields_of False kf kf) (unat (decode_target_count (g_structure g)))
      (unat (chain_count (g_structure g))) (cur_template ?g)
      (if kf then (cur_template ?g)\<lparr>frame_diffs := [], chain_diffs := [0]\<rparr> else cur_template ?g)"
    unfolding s by (cases kf) (simp_all add: deps_wf_def)
  show "descriptor_wf (g_structure g) (fst (generator_next kf g))"
    unfolding dd descriptor_wf_def
    using t d s(1,2) fields_raw_less [of False kf kf] by (simp add: get_at_def)
  show "length (deps_bits (dd_fields (fst (generator_next kf g))) (frame_dependencies (fst (generator_next kf g)))) \<le> 10"
    unfolding dd by (cases kf) (simp_all add: deps_bits_def custom_fdiffs_bits_def chain_bits_def)
  show "attached_structure (fst (generator_next kf g)) = (if kf then Some (g_structure g) else None)"
    "active_decode_targets (fst (generator_next kf g)) = None"
    unfolding dd by simp_all
qed

lemma packet_descriptor_simps [simp]:
  "template_id (packet_descriptor dd n i) = template_id dd"
  "frame_number (packet_descriptor dd n i) = frame_number dd"
  "active_decode_targets (packet_descriptor dd n i) = active_decode_targets dd"
  "dd_fields (packet_descriptor dd n i) = dd_fields dd"
  "frame_dependencies (packet_descriptor dd n i) = frame_dependencies dd"
  "resolution (packet_descriptor dd n i) = resolution dd"
  "attached_structure (packet_descriptor dd n i) = (if i \<noteq> 0 then None else attached_structure dd)"
  by (simp_all add: packet_descriptor_def)

text \<open>The descriptor of every packet of a frame is well formed and short.\<close>

lemma packet_descriptor_wf:
  fixes kf :: bool and n i :: nat
  assumes "gen_inv g"
  defines "dd \<equiv> packet_descriptor (fst (generator_next kf g)) n i"
  shows "descriptor_wf (g_structure g) dd" "length (descriptor_bits (g_structure g) dd) \<le> 139"
    "attached_structure dd = (if kf \<and> i = 0 then Some (g_structure g) else None)"
proof -
  note w = generator_next_wf [OF assms(1), of kf]
  show "descriptor_wf (g_structure g) dd"
    using w(1) unfolding dd_def descriptor_wf_def packet_descriptor_simps .
  show a: "attached_structure dd = (if kf \<and> i = 0 then Some (g_structure g) else None)"
    using w(3) by (cases kf) (simp_all add: dd_def)
  have "length (structure_bits (g_structure g)) \<le> 100"
    using structure_for_bits [of "g_layers g"] assms(1) by (metis fst_conv gen_inv_def)
  then have "length (case attached_structure dd of Some s \<Rightarrow> structure_bits s | None \<Rightarrow> []) \<le> 100"
    unfolding a by simp
  moreover have "active_decode_targets dd = None" "length (deps_bits (dd_fields dd) (frame_dependencies dd)) \<le> 10"
    unfolding dd_def packet_descriptor_simps by (fact w(4), fact w(2))
  ultimately have "length (extended_bits (g_structure g) dd) \<le> 5 + 100 + 10"
    by (simp add: extended_bits_def)
  then show "length (descriptor_bits (g_structure g) dd) \<le> 139"
    by (simp add: descriptor_bits_def)
qed

subsection \<open>The encoded stream\<close>

fun read_all :: "DependencyDescriptorReader \<Rightarrow> u8 list list \<Rightarrow>
    DdReadError + (DependencyDescriptor list \<times> DependencyDescriptorReader)" where
  "read_all d [] = Inr ([], d)"
| "read_all d (b # bs) = and_then (read_dd d b) (\<lambda>(dd, d).
     and_then (read_all d bs) (\<lambda>(dds, d). Inr (dd # dds, d)))"

fun run_source :: "(bool \<times> nat) list \<Rightarrow> TemporalDdSource \<Rightarrow> DdWriteError + u8 list list" where
  "run_source [] src = Inr []"
| "run_source ((kf, n) # fs) src = (case next_frame kf n src of
     (src, Inl e) \<Rightarrow> Inl e
   | (src, Inr ps) \<Rightarrow> and_then (run_source fs src) (\<lambda>qs. Inr (ps @ qs)))"

fun generate :: "bool list \<Rightarrow> TemporalDdGenerator \<Rightarrow> DependencyDescriptor list" where
  "generate [] g = []"
| "generate (kf # kfs) g = fst (generator_next kf g) # generate kfs (snd (generator_next kf g))"

definition frame_packets :: "(bool \<times> nat) \<times> DependencyDescriptor \<Rightarrow> DependencyDescriptor list" where
  "frame_packets = (\<lambda>((kf, n), dd). map (packet_descriptor dd n) [0..<n])"

lemma read_all_append:
  "read_all d (xs @ ys) = and_then (read_all d xs) (\<lambda>(as, d). and_then (read_all d ys) (\<lambda>(bs, d). Inr (as @ bs, d)))"
proof (induction xs arbitrary: d)
  case Nil
  show ?case by (cases "read_all d ys") auto
next
  case (Cons x xs)
  then show ?case by (simp add: and_then_assoc(2))
qed

lemma write_read_one:
  assumes sw: "structure_wf s" and dw: "descriptor_wf s dd" and a: "in_force (wr_structure w) dd = Some s"
    and r: "rd_structure d = wr_structure w" and n: "length (descriptor_bits s dd) \<le> 139"
  shows "\<exists>len buf d'. write_dd w dd (replicate 255 0) = Inr (len, buf, w\<lparr>wr_structure := Some s\<rparr>) \<and>
     len \<le> length buf \<and> len \<le> 18 \<and> read_dd d (take len buf) = Inr (dd, d') \<and> rd_structure d' = Some s"
proof -
  let ?n = "length (descriptor_bits s dd)" and ?l = "(length (descriptor_bits s dd) + 7) div 8"
  from write_dd_spec [OF sw dw a, of "replicate 255 0"] n obtain buf where
    b: "write_dd w dd (replicate 255 0) = Inr (?l, buf, w\<lparr>wr_structure := Some s\<rparr>)"
    and sb: "stream_bits (take ?l buf) = descriptor_bits s dd @ replicate (8 * ?l - ?n) False" by auto
  have "8 * length (take ?l buf) = ?n + (8 * ?l - ?n)" using arg_cong [OF sb, of length] by simp
  then have "?l \<le> length buf" by (simp add: min_def split: if_splits)
  have p: "parse d (take ?l buf) = Inr dd"
    by (rule parse_descriptor [OF sw dw _ sb]) (use a r n in auto)
  have "rd_structure (commit dd d) = Some s"
    using a r by (auto simp: commit_def in_force_def Let_def split: option.splits)
  with b p \<open>?l \<le> length buf\<close> n show ?thesis by (simp add: read_dd_def)
qed

definition source_inv :: "TemporalDdSource \<Rightarrow> bool" where
  "source_inv src \<longleftrightarrow> gen_inv (ts_generator src) \<and>
     wr_structure (ts_writer src) \<in> {None, Some (g_structure (ts_generator src))}"

lemma write_packets_decode:
  assumes g: "gen_inv g"
    and dd: "dd = fst (generator_next kf g)"
    and "wr_structure w = Some (g_structure g) \<or> kf \<and> is \<noteq> [] \<and> hd is = 0" and "rd_structure d = wr_structure w"
  shows "\<exists>w' ps d'. write_packets dd n is w = (w', Inr ps) \<and> length ps = length is \<and>
     read_all d ps = Inr (map (packet_descriptor dd n) is, d') \<and>
     wr_structure w' = Some (g_structure g) \<and> rd_structure d' = wr_structure w'"
  using assms(3-)
proof (induction "is" arbitrary: w d)
  case Nil
  then show ?case by simp
next
  case (Cons i "is")
  let ?p = "packet_descriptor dd n i"
  note pw = packet_descriptor_wf [OF g, of kf n i, folded dd]
  have sw: "structure_wf (g_structure g)"
    using structure_for_wf [of "g_layers g"] g by (metis fst_conv gen_inv_def)
  have a: "in_force (wr_structure w) ?p = Some (g_structure g)"
    using Cons.prems(1) pw(3) by (auto simp: in_force_def)
  from write_read_one [OF sw pw(1) a Cons.prems(2) pw(2)] obtain len buf d1 where
    1: "write_dd w ?p (replicate 255 0) = Inr (len, buf, w\<lparr>wr_structure := Some (g_structure g)\<rparr>)"
      "len \<le> length buf" "read_dd d (take len buf) = Inr (?p, d1)" "rd_structure d1 = Some (g_structure g)" by blast
  let ?w = "w\<lparr>wr_structure := Some (g_structure g)\<rparr>"
  from Cons.IH [of ?w d1] 1(4) obtain w' ps d' where
    2: "write_packets dd n is ?w = (w', Inr ps)" "length ps = length is"
      "read_all d1 ps = Inr (map (packet_descriptor dd n) is, d')"
      "wr_structure w' = Some (g_structure g)" "rd_structure d' = wr_structure w'" by auto
  have "write_packets dd n (i # is) w = (w', Inr (take len buf # ps))"
    using 1(1,2) 2(1) by (simp add: get_range_def)
  moreover have "read_all d (take len buf # ps) = Inr (map (packet_descriptor dd n) (i # is), d')"
    using 1(3) 2(3) by simp
  ultimately show ?case using 2(2,4,5) by (intro exI [of _ w'] exI [of _ "take len buf # ps"] exI [of _ d']) simp
qed

lemma run_source_decode:
  assumes "source_inv src" and "wr_structure (ts_writer src) \<noteq> None \<or> fs = [] \<or> fst (hd fs)"
    and "\<forall>(kf, n) \<in> set fs. 0 < n" and "rd_structure d = wr_structure (ts_writer src)"
  shows "\<exists>ps d'. run_source fs src = Inr ps \<and> length ps = sum_list (map snd fs) \<and>
     read_all d ps =
       Inr (concat (map frame_packets (zip fs (generate (map fst fs) (ts_generator src)))), d')"
  using assms
proof (induction fs arbitrary: src d)
  case Nil
  then show ?case by simp
next
  case (Cons f fs)
  obtain kf n where f: "f = (kf, n)" by (cases f)
  let ?g = "ts_generator src" and ?w = "ts_writer src"
  let ?dd = "fst (generator_next kf ?g)" and ?g' = "snd (generator_next kf ?g)"
  have g: "gen_inv ?g" using Cons.prems(1) by (simp add: source_inv_def)
  have n: "0 < n" using Cons.prems(3) f by auto
  have "wr_structure ?w = Some (g_structure ?g) \<or> kf \<and> [0..<n] \<noteq> [] \<and> hd [0..<n] = 0"
    using Cons.prems(1,2) f n by (auto simp: source_inv_def)
  from write_packets_decode [OF g refl this Cons.prems(4), of n] obtain w' ps d1 where
    1: "write_packets ?dd n [0..<n] ?w = (w', Inr ps)" "length ps = n"
      "read_all d ps = Inr (map (packet_descriptor ?dd n) [0..<n], d1)"
      "wr_structure w' = Some (g_structure ?g)" "rd_structure d1 = wr_structure w'" by auto
  let ?src = "\<lparr>ts_generator = ?g', ts_writer = w'\<rparr>"
  have nf: "next_frame kf n src = (?src, Inr ps)"
    using 1(1) by (cases "generator_next kf ?g") (simp add: next_frame_def)
  have gs: "g_structure ?g' = g_structure ?g" by (simp add: snd_generator_next)
  have "source_inv ?src" using gen_inv_next [OF g] 1(4) gs by (simp add: source_inv_def)
  from Cons.IH [of ?src d1] this 1(4,5) Cons.prems(3) obtain qs d2 where
    2: "run_source fs ?src = Inr qs" "length qs = sum_list (map snd fs)" "read_all d1 qs =
      Inr (concat (map frame_packets (zip fs (generate (map fst fs) ?g'))), d2)"
    by auto
  have "generate (map fst (f # fs)) ?g = ?dd # generate (map fst fs) ?g'"
    by (cases "generator_next kf ?g") (simp add: f)
  then show ?case
    using 1 2 by (simp add: f nf read_all_append frame_packets_def)
qed

text \<open>
  C5. Whatever the number of layers asked for, a stream of frames that starts with a keyframe, each
  frame split over at least one packet, is encoded without error, one descriptor per packet, and a
  fresh reader that receives the packets in order decodes every one of them to the descriptor the
  generator built for the frame, with the packet's position in the frame.
\<close>

theorem temporal_stream_decodes:
  assumes "fs = [] \<or> fst (hd fs)" and "list_all (\<lambda>(kf, n). 0 < n) fs"
  shows "\<exists>ps d'. run_source fs (source_new layers) = Inr ps \<and>
     length ps = sum_list (map snd fs) \<and> read_all reader_default ps =
       Inr (concat (map frame_packets (zip fs (generate (map fst fs) (generator_new layers)))), d')"
proof -
  have "source_inv (source_new layers)"
    by (simp add: source_inv_def source_new_def gen_inv_new writer_default_def)
  moreover have "rd_structure reader_default = wr_structure (ts_writer (source_new layers))"
    by (simp add: reader_default_def source_new_def writer_default_def)
  moreover have "ts_generator (source_new layers) = generator_new layers" by (simp add: source_new_def)
  ultimately show ?thesis
    using run_source_decode [of "source_new layers" fs reader_default] assms
    by (auto simp: list_all_iff)
qed

theorem temporal_stream_decodes_witness:
  "\<exists>ps d'. run_source [(True, 2), (False, 1), (False, 3)] (source_new 3) = Inr ps \<and>
     length ps = 6 \<and> read_all reader_default ps = Inr (concat (map frame_packets
       (zip [(True, 2), (False, 1), (False, 3)] (generate [True, False, False] (generator_new 3)))), d')"
  using temporal_stream_decodes [of "[(True, 2), (False, 1), (False, 3)]" 3]
  by (simp del: generate.simps)

subsection \<open>Dependencies inside a group of pictures\<close>

text \<open>The generator when it is about to produce frame \<open>i\<close> after a keyframe.\<close>

definition gen_at :: "TemporalDdGenerator \<Rightarrow> nat \<Rightarrow> TemporalDdGenerator" where
  "gen_at g i = g\<lparr>g_frame_number := g_frame_number g + of_nat i, g_position := i mod length (g_pattern g)\<rparr>"

lemma gen_at_next:
  "g_pattern g \<noteq> [] \<Longrightarrow> snd (generator_next (i = 0) (gen_at g i)) = gen_at g (Suc i)"
  by (cases "i = 0") (simp_all add: snd_generator_next gen_at_def mod_Suc_eq mod_simps)

lemma generate_deltas:
  "g_pattern g \<noteq> [] \<Longrightarrow> j < n \<Longrightarrow> 0 < i \<Longrightarrow>
     generate (replicate n False) (gen_at g i) ! j = fst (generator_next False (gen_at g (i + j)))"
proof (induction n arbitrary: i j)
  case (Suc n)
  have "snd (generator_next False (gen_at g i)) = gen_at g (Suc i)"
    using gen_at_next [OF Suc.prems(1), of i] Suc.prems(3) by simp
  with Suc show ?case by (cases j) simp_all
qed simp

lemma generate_gop:
  assumes "gen_inv g" and "i \<le> n"
  shows "generate (True # replicate n False) g ! i = fst (generator_next (i = 0) (gen_at g i))"
proof -
  have p: "g_pattern g \<noteq> []" using assms(1) by (auto simp: gen_inv_def)
  have r: "generator_next True g = generator_next True (gen_at g 0)"
    by (simp add: gen_at_def generator_next_def Let_def)
  show ?thesis
  proof (cases i)
    case 0
    then show ?thesis by (simp add: r)
  next
    case (Suc j)
    with assms(2) show ?thesis
      using gen_at_next [OF p, of 0] generate_deltas [OF p, of j n 1] by (simp add: r)
  qed
qed

lemma gen_inv_at: "gen_inv g \<Longrightarrow> gen_inv (gen_at g i)"
proof -
  assume g: "gen_inv g"
  then have "i mod length (g_pattern g) < length (g_pattern g)" by (intro mod_less_divisor) (auto simp: gen_inv_def)
  with g show ?thesis by (simp add: gen_inv_def gen_at_def)
qed

lemma cur_template_at:
  "cur_template (gen_at g i) = templates (g_structure g) ! unat (g_pattern g ! (i mod length (g_pattern g)))"
  if "g_pattern g \<noteq> []"
  using that by (simp add: cur_template_def gen_at_def next_temporal_id_def get_at_def)

text \<open>
  The distance \<open>d\<close> from frame \<open>i\<close> back to the frame it references, and the layers of both.
\<close>

lemma reference_step:
  assumes "gen_inv g" and "0 < i"
  shows "\<exists>d. frame_diffs (cur_template (gen_at g i)) = [d] \<and> unat d \<le> i \<and>
     (\<forall>k. (case get_at (dtis (cur_template (gen_at g i))) k of None \<Rightarrow> False | Some x \<Rightarrow> x \<noteq> NotPresent) \<longrightarrow>
          (case get_at (dtis (cur_template (gen_at g (i - unat d)))) k of None \<Rightarrow> False | Some x \<Rightarrow> x \<noteq> NotPresent))"
  using assms(1)
proof (cases rule: gen_inv_cases)
  case L1
  then have s: "g_pattern g = [0]" "templates (g_structure g) = [mk_template 0 ''S'' [1]]"
    by (simp_all add: structure_for_def)
  show ?thesis using assms(2) s by (simp add: cur_template_at s mk_template_def)
next
  case (L2 p)
  then have s: "g_pattern g = [0, 1]"
    "templates (g_structure g) = [mk_template 0 ''SS'' [2], mk_template 1 ''-D'' [1]]"
    by (simp_all add: structure_for_def)
  have c: "cur_template (gen_at g j) = (if j mod 2 = 0 then mk_template 0 ''SS'' [2] else mk_template 1 ''-D'' [1])" for j
  proof -
    have "j mod 2 < 2" by simp
    then show ?thesis by (auto simp: cur_template_at s numeral_2_eq_2 [symmetric] less_2_cases_iff)
  qed
  have "i mod 2 = 0 \<and> 2 \<le> i \<and> (i - 2) mod 2 = 0 \<or> i mod 2 = 1 \<and> (i - 1) mod 2 = 0"
    using assms(2) by presburger
  then show ?thesis
    by (elim disjE conjE) (simp_all add: c mk_template_def get_at_def dti_spec_def nth_Cons' less_Suc_eq)
next
  case (L3 p)
  then have s: "g_pattern g = [0, 2, 1, 2]" "templates (g_structure g) =
      [mk_template 0 ''SSS'' [4], mk_template 1 ''-SS'' [2], mk_template 2 ''--D'' [1]]"
    by (simp_all add: structure_for_def)
  have c: "cur_template (gen_at g j) = (if j mod 4 = 0 then mk_template 0 ''SSS'' [4]
      else if j mod 4 = 2 then mk_template 1 ''-SS'' [2] else mk_template 2 ''--D'' [1])" for j
  proof -
    have "j mod 4 \<in> {0, 1, 2, 3}" by auto
    moreover have "length (g_pattern g) = 4" by (simp add: s)
    ultimately show ?thesis by (auto simp: cur_template_at s)
  qed
  obtain q r where i: "i = 4 * q + r" and "r < 4"
    using mod_less_divisor [of 4 i] mult_div_mod_eq [of 4 i] by (metis zero_less_numeral)
  then have "r \<in> {0, 1, 2, 3}" by auto
  then consider q' where "i = 4 * Suc q'" | "i = 4 * q + 1" | "i = 4 * q + 2" | "i = 4 * q + 3"
    using assms(2) i by (cases q) auto
  moreover have "Suc (Suc (4 * q)) mod 4 = 2" by presburger
  ultimately show ?thesis
    by cases (simp_all add: c mk_template_def get_at_def dti_spec_def nth_Cons' less_Suc_eq)
qed

lemma gop_fields:
  assumes "gen_inv g" and "i \<le> n"
  defines "dd \<equiv> generate (True # replicate n False) g ! i"
  shows "dtis (frame_dependencies dd) = dtis (cur_template (gen_at g i))"
    "frame_number dd = g_frame_number g + of_nat i"
    "temporal_id (frame_dependencies dd) = temporal_id (cur_template (gen_at g i))"
    "frame_diffs (frame_dependencies dd) = (if i = 0 then [] else frame_diffs (cur_template (gen_at g i)))"
    "chain_diffs (frame_dependencies dd) = (if i = 0 then [0] else chain_diffs (cur_template (gen_at g i)))"
proof -
  have r: "restarted (i = 0) (gen_at g i) = gen_at g i" by (simp add: restarted_def gen_at_def)
  have fn: "g_frame_number (gen_at g i) = g_frame_number g + of_nat i" by (simp add: gen_at_def)
  have "dd = fst (generator_next (i = 0) (gen_at g i))"
    unfolding dd_def by (rule generate_gop [OF assms(1,2)])
  note dd = this [unfolded generator_next_dd [OF gen_inv_at [OF assms(1), of i], of "i = 0"] r fn]
  show "dtis (frame_dependencies dd) = dtis (cur_template (gen_at g i))"
    "frame_number dd = g_frame_number g + of_nat i"
    "temporal_id (frame_dependencies dd) = temporal_id (cur_template (gen_at g i))"
    "frame_diffs (frame_dependencies dd) = (if i = 0 then [] else frame_diffs (cur_template (gen_at g i)))"
    "chain_diffs (frame_dependencies dd) = (if i = 0 then [0] else chain_diffs (cur_template (gen_at g i)))"
    unfolding dd by (cases "i = 0"; simp)+
qed

text \<open>
  C6. Layers can be dropped: in a keyframe followed by any number of delta frames, a frame refers
  only to frames from the keyframe on, its frame difference is exactly the distance of the frame
  numbers (which wrap at 16 bits), and every decode target that contains the frame contains the
  frame it refers to.
\<close>

theorem temporal_layers_closed:
  assumes "gen_inv g" and "i \<le> n"
    and "d \<in> set (frame_diffs (frame_dependencies (generate (True # replicate n False) g ! i)))"
    and "is_in_decode_target (generate (True # replicate n False) g ! i) k"
  shows "unat d \<le> i \<and>
     frame_number (generate (True # replicate n False) g ! (i - unat d)) =
       frame_number (generate (True # replicate n False) g ! i) - d \<and>
     is_in_decode_target (generate (True # replicate n False) g ! (i - unat d)) k"
proof -
  have i: "0 < i" using assms(3) gop_fields(4) [OF assms(1,2)] by (cases "i = 0") simp_all
  from reference_step [OF assms(1) i] assms(3) gop_fields(4) [OF assms(1,2)] i
  have d: "unat d \<le> i" and k: "(case get_at (dtis (cur_template (gen_at g i))) k of None \<Rightarrow> False | Some x \<Rightarrow> x \<noteq> NotPresent) \<Longrightarrow>
      (case get_at (dtis (cur_template (gen_at g (i - unat d)))) k of None \<Rightarrow> False | Some x \<Rightarrow> x \<noteq> NotPresent)"
    by auto
  have le: "i - unat d \<le> n" using assms(2) by simp
  have "(of_nat (i - unat d) :: u16) = of_nat i - d" using d by (simp add: of_nat_diff)
  then show ?thesis
    using d k assms(4) gop_fields(1,2) [OF assms(1,2)] gop_fields(1,2) [OF assms(1) le]
    by (simp add: is_in_decode_target_def)
qed

theorem temporal_layers_closed_witness:
  "frame_number (generate (True # replicate 5 False) (generator_new 3) ! 2) = 3 - 1 \<and>
   is_in_decode_target (generate (True # replicate 5 False) (generator_new 3) ! 2) 2"
proof -
  have d: "frame_diffs (frame_dependencies (generate (True # replicate 5 False) (generator_new 3) ! 3)) = [1]"
    and k: "is_in_decode_target (generate (True # replicate 5 False) (generator_new 3) ! 3) 2"
    and f: "frame_number (generate (True # replicate 5 False) (generator_new 3) ! 3) = 3"
    by code_simp+
  show ?thesis
    using temporal_layers_closed [OF gen_inv_new, of 3 5 1 3 2] d k f by simp
qed

text \<open>
  The chain of an L1T3 stream does not protect the second frame of the top temporal layer of a
  period: its chain difference is 1, and the frame one before it is in temporal layer 1, not in the
  base layer the chain is meant to protect; the last base layer frame is three frames back.
\<close>

theorem l1t3_chain_diff_off_base:
  "map (\<lambda>dd. (temporal_id (frame_dependencies dd), chain_diffs (frame_dependencies dd)))
     (generate (True # replicate 4 False) (generator_new 3)) =
   [(0, [0]), (2, [1]), (1, [2]), (2, [1]), (0, [4])]"
  by code_simp

end
