(* ===== verification/Collections.thy ===== *)
theory Collections
  imports Prelude
begin

text \<open>
  The keyed collections the program uses.  \<open>BTreeMap\<close> is a list of entries with strictly increasing
  keys, so that iteration visits the entries in the order of the source; \<open>HashMap\<close> is a list of
  entries with distinct keys, of which only order-independent facts are used.  Both provide the
  contract \<open>keyed_store\<close>; what the components need beyond a single lookup (removal of a range of
  keys, the effect of a batch of insertions) is proved once from that contract.
\<close>

subsection \<open>The contract of a keyed store\<close>

locale keyed_store =
  fixes ok :: "'m \<Rightarrow> bool"
    and get :: "'m \<Rightarrow> 'k \<Rightarrow> 'v option"
    and put :: "'k \<Rightarrow> 'v \<Rightarrow> 'm \<Rightarrow> 'm"
    and del :: "'k \<Rightarrow> 'm \<Rightarrow> 'm"
  assumes ok_put: "ok m \<Longrightarrow> ok (put k v m)"
    and ok_del: "ok m \<Longrightarrow> ok (del k m)"
    and get_put: "ok m \<Longrightarrow> get (put k v m) k' = (if k' = k then Some v else get m k')"
    and get_del: "ok m \<Longrightarrow> get (del k m) k' = (if k' = k then None else get m k')"
begin

lemma ok_del_all: "ok m \<Longrightarrow> ok (fold del ks m)"
  by (induction ks arbitrary: m) (simp_all add: ok_del)

lemma get_del_all: "ok m \<Longrightarrow> get (fold del ks m) k = (if k \<in> set ks then None else get m k)"
  by (induction ks arbitrary: m) (auto simp: ok_del get_del)

lemma ok_put_all: "ok m \<Longrightarrow> ok (fold (\<lambda>(k, v). put k v) kvs m)"
  by (induction kvs arbitrary: m) (auto simp: ok_put)

lemma get_put_all:
  "ok m \<Longrightarrow> get (fold (\<lambda>(k, v). put k v) kvs m) k =
     (case map_of (rev kvs) k of Some v \<Rightarrow> Some v | None \<Rightarrow> get m k)"
proof (induction kvs arbitrary: m)
  case (Cons kv kvs)
  then show ?case
    by (cases kv) (simp add: ok_put get_put map_add_def split: option.split)
qed simp

end

subsection \<open>\<open>BTreeMap\<close>\<close>

type_synonym ('k, 'v) btree = "('k \<times> 'v) list"

definition bt_ok :: "('k::linorder, 'v) btree \<Rightarrow> bool" where
  "bt_ok m = sorted_wrt (<) (map fst m)"

definition bt_get :: "('k::linorder, 'v) btree \<Rightarrow> 'k \<Rightarrow> 'v option" where
  "bt_get m k = map_of m k"

fun bt_insert :: "'k::linorder \<Rightarrow> 'v \<Rightarrow> ('k, 'v) btree \<Rightarrow> ('k, 'v) btree" where
  "bt_insert k v [] = [(k, v)]"
| "bt_insert k v ((k', v') # m) =
     (if k < k' then (k, v) # (k', v') # m
      else if k = k' then (k, v) # m
      else (k', v') # bt_insert k v m)"

definition bt_remove :: "'k::linorder \<Rightarrow> ('k, 'v) btree \<Rightarrow> ('k, 'v) btree" where
  "bt_remove k m = filter (\<lambda>e. fst e \<noteq> k) m"

text \<open>\<open>iter().find(|(_, v)| P v)\<close>: the entry with the smallest key.\<close>

definition bt_find :: "('v \<Rightarrow> bool) \<Rightarrow> ('k::linorder, 'v) btree \<Rightarrow> ('k \<times> 'v) option" where
  "bt_find P m = find (\<lambda>e. P (snd e)) m"

lemma bt_ok_Nil [simp]: "bt_ok []"
  by (simp add: bt_ok_def)

lemma bt_ok_Cons [simp]: "bt_ok (e # m) \<longleftrightarrow> (\<forall>x \<in> set m. fst e < fst x) \<and> bt_ok m"
  by (auto simp: bt_ok_def)

lemma bt_ok_distinct: "bt_ok m \<Longrightarrow> distinct (map fst m)"
  by (induction m) (auto simp: bt_ok_def)

lemma set_bt_insert: "set (bt_insert k v m) \<subseteq> insert (k, v) (set m)"
  by (induction k v m rule: bt_insert.induct) auto

lemma bt_ok_insert: "bt_ok m \<Longrightarrow> bt_ok (bt_insert k v m)"
  using set_bt_insert by (induction k v m rule: bt_insert.induct) (fastforce split: if_splits)+

lemma bt_ok_filter: "bt_ok m \<Longrightarrow> bt_ok (filter P m)"
  by (induction m) auto

lemma bt_ok_remove: "bt_ok m \<Longrightarrow> bt_ok (bt_remove k m)"
  by (simp add: bt_remove_def bt_ok_filter)

lemma bt_get_above: "(\<forall>x \<in> set m. k < fst x) \<Longrightarrow> bt_get m k = None"
  by (induction m) (auto simp: bt_get_def)

lemma bt_get_insert:
  "bt_ok m \<Longrightarrow> bt_get (bt_insert k v m) k' = (if k' = k then Some v else bt_get m k')"
  by (induction k v m rule: bt_insert.induct) (auto simp: bt_get_def)

lemma bt_get_remove: "bt_get (bt_remove k m) k' = (if k' = k then None else bt_get m k')"
  by (induction m) (auto simp: bt_remove_def bt_get_def)

interpretation bt: keyed_store bt_ok bt_get bt_insert bt_remove
  by unfold_locales (simp_all add: bt_ok_insert bt_ok_remove bt_get_insert bt_get_remove)

lemma bt_get_iff: "bt_ok m \<Longrightarrow> bt_get m k = Some v \<longleftrightarrow> (k, v) \<in> set m"
  by (simp add: bt_get_def bt_ok_distinct)

lemma bt_empty_iff: "(\<forall>k. bt_get m k = None) \<longleftrightarrow> m = []"
  by (cases m) (auto simp: bt_get_def)

lemma bt_ext:
  assumes "bt_ok m" "bt_ok m'" and eq: "\<And>k. bt_get m k = bt_get m' k"
  shows "m = m'"
proof (rule map_sorted_distinct_set_unique [where f = fst])
  have "set m = set m'"
    using assms bt_get_iff by (metis prod.collapse subset_antisym subsetI)
  then show "set m = set m'" "inj_on fst (set m \<union> set m')"
    using bt_ok_distinct [OF assms(1)] by (simp_all add: distinct_map)
  show "sorted (map fst m)" "sorted (map fst m')" "distinct (map fst m)" "distinct (map fst m')"
    using assms(1,2) bt_ok_distinct by (auto simp: bt_ok_def strict_sorted_iff)
qed

lemma bt_find_None_iff: "bt_ok m \<Longrightarrow> bt_find P m = None \<longleftrightarrow> (\<forall>k v. bt_get m k = Some v \<longrightarrow> \<not> P v)"
  by (auto simp: bt_find_def find_None_iff bt_get_iff)

lemma bt_find_Some_iff:
  "bt_ok m \<Longrightarrow> bt_find P m = Some (k, v) \<longleftrightarrow>
     bt_get m k = Some v \<and> P v \<and> (\<forall>k' v'. k' < k \<longrightarrow> bt_get m k' = Some v' \<longrightarrow> \<not> P v')"
proof (induction m)
  case Nil
  then show ?case by (simp add: bt_find_def bt_get_def)
next
  case (Cons e m)
  obtain a b where e: "e = (a, b)" by (cases e)
  have a: "\<forall>x \<in> set m. a < fst x" and ok: "bt_ok m" using Cons.prems e by auto
  have lt: "bt_get m k' = Some v' \<Longrightarrow> a < k'" for k' v'
    using a bt_get_iff [OF ok] by fastforce
  show ?case
  proof (cases "P b")
    case True
    then have "bt_find P (e # m) = Some (a, b)" by (simp add: bt_find_def e)
    moreover have "bt_get (e # m) = (bt_get m)(a \<mapsto> b)" by (auto simp: bt_get_def e)
    ultimately show ?thesis
      using lt True by (auto split: if_splits) (metis less_asym)+
  next
    case False
    then have "bt_find P (e # m) = bt_find P m" by (simp add: bt_find_def e)
    moreover have "bt_get (e # m) = (bt_get m)(a \<mapsto> b)" by (auto simp: bt_get_def e)
    ultimately show ?thesis
      using Cons.IH [OF ok] False lt by (auto simp: less_imp_neq) (metis less_irrefl)
  qed
qed

subsection \<open>\<open>HashMap\<close>\<close>

type_synonym ('k, 'v) hmap = "('k \<times> 'v) list"

definition hm_ok :: "('k, 'v) hmap \<Rightarrow> bool" where
  "hm_ok m = distinct (map fst m)"

definition hm_get :: "('k, 'v) hmap \<Rightarrow> 'k \<Rightarrow> 'v option" where
  "hm_get m k = map_of m k"

definition hm_insert :: "'k \<Rightarrow> 'v \<Rightarrow> ('k, 'v) hmap \<Rightarrow> ('k, 'v) hmap" where
  "hm_insert k v m = (if k \<in> fst ` set m then map (\<lambda>e. if fst e = k then (k, v) else e) m else m @ [(k, v)])"

definition hm_remove :: "'k \<Rightarrow> ('k, 'v) hmap \<Rightarrow> ('k, 'v) hmap" where
  "hm_remove k m = filter (\<lambda>e. fst e \<noteq> k) m"

lemma hm_keys_insert: "map fst (hm_insert k v m) = (if k \<in> fst ` set m then map fst m else map fst m @ [k])"
  by (auto simp: hm_insert_def)

lemma hm_ok_insert: "hm_ok m \<Longrightarrow> hm_ok (hm_insert k v m)"
  by (simp add: hm_ok_def hm_keys_insert)

lemma hm_ok_remove: "hm_ok m \<Longrightarrow> hm_ok (hm_remove k m)"
  by (simp add: hm_ok_def hm_remove_def distinct_map_filter)

lemma hm_get_update: "map_of (map (\<lambda>e. if fst e = k then (k, v) else e) m) k' =
    (if k' = k \<and> k \<in> set (map fst m) then Some v else map_of m k')"
  by (induction m) force+

lemma hm_get_insert: "hm_get (hm_insert k v m) k' = (if k' = k then Some v else hm_get m k')"
proof (cases "k \<in> fst ` set m")
  case True
  then show ?thesis by (simp add: hm_get_def hm_insert_def hm_get_update)
next
  case False
  then have "map_of m k = None" by (simp add: map_of_eq_None_iff)
  with False show ?thesis by (auto simp: hm_get_def hm_insert_def map_add_def split: option.split)
qed

lemma hm_get_remove: "hm_get (hm_remove k m) k' = (if k' = k then None else hm_get m k')"
  by (induction m) (auto simp: hm_remove_def hm_get_def)

interpretation hm: keyed_store hm_ok hm_get hm_insert hm_remove
  by unfold_locales (simp_all add: hm_ok_insert hm_ok_remove hm_get_insert hm_get_remove)

end
