(* ===== verification/Framing.thy ===== *)
theory Framing
  imports Collections "HOL-Library.Multiset"
begin

text \<open>
  Codec-agnostic RTP framing, \<open>crates/pulsebeam-core/src/framing.rs\<close>: the packetizer that cuts an
  opaque frame into chunks and the depacketizer that joins them again by sequence number and framing
  flags.  The depacketizer's walk over consecutive sequence numbers is a \<open>loop\<close> that need not end,
  so it is a partial function whose value \<open>None\<close> means that it does not return.
\<close>

subsection \<open>The code\<close>

definition DEFAULT_MTU_PAYLOAD :: nat where "DEFAULT_MTU_PAYLOAD = 1100"

record FrameChunk =
  fc_data :: "u8 list"
  fc_start :: bool
  fc_end :: bool

record ReassembledFrame =
  rf_data :: "u8 list"
  rf_first_seq :: u64
  rf_last_seq :: u64

record FramePacketizer =
  fp_mtu :: nat

definition packetizer_new :: "nat \<Rightarrow> FramePacketizer" where
  "packetizer_new mtu = \<lparr>fp_mtu = max mtu 1\<rparr>"

definition packetizer_default :: FramePacketizer where
  "packetizer_default = packetizer_new DEFAULT_MTU_PAYLOAD"

definition packet_count :: "FramePacketizer \<Rightarrow> u8 list \<Rightarrow> nat" where
  "packet_count p frame = max ((length frame + fp_mtu p - 1) div fp_mtu p) 1"

definition packetize :: "FramePacketizer \<Rightarrow> u8 list \<Rightarrow> FrameChunk list" where
  "packetize p frame =
     (let mtu = fp_mtu p; packets = packet_count p frame
      in map (\<lambda>i. let start = i * mtu; end' = min ((i + 1) * mtu) (length frame)
           in \<lparr>fc_data = (case get_range frame start end' of Some d \<Rightarrow> d | None \<Rightarrow> []),
               fc_start = (i = 0), fc_end = (i = packets - 1)\<rparr>) [0..<packets])"

record BufferedPacket =
  bp_payload :: "u8 list"
  bp_start :: bool
  bp_end :: bool

record FrameDepacketizer =
  fd_parts :: "(u64, BufferedPacket) btree"
  fd_newest :: "u64 option"
  fd_window :: nat

definition depacketizer_new :: "nat \<Rightarrow> FrameDepacketizer" where
  "depacketizer_new window = \<lparr>fd_parts = [], fd_newest = None, fd_window = max window 1\<rparr>"

definition depacketizer_default :: FrameDepacketizer where
  "depacketizer_default = depacketizer_new 512"

text \<open>\<open>for s in a..=b\<close>\<close>

definition seq_range :: "u64 \<Rightarrow> u64 \<Rightarrow> u64 list" where
  "seq_range a b = map of_nat [unat a..<Suc (unat b)]"

partial_function (option) find_end :: "(u64, BufferedPacket) btree \<Rightarrow> u64 \<Rightarrow> u64 option option" where
  "find_end parts seq = (case bt_get parts seq of
     None \<Rightarrow> Some None
   | Some pkt \<Rightarrow> if bp_end pkt then Some (Some seq) else find_end parts (sat_add seq 1))"

declare find_end.simps [code]

definition try_emit_earliest :: "FrameDepacketizer \<Rightarrow> (ReassembledFrame option \<times> FrameDepacketizer) option" where
  "try_emit_earliest d =
     (case bt_find bp_start (fd_parts d) of
        None \<Rightarrow> Some (None, d)
      | Some (start_seq, _) \<Rightarrow>
          (case find_end (fd_parts d) start_seq of
             None \<Rightarrow> None
           | Some None \<Rightarrow> Some (None, d)
           | Some (Some seq) \<Rightarrow>
               (case those (map (bt_get (fd_parts d)) (seq_range start_seq seq)) of
                  None \<Rightarrow> Some (None, d)
                | Some pkts \<Rightarrow>
                    Some (Some \<lparr>rf_data = concat (map bp_payload pkts),
                                rf_first_seq = start_seq, rf_last_seq = seq\<rparr>,
                          d\<lparr>fd_parts := fold bt_remove (seq_range start_seq seq) (fd_parts d)\<rparr>))))"

function evict_loop :: "u64 \<Rightarrow> (u64, BufferedPacket) btree \<Rightarrow> (u64, BufferedPacket) btree" where
  "evict_loop low [] = []"
| "evict_loop low ((oldest, p) # m) =
     (if low \<le> oldest then (oldest, p) # m else evict_loop low (bt_remove oldest ((oldest, p) # m)))"
  by pat_completeness auto
termination
  by (relation "measure (\<lambda>(low, m). length m)") (auto simp: bt_remove_def less_Suc_eq_le)

definition evict_stale :: "FrameDepacketizer \<Rightarrow> FrameDepacketizer" where
  "evict_stale d = (case fd_newest d of
     None \<Rightarrow> d
   | Some newest \<Rightarrow> d\<lparr>fd_parts := evict_loop (sat_sub newest (of_nat (fd_window d))) (fd_parts d)\<rparr>)"

definition push :: "u64 \<Rightarrow> u8 list \<Rightarrow> bool \<Rightarrow> bool \<Rightarrow> FrameDepacketizer \<Rightarrow>
    (ReassembledFrame option \<times> FrameDepacketizer) option" where
  "push seq payload start_of_frame end_of_frame d =
     (let d = d\<lparr>fd_newest := Some (case fd_newest d of None \<Rightarrow> seq | Some n \<Rightarrow> max n seq)\<rparr>;
          d = d\<lparr>fd_parts := bt_insert seq \<lparr>bp_payload = payload, bp_start = start_of_frame,
                                         bp_end = end_of_frame\<rparr> (fd_parts d)\<rparr>
      in try_emit_earliest (evict_stale d))"

subsection \<open>The packetizer\<close>

definition chunk_at :: "nat \<Rightarrow> nat \<Rightarrow> u8 list \<Rightarrow> nat \<Rightarrow> FrameChunk" where
  "chunk_at mtu packets frame i =
     \<lparr>fc_data = take mtu (drop (i * mtu) frame), fc_start = (i = 0), fc_end = (i = packets - 1)\<rparr>"

lemma packet_count_bounds:
  assumes "0 < fp_mtu p"
  shows "length frame \<le> packet_count p frame * fp_mtu p" "1 \<le> packet_count p frame"
    "i < packet_count p frame \<Longrightarrow> i * fp_mtu p \<le> length frame"
proof -
  let ?m = "fp_mtu p" and ?n = "length frame"
  let ?q = "(?n + ?m - 1) div ?m"
  have "?n + ?m - 1 < ?q * ?m + ?m" using dividend_less_div_times [OF assms, of "?n + ?m - 1"] by linarith
  then have q: "?n \<le> ?q * ?m" using assms by linarith
  moreover have "?q \<le> packet_count p frame" by (simp add: packet_count_def)
  then have "?q * ?m \<le> packet_count p frame * ?m" by (rule mult_le_mono1)
  ultimately show "?n \<le> packet_count p frame * ?m" by (rule order_trans)
  show "1 \<le> packet_count p frame" by (simp add: packet_count_def)
  have "?q * ?m \<le> ?n + ?m - 1" by (rule div_times_less_eq_dividend)
  moreover assume "i < packet_count p frame"
  then have "i = 0 \<or> Suc i \<le> ?q" by (auto simp: packet_count_def max_def split: if_splits)
  then have "i = 0 \<or> i * ?m + ?m \<le> ?q * ?m"
    by (metis add.commute mult_Suc mult_le_mono1)
  ultimately show "i * ?m \<le> ?n" using assms by (elim disjE) (simp, linarith)
qed

lemma packetize_chunks:
  assumes "0 < fp_mtu p"
  shows "packetize p frame = map (chunk_at (fp_mtu p) (packet_count p frame) frame) [0..<packet_count p frame]"
proof -
  let ?m = "fp_mtu p"
  have "get_range frame (i * ?m) (min ((i + 1) * ?m) (length frame)) = Some (take ?m (drop (i * ?m) frame))"
    if "i < packet_count p frame" for i
    using packet_count_bounds(3) [OF assms that] by (auto simp: get_range_def min_def)
  then show ?thesis
    unfolding packetize_def Let_def chunk_at_def by (intro map_cong) simp_all
qed

lemma concat_chunks: "concat (map (\<lambda>i. take m (drop (i * m) xs)) [0..<n]) = take (n * m) xs"
proof (induction n)
  case (Suc n)
  have "take (n * m) xs @ take m (drop (n * m) xs) = take (n * m + m) xs" by (rule take_add [symmetric])
  with Suc show ?case by (simp add: add.commute)
qed simp

lemma concat_packetize:
  "0 < fp_mtu p \<Longrightarrow> concat (map fc_data (packetize p frame)) = frame"
  using concat_chunks [of "fp_mtu p" frame "packet_count p frame"] packet_count_bounds(1) [of p frame]
  by (simp add: packetize_chunks comp_def chunk_at_def)

subsection \<open>One push\<close>

lemma evict_loop_filter: "bt_ok m \<Longrightarrow> evict_loop low m = filter (\<lambda>e. low \<le> fst e) m"
proof (induction low m rule: evict_loop.induct)
  case (2 low oldest p m)
  have r: "bt_remove oldest ((oldest, p) # m) = m"
    using 2(2) by (fastforce simp: bt_remove_def filter_id_conv)
  show ?case
  proof (cases "low \<le> oldest")
    case True
    with 2(2) have "\<forall>e \<in> set m. low \<le> fst e" by fastforce
    with True show ?thesis by (simp add: filter_id_conv)
  next
    case False
    then show ?thesis using 2 r by simp
  qed
qed simp

lemma bt_get_filter: "bt_get (filter (\<lambda>e. P (fst e)) m) k = (if P k then bt_get m k else None)"
  by (induction m) (auto simp: bt_get_def)

definition newest_after :: "u64 \<Rightarrow> FrameDepacketizer \<Rightarrow> u64" where
  "newest_after seq d = (case fd_newest d of None \<Rightarrow> seq | Some n \<Rightarrow> max n seq)"

definition low_mark :: "u64 \<Rightarrow> FrameDepacketizer \<Rightarrow> u64" where
  "low_mark seq d = sat_sub (newest_after seq d) (of_nat (fd_window d))"

definition stored :: "u64 \<Rightarrow> BufferedPacket \<Rightarrow> FrameDepacketizer \<Rightarrow> FrameDepacketizer" where
  "stored seq pkt d = evict_stale (d\<lparr>fd_newest := Some (newest_after seq d),
     fd_parts := bt_insert seq pkt (fd_parts d)\<rparr>)"

definition push_packet :: "u64 \<times> BufferedPacket \<Rightarrow> FrameDepacketizer \<Rightarrow>
    (ReassembledFrame option \<times> FrameDepacketizer) option" where
  "push_packet sp d = push (fst sp) (bp_payload (snd sp)) (bp_start (snd sp)) (bp_end (snd sp)) d"

lemma push_packet_stored: "push_packet (seq, pkt) d = try_emit_earliest (stored seq pkt d)"
  by (cases pkt) (simp add: push_packet_def push_def stored_def newest_after_def Let_def)

lemma stored_simps [simp]:
  "fd_newest (stored seq pkt d) = Some (newest_after seq d)"
  "fd_window (stored seq pkt d) = fd_window d"
  by (simp_all add: stored_def evict_stale_def)

lemma stored_parts:
  "bt_ok (fd_parts d) \<Longrightarrow>
     fd_parts (stored seq pkt d) = filter (\<lambda>e. low_mark seq d \<le> fst e) (bt_insert seq pkt (fd_parts d))"
  by (simp add: stored_def evict_stale_def evict_loop_filter bt_ok_insert low_mark_def)

lemma stored_ok: "bt_ok (fd_parts d) \<Longrightarrow> bt_ok (fd_parts (stored seq pkt d))"
  by (simp add: stored_parts bt_ok_filter bt_ok_insert)

lemma stored_get:
  "bt_ok (fd_parts d) \<Longrightarrow> bt_get (fd_parts (stored seq pkt d)) k =
     (if low_mark seq d \<le> k then if k = seq then Some pkt else bt_get (fd_parts d) k else None)"
  by (simp add: stored_parts bt_get_filter [where P = "\<lambda>k. low_mark seq d \<le> k"] bt_get_insert)

subsection \<open>The walk to the end of a frame\<close>

lemma unat_sat_add_1: "x \<noteq> - 1 \<Longrightarrow> unat (sat_add x 1 :: u64) = unat x + 1"
proof -
  assume x: "x \<noteq> - 1"
  have "unat x \<noteq> 2 ^ 64 - 1"
  proof
    assume "unat x = 2 ^ 64 - 1"
    then have "unat x = unat (- 1 :: u64)" by (simp add: unsigned_minus_1_eq_mask mask_eq_exp_minus_1)
    with x show False by (simp add: word_unat_eq_iff)
  qed
  then show ?thesis using unat_bounds(4) [of x] by (simp add: unat_sat_add)
qed

lemma find_end_sound:
  assumes "find_end parts s = Some (Some e)"
  shows "s \<le> e \<and> (\<exists>p. bt_get parts e = Some p \<and> bp_end p) \<and>
    (\<forall>k. s \<le> k \<and> k < e \<longrightarrow> (\<exists>p. bt_get parts k = Some p \<and> \<not> bp_end p))"
proof -
  have "\<forall>e. r = Some e \<longrightarrow> s \<le> e \<and> (\<exists>p. bt_get parts e = Some p \<and> bp_end p) \<and>
    (\<forall>k. s \<le> k \<and> k < e \<longrightarrow> (\<exists>p. bt_get parts k = Some p \<and> \<not> bp_end p))"
    if "find_end parts s = Some r" for r
  proof (rule find_end.raw_induct [OF _ that])
    fix walk :: "(u64, BufferedPacket) btree \<Rightarrow> u64 \<Rightarrow> u64 option option"
      and parts :: "(u64, BufferedPacket) btree" and seq :: u64 and r :: "u64 option"
    assume 1: "\<And>parts s r. walk parts s = Some r \<Longrightarrow>
        \<forall>e. r = Some e \<longrightarrow> s \<le> e \<and> (\<exists>p. bt_get parts e = Some p \<and> bp_end p) \<and>
          (\<forall>k. s \<le> k \<and> k < e \<longrightarrow> (\<exists>p. bt_get parts k = Some p \<and> \<not> bp_end p))"
      "(case bt_get parts seq of None \<Rightarrow> Some None
        | Some pkt \<Rightarrow> if bp_end pkt then Some (Some seq) else walk parts (sat_add seq 1)) = Some r"
    show "\<forall>e. r = Some e \<longrightarrow> seq \<le> e \<and> (\<exists>p. bt_get parts e = Some p \<and> bp_end p) \<and>
        (\<forall>k. seq \<le> k \<and> k < e \<longrightarrow> (\<exists>p. bt_get parts k = Some p \<and> \<not> bp_end p))"
    proof (cases "bt_get parts seq")
      case None
      with 1(2) show ?thesis by simp
    next
      case (Some pkt)
      show ?thesis
      proof (cases "bp_end pkt")
        case True
        with Some 1(2) show ?thesis by auto
      next
        case False
        with Some 1 have ih: "\<forall>e. r = Some e \<longrightarrow> sat_add seq 1 \<le> e \<and> (\<exists>p. bt_get parts e = Some p \<and> bp_end p) \<and>
          (\<forall>k. sat_add seq 1 \<le> k \<and> k < e \<longrightarrow> (\<exists>p. bt_get parts k = Some p \<and> \<not> bp_end p))" by simp
        have le: "seq \<le> sat_add seq 1" by (simp add: word_le_nat_alt unat_sat_add min_def)
          (use unat_bounds(4) [of seq] in linarith)
        have or: "k = seq \<or> sat_add seq 1 \<le> k" if "seq \<le> k" for k
          using that unat_sat_add [of seq 1] by (auto simp: word_le_nat_alt word_unat_eq_iff)
        show ?thesis
        proof (intro allI impI)
          fix e assume "r = Some e"
          with ih have "sat_add seq 1 \<le> e" "\<exists>p. bt_get parts e = Some p \<and> bp_end p"
            "\<forall>k. sat_add seq 1 \<le> k \<and> k < e \<longrightarrow> (\<exists>p. bt_get parts k = Some p \<and> \<not> bp_end p)" by auto
          then show "seq \<le> e \<and> (\<exists>p. bt_get parts e = Some p \<and> bp_end p) \<and>
            (\<forall>k. seq \<le> k \<and> k < e \<longrightarrow> (\<exists>p. bt_get parts k = Some p \<and> \<not> bp_end p))"
            using le or Some False order_trans [OF le] by auto
        qed
      qed
    qed
  qed
  with assms show ?thesis by blast
qed

lemma find_end_step:
  "bt_get parts s = Some p \<Longrightarrow> \<not> bp_end p \<Longrightarrow> find_end parts s = find_end parts (sat_add s 1)"
  "bt_get parts s = Some p \<Longrightarrow> bp_end p \<Longrightarrow> find_end parts s = Some (Some s)"
  "bt_get parts s = None \<Longrightarrow> find_end parts s = Some None"
  by (subst find_end.simps, simp)+

lemma find_end_returns:
  assumes "\<forall>p. bt_get parts (- 1) = Some p \<longrightarrow> bp_end p"
  shows "find_end parts s \<noteq> None"
proof (induction "2 ^ 64 - unat s" arbitrary: s rule: less_induct)
  case less
  show ?case
  proof (cases "\<exists>p. bt_get parts s = Some p \<and> \<not> bp_end p")
    case True
    then obtain p where p: "bt_get parts s = Some p" "\<not> bp_end p" by blast
    with assms have "s \<noteq> - 1" by auto
    then have "2 ^ 64 - unat (sat_add s 1) < 2 ^ 64 - unat s"
      using unat_bounds(4) [of s] by (simp add: unat_sat_add_1)
    from less [OF this] p show ?thesis by (simp add: find_end_step)
  next
    case False
    then show ?thesis
      by (cases "bt_get parts s") (auto simp: find_end_step)
  qed
qed

lemma find_end_diverges:
  assumes "bt_get parts (- 1) = Some p" and "\<not> bp_end p"
  shows "find_end parts (- 1) = None"
proof -
  have "\<not> (s = - 1 \<and> (\<exists>p. bt_get parts s = Some p \<and> \<not> bp_end p))" if "find_end parts s = Some r" for r s
  proof (rule find_end.raw_induct [OF _ that])
    fix walk :: "(u64, BufferedPacket) btree \<Rightarrow> u64 \<Rightarrow> u64 option option"
      and parts :: "(u64, BufferedPacket) btree" and seq :: u64 and r :: "u64 option"
    assume 1: "\<And>parts s r. walk parts s = Some r \<Longrightarrow>
        \<not> (s = - 1 \<and> (\<exists>p. bt_get parts s = Some p \<and> \<not> bp_end p))"
      "(case bt_get parts seq of None \<Rightarrow> Some None
        | Some pkt \<Rightarrow> if bp_end pkt then Some (Some seq) else walk parts (sat_add seq 1)) = Some r"
    have "sat_add (- 1) 1 = (- 1 :: u64)" by (simp add: sat_add_def word_gt_0)
    with 1 show "\<not> (seq = - 1 \<and> (\<exists>p. bt_get parts seq = Some p \<and> \<not> bp_end p))"
      by (auto split: if_splits)
  qed
  with assms show ?thesis by (cases "find_end parts (- 1)") auto
qed

subsection \<open>No torn frames\<close>

fun push_all :: "(u64 \<times> BufferedPacket) list \<Rightarrow> FrameDepacketizer \<Rightarrow>
    (ReassembledFrame list \<times> FrameDepacketizer) option" where
  "push_all [] d = Some ([], d)"
| "push_all (sp # sps) d = (case push_packet sp d of
     None \<Rightarrow> None
   | Some (f, d) \<Rightarrow> (case push_all sps d of
       None \<Rightarrow> None
     | Some (fs, d) \<Rightarrow> Some ((case f of None \<Rightarrow> fs | Some f \<Rightarrow> f # fs), d)))"

text \<open>A frame is whole over a set of packets: they have consecutive sequence numbers, the first
  opens the frame, only the last closes it, and the frame is their payloads in order.\<close>

definition whole_frame :: "(u64 \<times> BufferedPacket) set \<Rightarrow> ReassembledFrame \<Rightarrow> bool" where
  "whole_frame S f \<longleftrightarrow> rf_first_seq f \<le> rf_last_seq f \<and>
     (\<exists>pkts. list_all2 (\<lambda>s p. (s, p) \<in> S) (seq_range (rf_first_seq f) (rf_last_seq f)) pkts \<and>
        bp_start (hd pkts) \<and> bp_end (last pkts) \<and> (\<forall>p \<in> set (butlast pkts). \<not> bp_end p) \<and>
        rf_data f = concat (map bp_payload pkts))"

lemma whole_frame_mono: "whole_frame S f \<Longrightarrow> S \<subseteq> T \<Longrightarrow> whole_frame T f"
  unfolding whole_frame_def by (metis (mono_tags, lifting) list.rel_mono_strong subsetD)

lemma those_Some_iff: "those (map g xs) = Some ys \<longleftrightarrow> list_all2 (\<lambda>x y. g x = Some y) xs ys"
proof (induction xs arbitrary: ys)
  case (Cons x xs)
  then show ?case by (cases ys) (auto split: option.splits)
qed auto

lemma set_seq_range: "set (seq_range a b) = {a..b}"
proof -
  have "x \<in> of_nat ` {unat a..unat b}" if "a \<le> x" "x \<le> b" for x :: u64
    using that by (intro image_eqI [of _ _ "unat x"]) (simp_all add: word_le_nat_alt)
  moreover have "a \<le> of_nat n \<and> of_nat n \<le> b" if "unat a \<le> n" "n \<le> unat b" for n
  proof -
    have "unat (of_nat n :: u64) = n" using that(2) unat_bounds(4) [of b] by (simp add: unat_of_nat_fits)
    then show ?thesis using that by (simp add: word_le_nat_alt)
  qed
  moreover have "set (seq_range a b) = of_nat ` {unat a..unat b}"
    by (simp add: seq_range_def atLeastLessThanSuc_atLeastAtMost del: upt_Suc)
  ultimately show ?thesis by auto
qed

lemma length_seq_range: "length (seq_range a b) = Suc (unat b) - unat a"
  by (simp add: seq_range_def Suc_diff_le)

lemma seq_range_nth: "i < Suc (unat b) - unat a \<Longrightarrow> seq_range a b ! i = a + of_nat i"
  by (simp add: seq_range_def del: upt_Suc)

lemma find_end_whole:
  assumes "find_end parts s = Some (Some e)" and "bt_get parts s = Some p" and "bp_start p"
    and "those (map (bt_get parts) (seq_range s e)) = Some pkts"
  shows "whole_frame {(k, p). bt_get parts k = Some p}
    \<lparr>rf_data = concat (map bp_payload pkts), rf_first_seq = s, rf_last_seq = e\<rparr>"
proof -
  note fe = find_end_sound [OF assms(1)]
  let ?n = "Suc (unat e) - unat s"
  have all2: "list_all2 (\<lambda>s p. bt_get parts s = Some p) (seq_range s e) pkts"
    using assms(4) by (simp add: those_Some_iff)
  have len: "length pkts = ?n" using list_all2_lengthD [OF all2] by (simp add: length_seq_range)
  have n: "0 < ?n" using fe by (simp add: word_le_nat_alt)
  have nth: "bt_get parts (s + of_nat i) = Some (pkts ! i)" if "i < ?n" for i
    using list_all2_nthD [OF all2, of i] that by (simp add: length_seq_range seq_range_nth)
  have last: "s + of_nat (?n - 1) = e" using fe by (simp add: of_nat_diff word_le_nat_alt)
  have "bt_get parts e = Some (pkts ! (?n - 1))" using nth [of "?n - 1"] n unfolding last by simp
  moreover have "pkts \<noteq> []" using n len by auto
  ultimately have "bp_end (last pkts)" using fe len by (auto simp: last_conv_nth)
  moreover have "hd pkts = p" using nth [of 0] n \<open>pkts \<noteq> []\<close> assms(2) by (simp add: hd_conv_nth)
  moreover have "\<not> bp_end q" if "q \<in> set (butlast pkts)" for q
  proof -
    from that obtain i where i: "i < ?n - 1" "q = pkts ! i"
      by (metis in_set_conv_nth length_butlast len nth_butlast)
    have "unat (s + of_nat i) = unat s + i"
      using i(1) unat_bounds(4) [of e] by (intro unat_plus_of_nat) simp
    then have "s \<le> s + of_nat i \<and> s + of_nat i < e" using i(1) by (simp add: word_le_nat_alt word_less_nat_alt)
    with fe nth [of i] i show ?thesis by auto
  qed
  ultimately show ?thesis using all2 fe assms(3) by (auto simp: whole_frame_def)
qed

lemma try_emit_parts:
  assumes ok: "bt_ok (fd_parts d)" and e: "try_emit_earliest d = Some (r, d')"
  shows "bt_ok (fd_parts d')" "bt_get (fd_parts d') k = Some p \<Longrightarrow> bt_get (fd_parts d) k = Some p"
    "r = Some f \<Longrightarrow> whole_frame {(k, p). bt_get (fd_parts d) k = Some p} f"
proof -
  have "bt_ok (fd_parts d') \<and> (bt_get (fd_parts d') k = Some p \<longrightarrow> bt_get (fd_parts d) k = Some p) \<and>
    (r = Some f \<longrightarrow> whole_frame {(k, p). bt_get (fd_parts d) k = Some p} f)"
  proof (cases "r")
    case None
    then have "d' = d" using e by (auto simp: try_emit_earliest_def split: option.splits)
    with ok None show ?thesis by simp
  next
    case (Some g)
    then obtain s q t pkts where
      1: "bt_find bp_start (fd_parts d) = Some (s, q)" "find_end (fd_parts d) s = Some (Some t)"
        "those (map (bt_get (fd_parts d)) (seq_range s t)) = Some pkts"
        "g = \<lparr>rf_data = concat (map bp_payload pkts), rf_first_seq = s, rf_last_seq = t\<rparr>"
        "fd_parts d' = fold bt_remove (seq_range s t) (fd_parts d)"
      using e by (auto simp: try_emit_earliest_def split: option.splits)
    have "bt_get (fd_parts d) s = Some q" "bp_start q"
      using 1(1) by (simp_all add: bt_find_Some_iff [OF ok])
    from find_end_whole [OF 1(2) this 1(3)] show ?thesis
      using 1 Some ok by (auto simp: bt.ok_del_all bt.get_del_all split: if_splits)
  qed
  then show "bt_ok (fd_parts d')" "bt_get (fd_parts d') k = Some p \<Longrightarrow> bt_get (fd_parts d) k = Some p"
    "r = Some f \<Longrightarrow> whole_frame {(k, p). bt_get (fd_parts d) k = Some p} f" by blast+
qed

lemma push_packet_parts:
  assumes ok: "bt_ok (fd_parts d)" and e: "push_packet sp d = Some (r, d')"
    and S: "\<forall>k p. bt_get (fd_parts d) k = Some p \<longrightarrow> (k, p) \<in> S"
  shows "bt_ok (fd_parts d')" "\<forall>k p. bt_get (fd_parts d') k = Some p \<longrightarrow> (k, p) \<in> insert sp S"
    "\<forall>f. r = Some f \<longrightarrow> whole_frame (insert sp S) f"
proof -
  obtain s p where sp: "sp = (s, p)" by (cases sp)
  let ?d = "stored s p d"
  have ok': "bt_ok (fd_parts ?d)" by (rule stored_ok [OF ok])
  have sub: "{(k, q). bt_get (fd_parts ?d) k = Some q} \<subseteq> insert sp S"
    using S by (auto simp: stored_get [OF ok] sp split: if_splits)
  note t = try_emit_parts [OF ok' e [unfolded sp push_packet_stored]]
  show "bt_ok (fd_parts d')" by (rule t(1))
  show "\<forall>k p. bt_get (fd_parts d') k = Some p \<longrightarrow> (k, p) \<in> insert sp S" using t(2) sub by blast
  show "\<forall>f. r = Some f \<longrightarrow> whole_frame (insert sp S) f" using whole_frame_mono [OF t(3) sub] by blast
qed

lemma push_all_whole:
  assumes "bt_ok (fd_parts d)" and "push_all ps d = Some (fs, d')"
    and "\<forall>k p. bt_get (fd_parts d) k = Some p \<longrightarrow> (k, p) \<in> S" and "f \<in> set fs"
  shows "whole_frame (S \<union> set ps) f"
  using assms
proof (induction ps arbitrary: d fs S)
  case (Cons sp ps)
  obtain r d1 where 1: "push_packet sp d = Some (r, d1)"
    using Cons.prems(2) by (cases "push_packet sp d") auto
  obtain gs where 2: "push_all ps d1 = Some (gs, d')" "fs = (case r of None \<Rightarrow> gs | Some f \<Rightarrow> f # gs)"
    using Cons.prems(2) 1 by (cases "push_all ps d1") auto
  note p = push_packet_parts [OF Cons.prems(1) 1 Cons.prems(3)]
  have "whole_frame (insert sp S \<union> set ps) f"
  proof (cases "r = Some f")
    case True
    then show ?thesis using p(3) whole_frame_mono by blast
  next
    case False
    then have "f \<in> set gs" using 2(2) Cons.prems(4) by (cases r) auto
    then show ?thesis by (rule Cons.IH [OF p(1) 2(1) p(2)])
  qed
  then show ?case by simp
qed simp

text \<open>
  C35. No frame is emitted torn: whatever packets arrive, in whatever order, lost or repeated, every
  frame the depacketizer emits is the concatenation of received packets with consecutive sequence
  numbers, of which the first carries the start flag, the last the end flag, and none before the
  last an end flag.
\<close>

theorem no_torn_frame:
  assumes "push_all ps (depacketizer_new window) = Some (fs, d)" and "f \<in> set fs"
  shows "whole_frame (set ps) f"
  using push_all_whole [of "depacketizer_new window" ps fs d "{}" f] assms
  by (simp add: depacketizer_new_def bt_get_def)

theorem no_torn_frame_witness:
  "whole_frame (set [(8, \<lparr>bp_payload = [3, 4], bp_start = False, bp_end = True\<rparr>),
                     (7, \<lparr>bp_payload = [1, 2], bp_start = True, bp_end = False\<rparr>)])
     \<lparr>rf_data = [1, 2, 3, 4], rf_first_seq = 7, rf_last_seq = 8\<rparr>"
proof (rule no_torn_frame)
  show "push_all [(8, \<lparr>bp_payload = [3, 4], bp_start = False, bp_end = True\<rparr>),
                  (7, \<lparr>bp_payload = [1, 2], bp_start = True, bp_end = False\<rparr>)] (depacketizer_new 16) =
    Some ([\<lparr>rf_data = [1, 2, 3, 4], rf_first_seq = 7, rf_last_seq = 8\<rparr>],
          \<lparr>fd_parts = [], fd_newest = Some 8, fd_window = 16\<rparr>)"
    by code_simp
qed simp

subsection \<open>Whether a push returns\<close>

lemma try_emit_returns:
  assumes "\<forall>p. bt_get (fd_parts d) (- 1) = Some p \<longrightarrow> bp_end p"
  shows "try_emit_earliest d \<noteq> None"
proof (cases "bt_find bp_start (fd_parts d)")
  case (Some sp)
  then show ?thesis using find_end_returns [OF assms, of "fst sp"]
    by (cases sp) (auto simp: try_emit_earliest_def split: option.splits)
qed (simp add: try_emit_earliest_def)

lemma push_all_returns:
  assumes "bt_ok (fd_parts d)" and "\<forall>k p. bt_get (fd_parts d) k = Some p \<longrightarrow> (k, p) \<in> S"
    and "\<forall>p. (- 1, p) \<in> S \<union> set ps \<longrightarrow> bp_end p"
  shows "push_all ps d \<noteq> None"
  using assms
proof (induction ps arbitrary: d S)
  case (Cons sp ps)
  obtain s p where sp: "sp = (s, p)" by (cases sp)
  have "bp_end q" if "bt_get (fd_parts (stored s p d)) (- 1) = Some q" for q
  proof -
    have "(- 1, q) \<in> insert sp S"
      using that Cons.prems(2) by (simp add: stored_get [OF Cons.prems(1)] sp split: if_splits)
    then show ?thesis using Cons.prems(3) by auto
  qed
  then have "push_packet sp d \<noteq> None" unfolding sp push_packet_stored by (intro try_emit_returns) blast
  then obtain r d1 where 1: "push_packet sp d = Some (r, d1)" by auto
  note p = push_packet_parts [OF Cons.prems(1) 1 Cons.prems(2)]
  have "push_all ps d1 \<noteq> None" using Cons.prems(3) by (intro Cons.IH [OF p(1,2)]) auto
  with 1 show ?case by auto
qed simp

text \<open>
  C36. The depacketizer returns on every packet sequence in which the largest sequence number, if it
  occurs, closes a frame.
\<close>

theorem depacketizer_returns:
  assumes "\<forall>p. (- 1, p) \<in> set ps \<longrightarrow> bp_end p"
  shows "\<exists>fs d. push_all ps (depacketizer_new window) = Some (fs, d)"
  using push_all_returns [of "depacketizer_new window" "{}" ps] assms
  by (auto simp: depacketizer_new_def bt_get_def)

theorem depacketizer_returns_witness:
  "\<exists>fs d. push_all [(- 2, \<lparr>bp_payload = [1], bp_start = True, bp_end = False\<rparr>),
     (- 1, \<lparr>bp_payload = [2], bp_start = False, bp_end = True\<rparr>)] (depacketizer_new 0) = Some (fs, d)"
  by (rule depacketizer_returns) simp

text \<open>
  C37. A packet with the largest sequence number that opens a frame without closing it sends the
  depacketizer into an endless loop, because the walk's saturating increment stays at that number.
\<close>

theorem depacketizer_hangs:
  "push (- 1) payload True False (depacketizer_new window) = None"
proof -
  let ?p = "\<lparr>bp_payload = payload, bp_start = True, bp_end = False\<rparr>"
  let ?d = "stored (- 1) ?p (depacketizer_new window)"
  have ok: "bt_ok (fd_parts (depacketizer_new window))" by (simp add: depacketizer_new_def)
  have get: "bt_get (fd_parts ?d) k = (if k = - 1 then Some ?p else None)" for k
    by (auto simp: stored_get [OF ok]) (simp_all add: depacketizer_new_def bt_get_def)
  have "bt_find bp_start (fd_parts ?d) = Some (- 1, ?p)"
    by (simp add: bt_find_Some_iff [OF stored_ok [OF ok]] get)
  moreover have "find_end (fd_parts ?d) (- 1) = None"
    by (rule find_end_diverges [where p = ?p]) (simp_all add: get)
  ultimately have "push_packet (- 1, ?p) (depacketizer_new window) = None"
    by (simp add: push_packet_stored try_emit_earliest_def)
  then show ?thesis by (simp add: push_packet_def)
qed

subsection \<open>Reassembly of a frame that arrives in any order\<close>

text \<open>
  The depacketizer holds the packets \<open>D\<close> of a frame of \<open>n\<close> packets \<open>pkt\<close> numbered from \<open>base\<close>, and
  nothing else.
\<close>

definition framed :: "nat \<Rightarrow> (nat \<Rightarrow> BufferedPacket) \<Rightarrow> bool" where
  "framed n pkt \<longleftrightarrow> 0 < n \<and> (\<forall>i < n. bp_start (pkt i) = (i = 0) \<and> bp_end (pkt i) = (i = n - 1))"

definition holds_part :: "u64 \<Rightarrow> (nat \<Rightarrow> BufferedPacket) \<Rightarrow> nat set \<Rightarrow> (u64, BufferedPacket) btree \<Rightarrow> bool" where
  "holds_part base pkt D parts \<longleftrightarrow> bt_ok parts \<and>
     (\<forall>k. bt_get parts k =
        (if base \<le> k \<and> unat k - unat base \<in> D then Some (pkt (unat k - unat base)) else None))"

lemma holds_part_at:
  assumes "holds_part base pkt D parts" and "unat base + i < 2 ^ 64"
  shows "bt_get parts (base + of_nat i) = (if i \<in> D then Some (pkt i) else None)"
proof -
  have "unat (base + of_nat i) = unat base + i" using assms(2) by (intro unat_plus_of_nat) simp
  then show ?thesis using assms(1) by (simp add: holds_part_def word_le_nat_alt)
qed

lemma holds_part_walk:
  assumes h: "holds_part base pkt D parts" and f: "framed n pkt" and "unat base + n \<le> 2 ^ 64"
    and "m < n" and "{..<m} \<subseteq> D"
  shows "find_end parts base = find_end parts (base + of_nat m)"
  using assms(4,5)
proof (induction m)
  case (Suc m)
  have fit: "unat base + m < 2 ^ 64" using Suc.prems assms(3) by simp
  have "bt_get parts (base + of_nat m) = Some (pkt m)"
    using holds_part_at [OF h fit] Suc.prems(2) by auto
  moreover have "\<not> bp_end (pkt m)" using f Suc.prems(1) by (simp add: framed_def)
  ultimately have "find_end parts (base + of_nat m) = find_end parts (sat_add (base + of_nat m) 1)"
    by (rule find_end_step(1))
  moreover have "unat (base + of_nat m) = unat base + m" "unat base + Suc m < 2 ^ 64"
    using Suc.prems(1) assms(3) by (auto intro: unat_plus_of_nat)
  then have "\<not> base + of_nat m + 1 < base + of_nat m" by (simp add: plus_less_left_iff)
  then have "sat_add (base + of_nat m) 1 = base + of_nat (Suc m)"
    unfolding sat_add_def by (simp add: algebra_simps)
  ultimately show ?case using Suc by (simp add: subset_iff)
qed simp

lemma emit_partial:
  assumes h: "holds_part base pkt D (fd_parts d)" and f: "framed n pkt" and fit: "unat base + n \<le> 2 ^ 64"
    and "D \<subseteq> {..<n}" and "D \<noteq> {..<n}"
  shows "try_emit_earliest d = Some (None, d)"
proof -
  have ok: "bt_ok (fd_parts d)" using h by (simp add: holds_part_def)
  have n: "0 < n" and flags: "\<And>i. i < n \<Longrightarrow> bp_start (pkt i) = (i = 0)" using f by (auto simp: framed_def)
  show ?thesis
  proof (cases "0 \<in> D")
    case False
    then have "bt_find bp_start (fd_parts d) = None"
      using h flags assms(4) by (fastforce simp: bt_find_None_iff [OF ok] holds_part_def split: if_splits)
    then show ?thesis by (simp add: try_emit_earliest_def)
  next
    case True
    have "bt_get (fd_parts d) base = Some (pkt 0)" using holds_part_at [OF h, of 0] True n fit by simp
    then have s: "bt_find bp_start (fd_parts d) = Some (base, pkt 0)"
      using h flags n by (auto simp: bt_find_Some_iff [OF ok] holds_part_def)
    define j where "j = (LEAST i. i \<notin> D)"
    obtain i where i: "i < n" "i \<notin> D" using assms(4,5) by blast
    have j: "j \<notin> D" "j < n" and sub: "{..<j} \<subseteq> D"
      unfolding j_def using LeastI [of "\<lambda>i. i \<notin> D" i] Least_le [of "\<lambda>i. i \<notin> D" i] i
      by (auto dest: not_less_Least)
    have "find_end (fd_parts d) base = find_end (fd_parts d) (base + of_nat j)"
      by (rule holds_part_walk [OF h f fit j(2) sub])
    also have "\<dots> = Some None"
      using holds_part_at [OF h, of j] j fit by (intro find_end_step(3)) simp
    finally show ?thesis by (simp add: try_emit_earliest_def s)
  qed
qed

lemma emit_complete:
  assumes h: "holds_part base pkt {..<n} (fd_parts d)" and f: "framed n pkt" and fit: "unat base + n \<le> 2 ^ 64"
  shows "\<exists>d'. try_emit_earliest d = Some (Some \<lparr>rf_data = concat (map (\<lambda>i. bp_payload (pkt i)) [0..<n]),
     rf_first_seq = base, rf_last_seq = base + of_nat (n - 1)\<rparr>, d') \<and>
     fd_parts d' = [] \<and> fd_newest d' = fd_newest d \<and> fd_window d' = fd_window d"
proof -
  have ok: "bt_ok (fd_parts d)" using h by (simp add: holds_part_def)
  have n: "0 < n" and flags: "\<And>i. i < n \<Longrightarrow> bp_start (pkt i) = (i = 0) \<and> bp_end (pkt i) = (i = n - 1)"
    using f by (auto simp: framed_def)
  define e where "e = base + of_nat (n - 1)"
  have at: "bt_get (fd_parts d) (base + of_nat i) = Some (pkt i)" if "i < n" for i
    using holds_part_at [OF h, of i] that fit by simp
  have e: "unat e = unat base + (n - 1)" unfolding e_def using n fit by (intro unat_plus_of_nat) simp
  have s: "bt_find bp_start (fd_parts d) = Some (base, pkt 0)"
    using h flags n at [of 0] by (auto simp: bt_find_Some_iff [OF ok] holds_part_def)
  have "find_end (fd_parts d) base = find_end (fd_parts d) e"
    unfolding e_def using n by (intro holds_part_walk [OF h f fit]) auto
  also have "\<dots> = Some (Some e)" using at [of "n - 1", folded e_def] flags [of "n - 1"] n by (simp add: find_end_step)
  finally have fe: "find_end (fd_parts d) base = Some (Some e)" .
  have "list_all2 (\<lambda>x y. bt_get (fd_parts d) x = Some y) (seq_range base e) (map pkt [0..<n])"
    using at n e by (simp add: list_all2_conv_all_nth length_seq_range seq_range_nth)
  then have th: "those (map (bt_get (fd_parts d)) (seq_range base e)) = Some (map pkt [0..<n])"
    by (simp add: those_Some_iff)
  have "bt_get (fold bt_remove (seq_range base e) (fd_parts d)) k = None" for k
    using h n e by (auto simp: bt.get_del_all [OF ok] set_seq_range holds_part_def word_le_nat_alt)
  then have "fold bt_remove (seq_range base e) (fd_parts d) = []" using bt_empty_iff by blast
  then show ?thesis by (simp add: try_emit_earliest_def s fe th comp_def) (simp add: e_def)
qed

text \<open>The packets of a frame as the sender numbers them from \<open>base\<close>.\<close>

definition chunk_packet :: "FrameChunk \<Rightarrow> BufferedPacket" where
  "chunk_packet c = \<lparr>bp_payload = fc_data c, bp_start = fc_start c, bp_end = fc_end c\<rparr>"

definition frame_at :: "FramePacketizer \<Rightarrow> u64 \<Rightarrow> u8 list \<Rightarrow> (u64 \<times> BufferedPacket) list" where
  "frame_at p base frame =
     map (\<lambda>i. (base + of_nat i, chunk_packet (packetize p frame ! i))) [0..<packet_count p frame]"

definition before :: "u64 \<Rightarrow> FrameDepacketizer \<Rightarrow> bool" where
  "before k d = (case fd_newest d of None \<Rightarrow> True | Some m \<Rightarrow> m \<le> k)"

lemma stored_holds:
  assumes h: "holds_part base pkt D (fd_parts d)" and "i < n" and fit: "unat base + n \<le> 2 ^ 64"
    and "before (base + of_nat (n - 1)) d" and "n \<le> Suc (fd_window d)" and "fd_window d < 2 ^ 64"
  shows "holds_part base pkt (insert i D) (fd_parts (stored (base + of_nat i) (pkt i) d))"
    and "before (base + of_nat (n - 1)) (stored (base + of_nat i) (pkt i) d)"
proof -
  let ?s = "base + of_nat i" and ?e = "base + of_nat (n - 1)"
  have ok: "bt_ok (fd_parts d)" using h by (simp add: holds_part_def)
  have s: "unat ?s = unat base + i" using assms(2) fit by (intro unat_plus_of_nat) simp
  have e: "unat ?e = unat base + (n - 1)" using assms(2) fit by (intro unat_plus_of_nat) simp
  have "?s \<le> ?e" using s e assms(2) by (simp add: word_le_nat_alt)
  then have nw: "newest_after ?s d \<le> ?e"
    using assms(4) by (auto simp: newest_after_def before_def split: option.splits)
  then show "before ?e (stored ?s (pkt i) d)" by (simp add: before_def)
  have "unat (low_mark ?s d) = unat (newest_after ?s d) - fd_window d"
    using assms(6) by (simp add: low_mark_def unat_sat_sub unat_of_nat_fits)
  also have "\<dots> \<le> unat base" using nw e assms(2,5) by (simp add: word_le_nat_alt)
  finally have low: "low_mark ?s d \<le> base" by (simp add: word_le_nat_alt)
  have "k = ?s \<longleftrightarrow> base \<le> k \<and> unat k - unat base = i" for k
    using s by (auto simp: word_le_nat_alt word_unat_eq_iff)
  then show "holds_part base pkt (insert i D) (fd_parts (stored ?s (pkt i) d))"
    using h low by (auto simp: holds_part_def stored_ok [OF ok] stored_get [OF ok])
qed

lemma push_frame_packets:
  assumes f: "framed n pkt" and fit: "unat base + n \<le> 2 ^ 64"
    and "holds_part base pkt D (fd_parts d)" and "before (base + of_nat (n - 1)) d"
    and w: "n \<le> Suc (fd_window d)" "fd_window d < 2 ^ 64"
    and "distinct is" and "set is \<inter> D = {}" and "set is \<union> D = {..<n}" and "is \<noteq> []"
  shows "\<exists>d'. push_all (map (\<lambda>i. (base + of_nat i, pkt i)) is) d =
     Some ([\<lparr>rf_data = concat (map (\<lambda>i. bp_payload (pkt i)) [0..<n]), rf_first_seq = base,
             rf_last_seq = base + of_nat (n - 1)\<rparr>], d') \<and>
     fd_parts d' = [] \<and> before (base + of_nat (n - 1)) d' \<and> fd_window d' = fd_window d"
  using assms(3-)
proof (induction "is" arbitrary: d D)
  case (Cons i "is")
  let ?d = "stored (base + of_nat i) (pkt i) d" and ?e = "base + of_nat (n - 1)"
  have i: "i < n" using Cons.prems(7) by auto
  note h = stored_holds [OF Cons.prems(1) i fit Cons.prems(2-4)]
  show ?case
  proof (cases "is = []")
    case True
    with Cons.prems(7) have "insert i D = {..<n}" by simp
    from emit_complete [OF h(1) [unfolded this] f fit] h(2) True show ?thesis
      by (auto simp: push_packet_stored before_def comp_def)
  next
    case False
    have ne: "insert i D \<noteq> {..<n}" using Cons.prems(5-7) False
      by (metis Int_insert_right_if1 UnI1 disjoint_iff distinct.simps(2) insertE last_in_set list.set_intros(1,2))
    have sub: "insert i D \<subseteq> {..<n}" using Cons.prems(7) by auto
    have "push_packet (base + of_nat i, pkt i) d = Some (None, ?d)"
      unfolding push_packet_stored by (rule emit_partial [OF h(1) f fit sub ne])
    moreover from Cons.IH [OF h] Cons.prems(3-7) False obtain d' where
      "push_all (map (\<lambda>i. (base + of_nat i, pkt i)) is) ?d =
       Some ([\<lparr>rf_data = concat (map (\<lambda>i. bp_payload (pkt i)) [0..<n]), rf_first_seq = base, rf_last_seq = ?e\<rparr>], d')"
      "fd_parts d' = []" "before ?e d'" "fd_window d' = fd_window d" by auto
    ultimately show ?thesis by simp
  qed
qed simp


lemma image_mset_list: "image_mset g M = mset xs \<Longrightarrow> \<exists>zs. mset zs = M \<and> map g zs = xs"
proof (induction xs arbitrary: M)
  case (Cons x xs)
  then obtain a N where "M = add_mset a N" "g a = x" "image_mset g N = mset xs"
    by (auto dest: msed_map_invR)
  moreover from Cons.IH [OF this(3)] obtain zs where "mset zs = N" "map g zs = xs" by blast
  ultimately show ?case by (intro exI [of _ "a # zs"]) simp
qed simp

lemma push_all_append:
  "push_all (xs @ ys) d = (case push_all xs d of None \<Rightarrow> None
     | Some (fs, d) \<Rightarrow> (case push_all ys d of None \<Rightarrow> None | Some (gs, d) \<Rightarrow> Some (fs @ gs, d)))"
  by (induction xs arbitrary: d) (auto split: option.splits)

lemma push_frame:
  assumes "0 < fp_mtu p" and "mset ps = mset (frame_at p base frame)"
    and fit: "unat base + packet_count p frame \<le> 2 ^ 64"
    and "fd_parts d = []" and "before base d"
    and w: "packet_count p frame \<le> Suc (fd_window d)" "fd_window d < 2 ^ 64"
  shows "\<exists>f d'. push_all ps d = Some ([f], d') \<and> rf_data f = frame \<and>
     fd_parts d' = [] \<and> before (base + of_nat (packet_count p frame - 1)) d' \<and> fd_window d' = fd_window d"
proof -
  let ?n = "packet_count p frame"
  define pkt where "pkt i = chunk_packet (packetize p frame ! i)" for i
  have pk: "pkt i = chunk_packet (chunk_at (fp_mtu p) ?n frame i)" if "i < ?n" for i
    using that by (simp add: pkt_def packetize_chunks [OF assms(1)])
  have n: "1 \<le> ?n" by (rule packet_count_bounds(2) [OF assms(1)])
  have f: "framed ?n pkt" using n by (auto simp: framed_def pk chunk_packet_def chunk_at_def)
  have data: "concat (map (\<lambda>i. bp_payload (pkt i)) [0..<?n]) = frame"
  proof -
    have "map (\<lambda>i. bp_payload (pkt i)) [0..<?n] = map fc_data (packetize p frame)"
      by (simp add: packetize_chunks [OF assms(1)] pk chunk_packet_def cong: map_cong)
    then show ?thesis by (simp add: concat_packetize [OF assms(1)])
  qed
  have "image_mset (\<lambda>i. (base + of_nat i, pkt i)) (mset [0..<?n]) = mset ps"
    using assms(2) by (simp add: frame_at_def pkt_def)
  from image_mset_list [OF this] obtain "is" where
    "is": "mset is = mset [0..<?n]" "map (\<lambda>i. (base + of_nat i, pkt i)) is = ps" by blast
  have d: "distinct is" "set is = {..<?n}"
    using "is"(1) by (metis distinct_upt mset_eq_imp_distinct_iff, metis mset_eq_setD atLeast0LessThan set_upt)
  have e: "unat (base + of_nat (?n - 1)) = unat base + (?n - 1)" using n fit by (intro unat_plus_of_nat) simp
  have h: "holds_part base pkt {} (fd_parts d)" by (simp add: holds_part_def assms(4) bt_get_def)
  have b: "before (base + of_nat (?n - 1)) d"
    using assms(5) e by (auto simp: before_def word_le_nat_alt split: option.splits)
  have "0 \<in> set is" using d(2) n by simp
  then have ne: "is \<noteq> []" by (cases "is") simp_all
  have "set is \<inter> {} = {}" "set is \<union> {} = {..<?n}" using d(2) by simp_all
  from push_frame_packets [OF f fit h b w d(1) this ne, unfolded "is"(2) data] show ?thesis
    by (elim exE conjE) (intro exI conjI, assumption, simp_all)
qed

fun sent :: "FramePacketizer \<Rightarrow> u64 \<Rightarrow> u8 list list \<Rightarrow> (u64 \<times> BufferedPacket) list list" where
  "sent p base [] = []"
| "sent p base (f # fs) = frame_at p base f # sent p (base + of_nat (packet_count p f)) fs"

lemma push_frames:
  assumes p: "0 < fp_mtu p" and "list_all2 (\<lambda>xs ys. mset xs = mset ys) ds (sent p base frames)"
    and "unat base + sum_list (map (packet_count p) frames) < 2 ^ 64"
    and "fd_parts d = []" and "before base d"
    and "\<forall>f \<in> set frames. packet_count p f \<le> Suc (fd_window d)" and "fd_window d < 2 ^ 64"
  shows "\<exists>fs d'. push_all (concat ds) d = Some (fs, d') \<and> map rf_data fs = frames \<and> fd_parts d' = []"
  using assms(2-)
proof (induction frames arbitrary: ds base d)
  case (Cons frame frames)
  let ?n = "packet_count p frame"
  obtain ps es where ds: "ds = ps # es" "mset ps = mset (frame_at p base frame)"
    "list_all2 (\<lambda>xs ys. mset xs = mset ys) es (sent p (base + of_nat ?n) frames)"
    using Cons.prems(1) by (auto simp: list_all2_Cons2)
  have fit: "unat base + ?n \<le> 2 ^ 64" using Cons.prems(2) by simp
  have w: "?n \<le> Suc (fd_window d)" using Cons.prems(5) by simp
  from push_frame [OF p ds(2) fit Cons.prems(3,4) w Cons.prems(6)] obtain f d1 where
    1: "push_all ps d = Some ([f], d1)" "rf_data f = frame" "fd_parts d1 = []"
      "before (base + of_nat (?n - 1)) d1" "fd_window d1 = fd_window d" by blast
  have b: "unat (base + of_nat ?n) = unat base + ?n" using Cons.prems(2) by (intro unat_plus_of_nat) simp
  have "unat (base + of_nat (?n - 1)) = unat base + (?n - 1)" using Cons.prems(2) by (intro unat_plus_of_nat) simp
  with b 1(4) have "before (base + of_nat ?n) d1"
    by (auto simp: before_def word_le_nat_alt split: option.splits)
  moreover have "unat (base + of_nat ?n) + sum_list (map (packet_count p) frames) < 2 ^ 64"
    using b Cons.prems(2) by simp
  ultimately obtain fs d' where "push_all (concat es) d1 = Some (fs, d')" "map rf_data fs = frames" "fd_parts d' = []"
    using Cons.IH [OF ds(3) _ 1(3)] Cons.prems(5,6) 1(5) by auto
  with 1(1,2) show ?case by (auto simp: ds(1) push_all_append)
qed simp

text \<open>
  C34. Frames survive packetization and reassembly byte for byte: frames of any content, cut by the
  packetizer and numbered consecutively, are emitted in order and unchanged, even when the packets
  of each frame arrive in any order, as long as no frame has more packets than the window spans and
  the sequence numbers do not run out.
\<close>

theorem framing_roundtrip:
  assumes "list_all2 (\<lambda>xs ys. mset xs = mset ys) ds (sent (packetizer_new mtu) base frames)"
    and "unat base + sum_list (map (packet_count (packetizer_new mtu)) frames) < 2 ^ 64"
    and "list_all (\<lambda>f. packet_count (packetizer_new mtu) f \<le> Suc window) frames"
    and "0 < window" and "window < 2 ^ 64"
  shows "\<exists>fs d. push_all (concat ds) (depacketizer_new window) = Some (fs, d) \<and> map rf_data fs = frames"
proof -
  have "0 < fp_mtu (packetizer_new mtu)" by (simp add: packetizer_new_def)
  moreover have "fd_parts (depacketizer_new window) = []" "before base (depacketizer_new window)"
    "fd_window (depacketizer_new window) = window"
    using assms(4) by (simp_all add: depacketizer_new_def before_def)
  ultimately show ?thesis
    using push_frames [of "packetizer_new mtu" ds base frames "depacketizer_new window"] assms
    by (auto simp: list_all_iff)
qed

theorem framing_roundtrip_witness:
  "\<exists>fs d. push_all (concat [
       [(9, \<lparr>bp_payload = [5], bp_start = False, bp_end = True\<rparr>),
        (7, \<lparr>bp_payload = [1, 2], bp_start = True, bp_end = False\<rparr>),
        (8, \<lparr>bp_payload = [3, 4], bp_start = False, bp_end = False\<rparr>)],
       [(10, \<lparr>bp_payload = [], bp_start = True, bp_end = True\<rparr>)]]) (depacketizer_new 4) = Some (fs, d) \<and>
     map rf_data fs = [[1, 2, 3, 4, 5], []]"
proof (rule framing_roundtrip)
  have "sent (packetizer_new 2) 7 [[1, 2, 3, 4, 5], []] =
     [[(7, \<lparr>bp_payload = [1, 2], bp_start = True, bp_end = False\<rparr>),
       (8, \<lparr>bp_payload = [3, 4], bp_start = False, bp_end = False\<rparr>),
       (9, \<lparr>bp_payload = [5], bp_start = False, bp_end = True\<rparr>)],
      [(10, \<lparr>bp_payload = [], bp_start = True, bp_end = True\<rparr>)]]" by code_simp
  then show "list_all2 (\<lambda>xs ys. mset xs = mset ys)
      [[(9, \<lparr>bp_payload = [5], bp_start = False, bp_end = True\<rparr>),
        (7, \<lparr>bp_payload = [1, 2], bp_start = True, bp_end = False\<rparr>),
        (8, \<lparr>bp_payload = [3, 4], bp_start = False, bp_end = False\<rparr>)],
       [(10, \<lparr>bp_payload = [], bp_start = True, bp_end = True\<rparr>)]]
      (sent (packetizer_new 2) 7 [[1, 2, 3, 4, 5], []])" by simp
  have n: "packet_count (packetizer_new 2) [1, 2, 3, 4, 5] = 3" "packet_count (packetizer_new 2) [] = 1"
    by code_simp+
  show "unat (7 :: u64) + sum_list (map (packet_count (packetizer_new 2)) [[1, 2, 3, 4, 5], []]) < 2 ^ 64"
    "list_all (\<lambda>f. packet_count (packetizer_new 2) f \<le> Suc 4) [[1, 2, 3, 4, 5], []]"
    using n by simp_all
qed simp_all

end
