(* ===== verification/Bytes.thy ===== *)
theory Bytes
  imports Prelude
begin

text \<open>
  Big-endian integers in byte strings (\<open>from_be_bytes\<close> and \<open>to_be_bytes\<close> of the standard library)
  and byte string literals.
\<close>

unbundle bit_operations_syntax

definition be16 :: "u8 \<Rightarrow> u8 \<Rightarrow> u16" where
  "be16 a b = push_bit 8 (ucast a) OR ucast b"

definition be32 :: "u8 \<Rightarrow> u8 \<Rightarrow> u8 \<Rightarrow> u8 \<Rightarrow> u32" where
  "be32 a b c d = push_bit 24 (ucast a) OR push_bit 16 (ucast b) OR push_bit 8 (ucast c) OR ucast d"

definition to_be16 :: "u16 \<Rightarrow> u8 list" where
  "to_be16 w = [ucast (drop_bit 8 w), ucast w]"

definition to_be32 :: "u32 \<Rightarrow> u8 list" where
  "to_be32 w = [ucast (drop_bit 24 w), ucast (drop_bit 16 w), ucast (drop_bit 8 w), ucast w]"

definition be64 :: "u8 list \<Rightarrow> u64" where
  "be64 bs = push_bit 32 (ucast (be32 (bs ! 0) (bs ! 1) (bs ! 2) (bs ! 3))) OR
     ucast (be32 (bs ! 4) (bs ! 5) (bs ! 6) (bs ! 7))"

definition to_be64 :: "u64 \<Rightarrow> u8 list" where
  "to_be64 w = to_be32 (ucast (drop_bit 32 w)) @ to_be32 (ucast w)"

text \<open>A literal \<open>b"..."\<close>.\<close>

definition bytes :: "string \<Rightarrow> u8 list" where
  "bytes s = map of_char s"

lemmas byte_bits = bit_and_iff bit_or_iff bit_push_bit_iff bit_drop_bit_eq bit_ucast_iff bit_mask_iff

lemma byte_eqI:
  "bit x 0 = bit y 0 \<Longrightarrow> bit x 1 = bit y 1 \<Longrightarrow> bit x 2 = bit y 2 \<Longrightarrow> bit x 3 = bit y 3 \<Longrightarrow>
   bit x 4 = bit y 4 \<Longrightarrow> bit x 5 = bit y 5 \<Longrightarrow> bit x 6 = bit y 6 \<Longrightarrow> bit x 7 = bit y 7 \<Longrightarrow> x = y"
  for x y :: u8
  by (rule bit_word_eqI) (auto simp: less_Suc_eq numeral_eq_Suc)

lemma be16_to_be16 [simp]: "be16 (ucast (drop_bit 8 w)) (ucast w) = w"
  by (rule bit_word_eqI) (auto simp: be16_def byte_bits)

lemma to_be16_be16 [simp]: "to_be16 (be16 a b) = [a, b]"
proof -
  have "ucast (drop_bit 8 (be16 a b)) = a" "ucast (be16 a b) = b"
    by (rule bit_word_eqI; auto simp: be16_def byte_bits dest: bit_imp_le_length)+
  then show ?thesis by (simp add: to_be16_def)
qed

lemma be32_to_be32 [simp]:
  "be32 (ucast (drop_bit 24 w)) (ucast (drop_bit 16 w)) (ucast (drop_bit 8 w)) (ucast w) = w"
proof (rule bit_word_eqI)
  fix n assume "n < LENGTH(32)"
  then consider "n < 8" | "8 \<le> n" "n < 16" | "16 \<le> n" "n < 24" | "24 \<le> n" "n < 32" by fastforce
  then show "bit (be32 (ucast (drop_bit 24 w)) (ucast (drop_bit 16 w)) (ucast (drop_bit 8 w)) (ucast w)) n = bit w n"
    by cases (auto simp: be32_def byte_bits)
qed

lemma to_be32_be32 [simp]: "to_be32 (be32 a b c d) = [a, b, c, d]"
proof -
  have "ucast (drop_bit 24 (be32 a b c d)) = a" "ucast (drop_bit 16 (be32 a b c d)) = b"
    "ucast (drop_bit 8 (be32 a b c d)) = c" "ucast (be32 a b c d) = d"
    by (rule bit_word_eqI; auto simp: be32_def byte_bits dest: bit_imp_le_length)+
  then show ?thesis by (simp add: to_be32_def)
qed

lemma four_bytes: "4 \<le> length s \<Longrightarrow> \<exists>a b c d t. s = [a, b, c, d] @ t"
  by (auto simp: numeral_eq_Suc Suc_le_length_iff)

lemma length_to_be [simp]: "length (to_be16 w) = 2" "length (to_be32 v) = 4"
  by (simp_all add: to_be16_def to_be32_def)

lemma be64_to_be64 [simp]: "be64 (to_be64 w) = w"
proof -
  let ?h = "ucast (drop_bit 32 w) :: u32" and ?l = "ucast w :: u32"
  have "be64 (to_be64 w) = push_bit 32 (ucast ?h) OR ucast ?l"
    by (simp add: be64_def to_be64_def to_be32_def [of ?h] to_be32_def [of ?l])
  also have "\<dots> = w" by (rule bit_word_eqI) (auto simp: byte_bits)
  finally show ?thesis .
qed

lemma to_be64_be64 [simp]: "length bs = 8 \<Longrightarrow> to_be64 (be64 bs) = bs"
proof -
  assume "length bs = 8"
  then obtain a b c d e f g h where bs: "bs = [a, b, c, d, e, f, g, h]"
    by (auto simp: length_Suc_conv numeral_eq_Suc)
  have "ucast (drop_bit 32 (be64 bs)) = be32 a b c d" "ucast (be64 bs) = be32 e f g h"
    by (rule bit_word_eqI; auto simp: be64_def byte_bits bs dest: bit_imp_le_length)+
  then show ?thesis by (simp add: to_be64_def bs)
qed

lemma length_to_be64 [simp]: "length (to_be64 w) = 8"
  by (simp add: to_be64_def)

end
