(* ===== verification/Ufrag.thy ===== *)
theory Ufrag
  imports Bytes
begin

text \<open>
  The transport route and the ICE ufrag that carries it, \<open>crates/pulsebeam-steer/src/lib.rs\<close> and
  \<open>crates/pulsebeam-steer/src/ufrag.rs\<close>: a route packs a 12-bit shard and a 20-bit slot, the ufrag
  is ten bytes in Crockford base 32.  A fixed-size array is a list whose length the code fixes.
\<close>

unbundle bit_operations_syntax

subsection \<open>The code\<close>

definition ROUTE_SLOT_BITS :: nat where "ROUTE_SLOT_BITS = 20"
definition ROUTE_SHARD_BITS :: nat where "ROUTE_SHARD_BITS = 12"
definition ROUTE_SLOT_MASK :: u32 where "ROUTE_SLOT_MASK = push_bit ROUTE_SLOT_BITS 1 - 1"
definition ROUTE_SHARD_MASK :: u32 where "ROUTE_SHARD_MASK = push_bit ROUTE_SHARD_BITS 1 - 1"

datatype TransportRoute = TransportRoute (route_get: u32)

definition route_try_new :: "u16 \<Rightarrow> u32 \<Rightarrow> TransportRoute option" where
  "route_try_new shard slot =
     (if slot > ROUTE_SLOT_MASK \<or> (ucast shard :: u32) > ROUTE_SHARD_MASK then None
      else Some (TransportRoute (push_bit ROUTE_SLOT_BITS (ucast shard) OR slot)))"

definition route_from_raw :: "u32 \<Rightarrow> TransportRoute" where
  "route_from_raw bits = TransportRoute bits"

definition route_shard :: "TransportRoute \<Rightarrow> u16" where
  "route_shard r = ucast (drop_bit ROUTE_SLOT_BITS (route_get r))"

definition route_slot :: "TransportRoute \<Rightarrow> u32" where
  "route_slot r = route_get r AND ROUTE_SLOT_MASK"

definition UFRAG_VERSION :: u8 where "UFRAG_VERSION = 0"
definition RAW_LEN :: nat where "RAW_LEN = 10"
definition ENCODED_LEN :: nat where "ENCODED_LEN = 16"

definition CROCKFORD_ALPHABET :: "u8 list" where
  "CROCKFORD_ALPHABET = bytes ''0123456789ABCDEFGHJKMNPQRSTVWXYZ''"

record IceUfrag =
  uf_cluster_id :: u16
  uf_node_id :: u16
  uf_transport :: TransportRoute
  uf_epoch :: u16

datatype UfragError = InvalidCluster | BadEncoding | BadVersion

text \<open>\<open>new\<close> panics where \<open>try_new\<close> reports an error; a panic is the value \<open>None\<close>.\<close>

definition ufrag_new :: "u16 \<Rightarrow> u16 \<Rightarrow> TransportRoute \<Rightarrow> u16 \<Rightarrow> IceUfrag option" where
  "ufrag_new cluster_id node_id transport epoch =
     (if cluster_id \<le> 0x0FFF
      then Some \<lparr>uf_cluster_id = cluster_id, uf_node_id = node_id, uf_transport = transport, uf_epoch = epoch\<rparr>
      else None)"

definition ufrag_try_new :: "u16 \<Rightarrow> u16 \<Rightarrow> TransportRoute \<Rightarrow> u16 \<Rightarrow> UfragError + IceUfrag" where
  "ufrag_try_new cluster_id node_id transport epoch =
     (if cluster_id > 0x0FFF then Inl InvalidCluster
      else Inr \<lparr>uf_cluster_id = cluster_id, uf_node_id = node_id, uf_transport = transport, uf_epoch = epoch\<rparr>)"

definition encode_raw :: "IceUfrag \<Rightarrow> u8 list" where
  "encode_raw u =
     (let cluster_bytes = to_be16 (uf_cluster_id u); node_bytes = to_be16 (uf_node_id u);
          route_bytes = to_be32 (route_get (uf_transport u)); epoch_bytes = to_be16 (uf_epoch u)
      in [push_bit 4 UFRAG_VERSION OR (cluster_bytes ! 0 AND 0x0F), cluster_bytes ! 1,
          node_bytes ! 0, node_bytes ! 1,
          route_bytes ! 0, route_bytes ! 1, route_bytes ! 2, route_bytes ! 3,
          epoch_bytes ! 0, epoch_bytes ! 1])"

definition crockford_char :: "u8 \<Rightarrow> u8" where
  "crockford_char v = CROCKFORD_ALPHABET ! unat (v AND 0x1F)"

text \<open>\<open>any c s\<close>: the pattern \<open>b'x' | b'y' | ...\<close> for the characters of \<open>s\<close>.\<close>

definition any :: "u8 \<Rightarrow> string \<Rightarrow> bool" where
  "any c s \<longleftrightarrow> c \<in> set (bytes s)"

definition crockford_value :: "u8 \<Rightarrow> u8 option" where
  "crockford_value c =
     (if any c ''0Oo'' then Some 0 else if any c ''1IiLl'' then Some 1 else if any c ''2'' then Some 2
      else if any c ''3'' then Some 3 else if any c ''4'' then Some 4 else if any c ''5'' then Some 5
      else if any c ''6'' then Some 6 else if any c ''7'' then Some 7 else if any c ''8'' then Some 8
      else if any c ''9'' then Some 9 else if any c ''Aa'' then Some 10 else if any c ''Bb'' then Some 11
      else if any c ''Cc'' then Some 12 else if any c ''Dd'' then Some 13 else if any c ''Ee'' then Some 14
      else if any c ''Ff'' then Some 15 else if any c ''Gg'' then Some 16 else if any c ''Hh'' then Some 17
      else if any c ''Jj'' then Some 18 else if any c ''Kk'' then Some 19 else if any c ''Mm'' then Some 20
      else if any c ''Nn'' then Some 21 else if any c ''Pp'' then Some 22 else if any c ''Qq'' then Some 23
      else if any c ''Rr'' then Some 24 else if any c ''Ss'' then Some 25 else if any c ''Tt'' then Some 26
      else if any c ''Vv'' then Some 27 else if any c ''Ww'' then Some 28 else if any c ''Xx'' then Some 29
      else if any c ''Yy'' then Some 30 else if any c ''Zz'' then Some 31 else None)"

definition encode_chunk :: "u8 \<Rightarrow> u8 \<Rightarrow> u8 \<Rightarrow> u8 \<Rightarrow> u8 \<Rightarrow> u8 list" where
  "encode_chunk b0 b1 b2 b3 b4 =
     [crockford_char (drop_bit 3 b0),
      crockford_char (push_bit 2 (b0 AND 0x07) OR drop_bit 6 b1),
      crockford_char (drop_bit 1 b1 AND 0x1F),
      crockford_char (push_bit 4 (b1 AND 0x01) OR drop_bit 4 b2),
      crockford_char (push_bit 1 (b2 AND 0x0F) OR drop_bit 7 b3),
      crockford_char (drop_bit 2 b3 AND 0x1F),
      crockford_char (push_bit 3 (b3 AND 0x03) OR drop_bit 5 b4),
      crockford_char (b4 AND 0x1F)]"

fun decode_chunk :: "u8 list \<Rightarrow> u8 list" where
  "decode_chunk [v0, v1, v2, v3, v4, v5, v6, v7] =
     [push_bit 3 v0 OR drop_bit 2 v1,
      push_bit 6 v1 OR push_bit 1 v2 OR drop_bit 4 v3,
      push_bit 4 v3 OR drop_bit 1 v4,
      push_bit 7 v4 OR push_bit 2 v5 OR drop_bit 3 v6,
      push_bit 5 v6 OR v7]"
| "decode_chunk _ = []"

fun encode_ascii_raw_bytes :: "u8 list \<Rightarrow> u8 list" where
  "encode_ascii_raw_bytes [b0, b1, b2, b3, b4, b5, b6, b7, b8, b9] =
     encode_chunk b0 b1 b2 b3 b4 @ encode_chunk b5 b6 b7 b8 b9"
| "encode_ascii_raw_bytes _ = []"

fun decode_raw_detailed :: "u8 list \<Rightarrow> UfragError + IceUfrag" where
  "decode_raw_detailed [c_hi, c_lo, n0, n1, r0, r1, r2, r3, e0, e1] =
     (if drop_bit 4 c_hi \<noteq> UFRAG_VERSION then Inl BadVersion
      else Inr \<lparr>uf_cluster_id = push_bit 8 (ucast (c_hi AND 0x0F)) OR ucast c_lo,
                uf_node_id = be16 n0 n1,
                uf_transport = route_from_raw (be32 r0 r1 r2 r3),
                uf_epoch = be16 e0 e1\<rparr>)"
| "decode_raw_detailed _ = Inl BadEncoding"

definition encode_ascii :: "IceUfrag \<Rightarrow> u8 list" where
  "encode_ascii u = encode_ascii_raw_bytes (encode_raw u)"

definition decode_ascii_detailed :: "u8 list \<Rightarrow> UfragError + IceUfrag" where
  "decode_ascii_detailed s =
     (if length s \<noteq> ENCODED_LEN then Inl BadEncoding
      else case those (map crockford_value s) of
             None \<Rightarrow> Inl BadEncoding
           | Some v \<Rightarrow> decode_raw_detailed (decode_chunk (take 8 v) @ decode_chunk (drop 8 v)))"

definition decode_raw :: "u8 list \<Rightarrow> IceUfrag option" where
  "decode_raw raw =
     (if length raw \<noteq> RAW_LEN then None
      else case decode_raw_detailed raw of Inl e \<Rightarrow> None | Inr u \<Rightarrow> Some u)"

definition decode_ascii :: "u8 list \<Rightarrow> IceUfrag option" where
  "decode_ascii s = (case decode_ascii_detailed s of Inl e \<Rightarrow> None | Inr u \<Rightarrow> Some u)"

subsection \<open>Routes\<close>

lemma route_masks: "ROUTE_SLOT_MASK = mask 20" "ROUTE_SHARD_MASK = mask 12"
  by (simp_all add: ROUTE_SLOT_MASK_def ROUTE_SHARD_MASK_def ROUTE_SLOT_BITS_def ROUTE_SHARD_BITS_def
      mask_eq_decr_exp push_bit_of_1)

lemma route_slot_bits: "route_slot r = take_bit 20 (route_get r)"
  by (simp add: route_slot_def route_masks take_bit_eq_mask [symmetric])

lemma le_route_masks:
  "w \<le> mask 20 \<longleftrightarrow> take_bit 20 w = w" "w \<le> mask 12 \<longleftrightarrow> take_bit 12 w = w" for w :: u32
proof -
  have "w \<le> mask 20 \<Longrightarrow> unat w < 2 ^ 20" "w \<le> mask 12 \<Longrightarrow> unat w < 2 ^ 12"
    by (simp_all add: word_le_nat_alt mask_eq_decr_exp)
  then show "w \<le> mask 20 \<longleftrightarrow> take_bit 20 w = w" "w \<le> mask 12 \<longleftrightarrow> take_bit 12 w = w"
    by (metis take_bit_eq_mask word_and_le1 take_bit_fits)+
qed

lemma route_try_new_iff:
  "route_try_new shard slot = Some r \<longleftrightarrow>
     route_shard r = shard \<and> route_slot r = slot"
proof
  assume "route_try_new shard slot = Some r"
  then have a: "take_bit 20 slot = slot" "take_bit 12 (ucast shard :: u32) = ucast shard"
    and r: "r = TransportRoute (push_bit 20 (ucast shard) OR slot)"
    by (auto simp: route_try_new_def route_masks not_less le_route_masks ROUTE_SLOT_BITS_def split: if_splits)
  have bits: "bit slot i \<Longrightarrow> i < 20" "bit shard i \<Longrightarrow> i < 12" for i
  proof -
    show "bit slot i \<Longrightarrow> i < 20" using a(1) by (metis bit_take_bit_iff)
    show "bit shard i \<Longrightarrow> i < 12"
      using arg_cong [OF a(2), of "\<lambda>w. bit w i"] bit_imp_le_length [of shard i]
      by (auto simp: bit_take_bit_iff bit_ucast_iff)
  qed
  show "route_shard r = shard \<and> route_slot r = slot"
    unfolding r route_shard_def route_slot_bits ROUTE_SLOT_BITS_def
    by (auto intro!: bit_word_eqI dest: bits bit_imp_le_length simp: byte_bits bit_take_bit_iff)
next
  assume "route_shard r = shard \<and> route_slot r = slot"
  then have s: "shard = ucast (drop_bit 20 (route_get r))" "slot = take_bit 20 (route_get r)"
    by (simp_all add: route_shard_def route_slot_bits ROUTE_SLOT_BITS_def)
  have "take_bit 12 (ucast shard :: u32) = ucast shard"
    unfolding s by (rule bit_word_eqI) (auto simp: byte_bits bit_take_bit_iff dest: bit_imp_le_length)
  moreover have "push_bit 20 (ucast shard) OR slot = route_get r"
    unfolding s by (rule bit_word_eqI) (auto simp: byte_bits bit_take_bit_iff dest: bit_imp_le_length)
  ultimately show "route_try_new shard slot = Some r"
    by (simp add: route_try_new_def route_masks not_less le_route_masks s(2) ROUTE_SLOT_BITS_def)
qed

subsection \<open>Crockford base 32\<close>

lemma and_masks:
  "x AND 0x1F = take_bit 5 x" "x AND 0x0F = take_bit 4 x" "x AND 0x07 = take_bit 3 x"
  "x AND 0x03 = take_bit 2 x" "x AND 0x01 = take_bit 1 x" for x :: u8
proof -
  have "(0x1F :: u8) = mask 5" "(0x0F :: u8) = mask 4" "(0x07 :: u8) = mask 3" "(0x03 :: u8) = mask 2"
    "(0x01 :: u8) = mask 1"
    by (simp_all add: mask_eq_decr_exp)
  then show "x AND 0x1F = take_bit 5 x" "x AND 0x0F = take_bit 4 x" "x AND 0x07 = take_bit 3 x"
    "x AND 0x03 = take_bit 2 x" "x AND 0x01 = take_bit 1 x"
    by (metis take_bit_eq_mask [symmetric])+
qed

lemma crockford_table: "map crockford_value CROCKFORD_ALPHABET = map (\<lambda>i. Some (of_nat i)) [0..<32]"
  by code_simp

lemma crockford_value_char [simp]: "crockford_value (crockford_char v) = Some (take_bit 5 v)"
proof -
  let ?i = "unat (take_bit 5 v)"
  have i: "?i < 32" by (simp add: unsigned_take_bit_eq) (rule order_less_le_trans [OF take_bit_nat_less_exp], simp)
  have l: "length CROCKFORD_ALPHABET = 32" by (simp add: CROCKFORD_ALPHABET_def bytes_def)
  have "crockford_value (CROCKFORD_ALPHABET ! ?i) = map crockford_value CROCKFORD_ALPHABET ! ?i"
    using i l by simp
  also have "\<dots> = Some (take_bit 5 v)" unfolding crockford_table using i by simp
  finally show ?thesis by (simp add: crockford_char_def and_masks)
qed

lemma crockford_value_5bit: "crockford_value c = Some v \<Longrightarrow> take_bit 5 v = v"
  by (auto simp: crockford_value_def split: if_splits)

definition chunk_values :: "u8 \<Rightarrow> u8 \<Rightarrow> u8 \<Rightarrow> u8 \<Rightarrow> u8 \<Rightarrow> u8 list" where
  "chunk_values b0 b1 b2 b3 b4 = map (take_bit 5)
     [drop_bit 3 b0, push_bit 2 (take_bit 3 b0) OR drop_bit 6 b1, drop_bit 1 b1,
      push_bit 4 (take_bit 1 b1) OR drop_bit 4 b2, push_bit 1 (take_bit 4 b2) OR drop_bit 7 b3,
      drop_bit 2 b3, push_bit 3 (take_bit 2 b3) OR drop_bit 5 b4, b4]"

lemma encode_chunk_values:
  "map crockford_value (encode_chunk b0 b1 b2 b3 b4) = map Some (chunk_values b0 b1 b2 b3 b4)"
  by (simp add: encode_chunk_def chunk_values_def and_masks)

lemma byte_bit_beyond: "8 \<le> n \<Longrightarrow> \<not> bit x n" for x :: u8
  using bit_imp_le_length [of x n] by auto

lemmas byte_at = byte_bits bit_take_bit_iff o_apply

lemma decode_chunk_values: "decode_chunk (chunk_values b0 b1 b2 b3 b4) = [b0, b1, b2, b3, b4]"
  unfolding chunk_values_def list.map decode_chunk.simps list.inject
  by (intro conjI refl; rule byte_eqI; simp only: byte_at; simp add: byte_bit_beyond numeral_2_eq_2 [symmetric])

lemma chunk_values_decode:
  assumes "length v = 8" and "map (take_bit 5) v = v"
  shows "\<exists>b0 b1 b2 b3 b4. decode_chunk v = [b0, b1, b2, b3, b4] \<and> chunk_values b0 b1 b2 b3 b4 = v"
proof -
  obtain v0 v1 v2 v3 v4 v5 v6 v7 where v: "v = [v0, v1, v2, v3, v4, v5, v6, v7]"
    using assms(1) by (auto simp: length_Suc_conv numeral_eq_Suc)
  have b: "5 \<le> i \<Longrightarrow> \<not> bit x i" if "x \<in> set v" for x i
  proof -
    have "take_bit 5 x = x" using assms(2) that by (metis map_eq_conv map_ident)
    then show "5 \<le> i \<Longrightarrow> \<not> bit x i" by (metis bit_take_bit_iff not_le)
  qed
  have c: "chunk_values (push_bit 3 v0 OR drop_bit 2 v1) (push_bit 6 v1 OR push_bit 1 v2 OR drop_bit 4 v3)
     (push_bit 4 v3 OR drop_bit 1 v4) (push_bit 7 v4 OR push_bit 2 v5 OR drop_bit 3 v6) (push_bit 5 v6 OR v7) = v"
    unfolding v chunk_values_def list.map list.inject
    by (intro conjI refl; rule byte_eqI; simp only: byte_at; simp add: byte_bit_beyond b [unfolded v] numeral_2_eq_2 [symmetric])
  have "decode_chunk v = [push_bit 3 v0 OR drop_bit 2 v1, push_bit 6 v1 OR push_bit 1 v2 OR drop_bit 4 v3,
     push_bit 4 v3 OR drop_bit 1 v4, push_bit 7 v4 OR push_bit 2 v5 OR drop_bit 3 v6, push_bit 5 v6 OR v7]"
    unfolding v by (rule decode_chunk.simps)
  with c show ?thesis by blast
qed


subsection \<open>The raw form\<close>

lemma cluster_bits: "w \<le> 0x0FFF \<longleftrightarrow> take_bit 12 w = w" for w :: u16
proof -
  have "w \<le> 0x0FFF \<Longrightarrow> unat w < 2 ^ 12" by (simp add: word_le_nat_alt)
  moreover have "(0x0FFF :: u16) = mask 12" by (simp add: mask_eq_decr_exp)
  ultimately show ?thesis by (metis take_bit_eq_mask word_and_le1 take_bit_fits)
qed

lemma decode_encode_raw:
  assumes "uf_cluster_id u \<le> 0x0FFF"
  shows "decode_raw_detailed (encode_raw u) = Inr u"
proof -
  let ?c = "uf_cluster_id u"
  have c: "12 \<le> i \<Longrightarrow> \<not> bit ?c i" for i
    using assms by (metis bit_take_bit_iff cluster_bits not_le)
  have "push_bit 8 (ucast (take_bit 4 (ucast (drop_bit 8 ?c) :: u8))) OR ucast (ucast ?c :: u8) = ?c"
  proof (rule bit_word_eqI)
    fix n assume n: "n < LENGTH(16)"
    show "bit (push_bit 8 (ucast (take_bit 4 (ucast (drop_bit 8 ?c) :: u8))) OR ucast (ucast ?c :: u8) :: u16) n = bit ?c n"
      using n c [of n] by (cases "n < 8"; cases "n < 12") (auto simp: byte_at)
  qed
  moreover have "drop_bit 4 (take_bit 4 (ucast (drop_bit 8 ?c) :: u8)) = 0"
    by (rule bit_word_eqI) (simp add: byte_at)
  ultimately show ?thesis
    by (cases u) (simp add: encode_raw_def to_be16_def to_be32_def UFRAG_VERSION_def and_masks route_from_raw_def)
qed

lemma encode_decode_raw:
  assumes "length raw = 10" and "decode_raw_detailed raw = Inr u"
  shows "encode_raw u = raw" "uf_cluster_id u \<le> 0x0FFF"
proof -
  obtain c_hi c_lo n0 n1 r0 r1 r2 r3 e0 e1 where r: "raw = [c_hi, c_lo, n0, n1, r0, r1, r2, r3, e0, e1]"
    using assms(1) by (auto simp: length_Suc_conv numeral_eq_Suc)
  let ?c = "push_bit 8 (ucast (take_bit 4 c_hi)) OR ucast c_lo :: u16"
  from assms(2) have v: "drop_bit 4 c_hi = 0" and
    u: "u = \<lparr>uf_cluster_id = ?c, uf_node_id = be16 n0 n1,
              uf_transport = TransportRoute (be32 r0 r1 r2 r3), uf_epoch = be16 e0 e1\<rparr>"
    by (simp_all add: r UFRAG_VERSION_def and_masks route_from_raw_def split: if_splits)
  have hi: "4 \<le> i \<Longrightarrow> \<not> bit c_hi i" for i
    using arg_cong [OF v, of "\<lambda>w. bit w (i - 4)"] by (simp add: bit_drop_bit_eq)
  have "take_bit 4 (ucast (drop_bit 8 ?c) :: u8) = c_hi" "(ucast ?c :: u8) = c_lo"
    by (rule byte_eqI; simp only: byte_at; simp add: hi byte_bit_beyond)+
  then show "encode_raw u = raw"
    by (simp add: encode_raw_def u r UFRAG_VERSION_def and_masks to_be16_def [of ?c])
  have "take_bit 12 ?c = ?c" by (rule bit_word_eqI) (auto simp: byte_at dest: bit_imp_le_length)
  then show "uf_cluster_id u \<le> 0x0FFF" by (simp add: u cluster_bits)
qed

subsection \<open>The ASCII form\<close>

lemma length_encode_raw [simp]: "length (encode_raw u) = 10"
  by (simp add: encode_raw_def Let_def)

lemma encode_ascii_values:
  assumes "length raw = 10"
  shows "map crockford_value (encode_ascii_raw_bytes raw) =
      map Some (chunk_values (raw ! 0) (raw ! 1) (raw ! 2) (raw ! 3) (raw ! 4) @
                chunk_values (raw ! 5) (raw ! 6) (raw ! 7) (raw ! 8) (raw ! 9))"
    "decode_chunk (chunk_values (raw ! 0) (raw ! 1) (raw ! 2) (raw ! 3) (raw ! 4)) @
     decode_chunk (chunk_values (raw ! 5) (raw ! 6) (raw ! 7) (raw ! 8) (raw ! 9)) = raw"
proof -
  obtain b0 b1 b2 b3 b4 b5 b6 b7 b8 b9 where r: "raw = [b0, b1, b2, b3, b4, b5, b6, b7, b8, b9]"
    using assms by (auto simp: length_Suc_conv numeral_eq_Suc)
  show "map crockford_value (encode_ascii_raw_bytes raw) =
      map Some (chunk_values (raw ! 0) (raw ! 1) (raw ! 2) (raw ! 3) (raw ! 4) @
                chunk_values (raw ! 5) (raw ! 6) (raw ! 7) (raw ! 8) (raw ! 9))"
    "decode_chunk (chunk_values (raw ! 0) (raw ! 1) (raw ! 2) (raw ! 3) (raw ! 4)) @
     decode_chunk (chunk_values (raw ! 5) (raw ! 6) (raw ! 7) (raw ! 8) (raw ! 9)) = raw"
    by (simp_all add: r encode_chunk_values decode_chunk_values)
qed

lemma length_chunk_values [simp]: "length (chunk_values b0 b1 b2 b3 b4) = 8"
  by (simp add: chunk_values_def)

lemma those_map_Some: "those (map Some xs) = Some xs"
  by (induction xs) auto

lemma those_values: "those xs = Some ys \<longleftrightarrow> xs = map Some ys"
  by (induction xs arbitrary: ys) (auto split: option.splits)

lemma length_encode_ascii [simp]: "length (encode_ascii u) = 16"
proof -
  have "length (map crockford_value (encode_ascii u)) = 16"
    unfolding encode_ascii_def encode_ascii_values(1) [OF length_encode_raw] by simp
  then show ?thesis by simp
qed

lemma decode_encode_ascii:
  assumes "uf_cluster_id u \<le> 0x0FFF"
  shows "decode_ascii_detailed (encode_ascii u) = Inr u"
proof -
  note v = encode_ascii_values [OF length_encode_raw, of u]
  show ?thesis
    unfolding decode_ascii_detailed_def
    using decode_encode_raw [OF assms] v(2)
    by (simp add: ENCODED_LEN_def encode_ascii_def v(1) those_map_Some del: map_append
        add: length_encode_ascii [unfolded encode_ascii_def])
qed

lemma decode_ascii_values:
  assumes "decode_ascii_detailed s = Inr u"
  shows "map crockford_value s = map crockford_value (encode_ascii u)" "uf_cluster_id u \<le> 0x0FFF"
proof -
  obtain v where s: "length s = 16" "map crockford_value s = map Some v"
    and d: "decode_raw_detailed (decode_chunk (take 8 v) @ decode_chunk (drop 8 v)) = Inr u"
    using assms by (auto simp: decode_ascii_detailed_def ENCODED_LEN_def those_values split: if_splits option.splits)
  have l: "length v = 16" using s by (metis length_map)
  have v5: "take_bit 5 x = x" if "x \<in> set v" for x
  proof -
    from that have "Some x \<in> crockford_value ` set s" using s(2) by (metis image_eqI list.set_map)
    then show ?thesis using crockford_value_5bit by (auto dest: sym)
  qed
  obtain b0 b1 b2 b3 b4 where 1: "decode_chunk (take 8 v) = [b0, b1, b2, b3, b4]" "chunk_values b0 b1 b2 b3 b4 = take 8 v"
    using chunk_values_decode [of "take 8 v"] l map_idI [of "take 8 v" "take_bit 5"] v5 [OF in_set_takeD] by auto
  obtain b5 b6 b7 b8 b9 where 2: "decode_chunk (drop 8 v) = [b5, b6, b7, b8, b9]" "chunk_values b5 b6 b7 b8 b9 = drop 8 v"
    using chunk_values_decode [of "drop 8 v"] l map_idI [of "drop 8 v" "take_bit 5"] v5 [OF in_set_dropD] by auto
  have raw: "encode_raw u = [b0, b1, b2, b3, b4, b5, b6, b7, b8, b9]" and c: "uf_cluster_id u \<le> 0x0FFF"
    using encode_decode_raw [OF _ d] 1(1) 2(1) by simp_all
  show "uf_cluster_id u \<le> 0x0FFF" by (rule c)
  have "map crockford_value (encode_ascii u) = map Some (take 8 v @ drop 8 v)"
    unfolding encode_ascii_def raw encode_ascii_raw_bytes.simps map_append encode_chunk_values 1(2) 2(2) ..
  then show "map crockford_value s = map crockford_value (encode_ascii u)" unfolding append_take_drop_id s(2) by simp
qed

text \<open>
  Shard and slot determine the packed route and conversely: a route is built from a shard and a
  slot exactly when they are the shard and slot the route reads back, so every packed value has one
  preimage and values out of range have no route.
\<close>

theorem route_packing: "route_try_new shard slot = Some r \<longleftrightarrow> route_shard r = shard \<and> route_slot r = slot"
  by (rule route_try_new_iff)

text \<open>
  C24. Every ufrag with a 12-bit cluster id is encoded in sixteen characters that decode to it.
\<close>

theorem ufrag_roundtrip:
  assumes "ufrag_try_new cluster node route epoch = Inr u"
  shows "length (encode_ascii u) = ENCODED_LEN \<and> decode_ascii (encode_ascii u) = Some u \<and>
    decode_raw (encode_raw u) = Some u"
proof -
  have "uf_cluster_id u \<le> 0x0FFF"
    using assms by (auto simp: ufrag_try_new_def split: if_splits)
  then show ?thesis
    by (simp add: decode_ascii_def decode_raw_def decode_encode_ascii decode_encode_raw ENCODED_LEN_def RAW_LEN_def)
qed

theorem ufrag_roundtrip_witness:
  "decode_ascii (encode_ascii \<lparr>uf_cluster_id = 4095, uf_node_id = 7, uf_transport = TransportRoute 0xABCDEF01,
     uf_epoch = 65535\<rparr>) = Some \<lparr>uf_cluster_id = 4095, uf_node_id = 7, uf_transport = TransportRoute 0xABCDEF01,
     uf_epoch = 65535\<rparr>"
  using ufrag_roundtrip [of 4095 7 "TransportRoute 0xABCDEF01" 65535
    "\<lparr>uf_cluster_id = 4095, uf_node_id = 7, uf_transport = TransportRoute 0xABCDEF01, uf_epoch = 65535\<rparr>"]
  by (simp add: ufrag_try_new_def)

text \<open>
  A token is accepted only as a spelling of its ufrag's encoding: the decoded ufrag has a 12-bit
  cluster id, and its encoding has at every position a character of the same value as the token, so
  two tokens of one ufrag differ at most in letter case and in the aliases of \<open>0\<close> and \<open>1\<close>.
\<close>

theorem ufrag_canonical:
  assumes "decode_ascii s = Some u"
  shows "uf_cluster_id u \<le> 0x0FFF \<and> map crockford_value s = map crockford_value (encode_ascii u)"
proof -
  have "decode_ascii_detailed s = Inr u"
    using assms by (auto simp: decode_ascii_def split: sum.splits)
  then show ?thesis using decode_ascii_values by simp
qed

theorem ufrag_canonical_witness:
  "map crockford_value (bytes ''07z20OilzzABCDef'') = map crockford_value (encode_ascii \<lparr>uf_cluster_id = 510,
      uf_node_id = 8192, uf_transport = TransportRoute 570414262, uf_epoch = 13775\<rparr>)"
proof -
  have "decode_ascii (bytes ''07z20OilzzABCDef'') = Some \<lparr>uf_cluster_id = 510, uf_node_id = 8192,
      uf_transport = TransportRoute 570414262, uf_epoch = 13775\<rparr>" by code_simp
  from ufrag_canonical [OF this] show ?thesis by (rule conjunct2)
qed

end
