(* ===== verification/Stun.thy ===== *)
theory Stun
  imports Bytes
begin

text \<open>
  The minimal STUN parser of the packet steering path, \<open>crates/pulsebeam-steer/src/stun.rs\<close>.  The
  parser is related to a specification of the wire format: a STUN message is built from a header and
  a list of attributes, and the parser's answer is the first \<open>USERNAME\<close> of that list.
\<close>

unbundle bit_operations_syntax

subsection \<open>The code\<close>

definition MAGIC_COOKIE :: u32 where "MAGIC_COOKIE = 0x2112A442"
definition MIN_STUN_HEADER_SIZE :: nat where "MIN_STUN_HEADER_SIZE = 20"
definition MAGIC_COOKIE_BYTES :: "u8 list" where "MAGIC_COOKIE_BYTES = to_be32 MAGIC_COOKIE"
definition ATTRIBUTE_HEADER_SIZE :: nat where "ATTRIBUTE_HEADER_SIZE = 4"
definition USERNAME_ATTRIBUTE_TYPE :: u16 where "USERNAME_ATTRIBUTE_TYPE = 6"

definition is_stun :: "u8 list \<Rightarrow> bool" where
  "is_stun buf =
     (if length buf < MIN_STUN_HEADER_SIZE then False
      else case get_at buf 0 of
             None \<Rightarrow> False
           | Some first \<Rightarrow> if first AND 0xC0 \<noteq> 0 then False
                           else get_range buf 4 8 = Some MAGIC_COOKIE_BYTES)"

text \<open>\<open>u16::from_be_bytes([*data.get(i)?, *data.get(i + 1)?])\<close>\<close>

definition get_be16 :: "u8 list \<Rightarrow> nat \<Rightarrow> u16 option" where
  "get_be16 data i = Option.bind (get_at data i) (\<lambda>a. Option.bind (get_at data (i + 1)) (\<lambda>b. Some (be16 a b)))"

text \<open>\<open>n.saturating_add(3) & !3\<close>: clearing the two low bits rounds down to a multiple of four.\<close>

definition padded_len :: "nat \<Rightarrow> nat" where
  "padded_len n = (n + 3) div 4 * 4"

function find_username_loop :: "u8 list \<Rightarrow> nat \<Rightarrow> nat \<Rightarrow> u8 list option" where
  "find_username_loop data attributes_end current_pos =
     (if current_pos < attributes_end then
        if current_pos + ATTRIBUTE_HEADER_SIZE > attributes_end then None
        else case get_be16 data current_pos of
          None \<Rightarrow> None
        | Some attr_type \<Rightarrow> (case get_be16 data (current_pos + 2) of
            None \<Rightarrow> None
          | Some attr_value_len \<Rightarrow>
              let value_pos = current_pos + ATTRIBUTE_HEADER_SIZE;
                  end_of_value = value_pos + unat attr_value_len
              in if end_of_value > attributes_end then None
                 else if attr_type = USERNAME_ATTRIBUTE_TYPE then get_range data value_pos end_of_value
                 else let next_pos = value_pos + padded_len (unat attr_value_len)
                      in if next_pos > attributes_end then None
                         else find_username_loop data attributes_end next_pos)
      else None)"
  by pat_completeness auto
termination
  by (relation "measure (\<lambda>(data, e, p). e - p)") (auto simp: ATTRIBUTE_HEADER_SIZE_def)

definition find_username_slice :: "u8 list \<Rightarrow> u8 list option" where
  "find_username_slice data =
     (if length data < MIN_STUN_HEADER_SIZE then None
      else case get_at data 0 of
        None \<Rightarrow> None
      | Some first \<Rightarrow>
          if first AND 0xC0 \<noteq> 0 then None
          else if get_range data 4 8 \<noteq> Some MAGIC_COOKIE_BYTES then None
          else case get_be16 data 2 of
            None \<Rightarrow> None
          | Some message_length \<Rightarrow>
              let expected_total_len = MIN_STUN_HEADER_SIZE + unat message_length
              in if length data < expected_total_len \<or> unat message_length = 0 then None
                 else find_username_loop data expected_total_len MIN_STUN_HEADER_SIZE)"

function first_token_loop :: "u8 list \<Rightarrow> u8 \<Rightarrow> nat \<Rightarrow> u8 list option" where
  "first_token_loop input delimiter i =
     (if i < length input then
        if get_at input i = Some delimiter then get_range input 0 i
        else first_token_loop input delimiter (i + 1)
      else None)"
  by pat_completeness auto
termination
  by (relation "measure (\<lambda>(input, d, i). length input - i)") auto

definition first_token :: "u8 list \<Rightarrow> u8 \<Rightarrow> u8 list option" where
  "first_token input delimiter = first_token_loop input delimiter 0"

definition server_ufrag :: "u8 list \<Rightarrow> u8 list option" where
  "server_ufrag buf = Option.bind (find_username_slice buf) (\<lambda>s. first_token s (of_char CHR '':''))"

declare find_username_loop.simps [simp del] first_token_loop.simps [simp del]

subsection \<open>The first token\<close>

lemma first_token_loop_spec:
  "i \<le> length s \<Longrightarrow> d \<notin> set (take i s) \<Longrightarrow>
   first_token_loop s d i = (if d \<in> set (drop i s) then Some (takeWhile (\<lambda>x. x \<noteq> d) s) else None)"
proof (induction s d i rule: first_token_loop.induct)
  case (1 s d i)
  show ?case
  proof (cases "i < length s")
    case True
    have dr: "drop i s = s ! i # drop (Suc i) s" using True by (simp add: Cons_nth_drop_Suc)
    show ?thesis
    proof (cases "s ! i = d")
      case eq: True
      have "s = take i s @ d # drop (Suc i) s" using True eq by (metis id_take_nth_drop)
      then have "takeWhile (\<lambda>x. x \<noteq> d) s = take i s"
        using 1(3) by (metis (mono_tags, lifting) append.right_neutral takeWhile.simps(2) takeWhile_append2)
      then show ?thesis
        using True eq dr by (subst first_token_loop.simps) (simp add: get_at_def get_range_def)
    next
      case False
      then have "d \<notin> set (take (i + 1) s)" using 1(3) True by (simp add: take_Suc_conv_app_nth)
      from 1(1) [OF True _ _ this] False True show ?thesis
        by (subst first_token_loop.simps) (simp add: get_at_def dr)
    qed
  next
    case False
    then show ?thesis using 1(2) by (subst first_token_loop.simps) simp
  qed
qed

lemma first_token_spec:
  "first_token s d = (if d \<in> set s then Some (takeWhile (\<lambda>x. x \<noteq> d) s) else None)"
  using first_token_loop_spec [of 0 s d] by (simp add: first_token_def)

subsection \<open>The wire format\<close>

text \<open>
  The format is stated without the definitions of the code: the value of an attribute is followed by as
  many zero bytes as it takes to reach a multiple of four, the magic cookie is four literal bytes, and
  \<open>USERNAME\<close> is attribute 6.
\<close>

type_synonym stun_attribute = "u16 \<times> u8 list"

definition fill :: "nat \<Rightarrow> nat" where
  "fill n = (if n mod 4 = 0 then 0 else 4 - n mod 4)"

definition attribute_bytes :: "stun_attribute \<Rightarrow> u8 list" where
  "attribute_bytes = (\<lambda>(t, v). to_be16 t @ to_be16 (of_nat (length v)) @ v @
     replicate (fill (length v)) 0)"

definition attributes_bytes :: "stun_attribute list \<Rightarrow> u8 list" where
  "attributes_bytes as = concat (map attribute_bytes as)"

definition stun_message :: "u8 \<Rightarrow> u8 \<Rightarrow> u8 list \<Rightarrow> stun_attribute list \<Rightarrow> u8 list" where
  "stun_message b0 b1 tx as = [b0, b1] @ to_be16 (of_nat (length (attributes_bytes as))) @
     [0x21, 0x12, 0xA4, 0x42] @ tx @ attributes_bytes as"

lemma padded_len_ge: "n \<le> padded_len n"
  by (simp add: padded_len_def)

lemma padded_len_fill: "padded_len n = n + fill n"
  unfolding padded_len_def fill_def by presburger

lemma magic_cookie_bytes: "MAGIC_COOKIE_BYTES = [0x21, 0x12, 0xA4, 0x42]"
  by (simp add: MAGIC_COOKIE_BYTES_def MAGIC_COOKIE_def to_be32_def)

lemma length_attribute_bytes: "length (attribute_bytes (t, v)) = 4 + padded_len (length v)"
  by (simp add: attribute_bytes_def padded_len_fill)

lemma get_be16_at:
  "get_be16 (pre @ to_be16 w @ post) (length pre) = Some w"
  by (simp add: get_be16_def get_at_def to_be16_def nth_append)

text \<open>The loop, started at the attributes \<open>as\<close> of a message, finds the first \<open>USERNAME\<close>.\<close>

lemma find_username_loop_spec:
  assumes "length (attributes_bytes as) < 65536"
  shows "find_username_loop (pre @ attributes_bytes as @ post) (length pre + length (attributes_bytes as)) (length pre) =
     map_of as 6"
  using assms
proof (induction "as" arbitrary: pre)
  case Nil
  show ?case by (subst find_username_loop.simps) (simp add: attributes_bytes_def)
next
  case (Cons a "as")
  obtain t v where a: "a = (t, v)" by (cases a)
  let ?rest = "attributes_bytes as" and ?pad = "replicate (fill (length v)) (0 :: u8)"
  let ?data = "pre @ attributes_bytes (a # as) @ post"
  have d: "attributes_bytes (a # as) = to_be16 t @ to_be16 (of_nat (length v)) @ v @ ?pad @ ?rest"
    by (simp add: attributes_bytes_def attribute_bytes_def a)
  have len: "length (attributes_bytes (a # as)) = 4 + padded_len (length v) + length ?rest"
    by (simp add: attributes_bytes_def a length_attribute_bytes)
  have vl: "unat (of_nat (length v) :: u16) = length v"
    using Cons.prems len padded_len_ge [of "length v"] by (intro unat_of_nat_fits) simp
  have t: "get_be16 ?data (length pre) = Some t" unfolding d by (simp add: get_be16_at)
  have l: "get_be16 ?data (length pre + 2) = Some (of_nat (length v))"
    using get_be16_at [of "pre @ to_be16 t" "of_nat (length v)" "v @ ?pad @ ?rest @ post"] unfolding d by simp
  have val: "get_range ?data (length pre + 4) (length pre + 4 + length v) = Some v"
    unfolding d by (simp add: get_range_def)
  have rest: "find_username_loop ?data (length pre + length (attributes_bytes (a # as))) (length pre + 4 + padded_len (length v)) =
      map_of as 6"
  proof -
    let ?pre = "pre @ to_be16 t @ to_be16 (of_nat (length v)) @ v @ ?pad"
    have lp: "length ?pre = length pre + 4 + padded_len (length v)" by (simp add: padded_len_fill)
    have "?data = ?pre @ ?rest @ post" by (simp add: d)
    moreover have "length ?rest < 65536" using Cons.prems len by simp
    note Cons.IH [OF this, of ?pre, unfolded lp]
    ultimately show ?thesis unfolding len by (simp add: add.assoc)
  qed
  show ?case
    using t l val rest len padded_len_ge [of "length v"]
    by (subst find_username_loop.simps) (auto simp: ATTRIBUTE_HEADER_SIZE_def USERNAME_ATTRIBUTE_TYPE_def vl a Let_def)
qed

lemma find_username_spec:
  assumes "b0 AND 0xC0 = 0" and "length tx = 12" and "length (attributes_bytes as) < 65536"
  shows "find_username_slice (stun_message b0 b1 tx as @ post) = map_of as 6"
    "is_stun (stun_message b0 b1 tx as @ post)"
proof -
  let ?n = "length (attributes_bytes as)"
  let ?hdr = "[b0, b1] @ to_be16 (of_nat ?n) @ [0x21, 0x12, 0xA4, 0x42] @ tx"
  let ?data = "stun_message b0 b1 tx as @ post"
  have data: "?data = ?hdr @ attributes_bytes as @ post" by (simp add: stun_message_def)
  have n: "unat (of_nat ?n :: u16) = ?n" using assms(3) by (intro unat_of_nat_fits) simp
  have c: "get_range ?data 4 8 = Some MAGIC_COOKIE_BYTES"
    by (simp add: stun_message_def get_range_def magic_cookie_bytes to_be16_def)
  have l: "get_be16 ?data 2 = Some (of_nat ?n)"
    by (simp add: stun_message_def get_be16_def get_at_def to_be16_def)
  have 0: "get_at ?data 0 = Some b0" by (simp add: stun_message_def get_at_def)
  have len: "length ?data = 20 + ?n + length post" using assms(2) by (simp add: stun_message_def)
  have hdr: "length ?hdr = 20" using assms(2) by simp
  have loop: "find_username_loop ?data (20 + ?n) 20 = map_of as 6"
    using find_username_loop_spec [OF assms(3), of ?hdr post] unfolding data hdr .
  show "is_stun ?data" using 0 c len assms(1) by (simp add: is_stun_def MIN_STUN_HEADER_SIZE_def)
  show "find_username_slice ?data = map_of as 6"
  proof (cases "?n = 0")
    case True
    then have "as = []" by (cases "as") (auto simp: attributes_bytes_def attribute_bytes_def to_be16_def)
    then show ?thesis using 0 c l len assms(1) n True
      by (simp add: find_username_slice_def MIN_STUN_HEADER_SIZE_def)
  next
    case False
    then show ?thesis using 0 c l len assms(1) n loop
      by (simp add: find_username_slice_def MIN_STUN_HEADER_SIZE_def)
  qed
qed

end
