(* ===== verification/Steer.thy ===== *)
theory Steer
  imports Ufrag Stun
begin

text \<open>
  Steering of UDP packets to shards, \<open>crates/pulsebeam-steer/src/classify.rs\<close> and
  \<open>crates/pulsebeam-steer/src/steer.rs\<close>: the classification of a client's first packet by the ufrag
  in its STUN username, and the decision for packets of flows that have an affinity.  The flow table
  behind the trait \<open>FlowLookup\<close> belongs to the caller: it is an argument of \<open>steer_flow\<close>.
\<close>

subsection \<open>The code\<close>

datatype DropReason = NoUsername | BadUfragLen | BadUfragEncoding | DropBadVersion | WrongCluster
  | WrongNode | InvalidShard

record NodeScope =
  ns_cluster_id :: u16
  ns_node_id :: u16
  ns_shard_count :: u16

datatype Bootstrap = NotStun | Route (bs_shard: u16) (bs_slot: u32) (bs_epoch: u16) | Reject DropReason

definition decode_ufrag_token :: "u8 list \<Rightarrow> DropReason + IceUfrag" where
  "decode_ufrag_token token =
     (if length token \<noteq> ENCODED_LEN then Inl BadUfragLen
      else map_err (\<lambda>e. case e of BadEncoding \<Rightarrow> BadUfragEncoding | BadVersion \<Rightarrow> DropBadVersion
                              | InvalidCluster \<Rightarrow> WrongCluster) (decode_ascii_detailed token))"

definition classify_bootstrap :: "u8 list \<Rightarrow> NodeScope \<Rightarrow> Bootstrap" where
  "classify_bootstrap payload scope =
     (if \<not> is_stun payload then NotStun
      else case server_ufrag payload of
        None \<Rightarrow> Reject NoUsername
      | Some username \<Rightarrow> (case decode_ufrag_token username of
          Inl reason \<Rightarrow> Reject reason
        | Inr u \<Rightarrow>
            if uf_cluster_id u \<noteq> ns_cluster_id scope then Reject WrongCluster
            else if uf_node_id u \<noteq> ns_node_id scope then Reject WrongNode
            else if route_shard (uf_transport u) \<ge> ns_shard_count scope then Reject InvalidShard
            else Route (route_shard (uf_transport u)) (route_slot (uf_transport u)) (uf_epoch u)))"

definition MAX_SHARDS :: u32 where "MAX_SHARDS = push_bit ROUTE_SHARD_BITS 1"

record FlowKey =
  fk_src_addr :: "u8 list"
  fk_dst_addr :: "u8 list"
  fk_src_port :: u16
  fk_dst_port :: u16
  fk_is_ipv6 :: u8
  fk_pad :: "u8 list"

definition FLOW_KEY_LEN :: nat where "FLOW_KEY_LEN = 40"

text \<open>The closure \<open>write\<close>; the byte order of the target is the argument \<open>little\<close>.\<close>

definition flow_write :: "nat \<Rightarrow> u8 list \<Rightarrow> u8 list \<Rightarrow> u8 list" where
  "flow_write offset source buf =
     (if offset + length source \<le> length buf
      then take offset buf @ source @ drop (offset + length source) buf else buf)"

definition to_ne16 :: "bool \<Rightarrow> u16 \<Rightarrow> u8 list" where
  "to_ne16 little w = (if little then rev (to_be16 w) else to_be16 w)"

definition flow_key_bytes :: "bool \<Rightarrow> FlowKey \<Rightarrow> u8 list" where
  "flow_key_bytes little k =
     (let buf = replicate FLOW_KEY_LEN 0;
          buf = flow_write 0 (fk_src_addr k) buf;
          buf = flow_write 16 (fk_dst_addr k) buf;
          buf = flow_write 32 (to_ne16 little (fk_src_port k)) buf;
          buf = flow_write 34 (to_ne16 little (fk_dst_port k)) buf
      in flow_write 36 [fk_is_ipv6 k] buf)"

datatype Verdict = Select u16 | Pass | Drop DropReason

definition steer_flow :: "(FlowKey \<Rightarrow> u16 option) \<Rightarrow> FlowKey \<Rightarrow> u16 \<Rightarrow> Verdict" where
  "steer_flow lookup key shard_count = (case lookup key of
     Some shard \<Rightarrow> if shard < shard_count \<and> (ucast shard :: u32) < MAX_SHARDS then Select shard else Pass
   | None \<Rightarrow> Pass)"

subsection \<open>Classification\<close>

lemma crockford_value_colon: "crockford_value (of_char CHR '':'') = None"
  by code_simp

lemma encode_ascii_no_colon: "of_char CHR '':'' \<notin> set (encode_ascii u)"
proof
  assume "of_char CHR '':'' \<in> set (encode_ascii u)"
  then have "None \<in> set (map crockford_value (encode_ascii u))"
    using crockford_value_colon by (metis image_eqI list.set_map)
  then show False
    unfolding encode_ascii_def encode_ascii_values(1) [OF length_encode_raw] by auto
qed

lemma server_ufrag_message:
  assumes "b0 AND 0xC0 = 0" and "length tx = 12" and "length (attributes_bytes as) < 65536"
    and "map_of as 6 = Some (encode_ascii u @ of_char CHR '':'' # client)"
  shows "server_ufrag (stun_message b0 b1 tx as @ post) = Some (encode_ascii u)"
proof -
  have "takeWhile (\<lambda>x. x \<noteq> of_char CHR '':'') (encode_ascii u @ of_char CHR '':'' # client) = encode_ascii u"
    using encode_ascii_no_colon [of u] by (subst takeWhile_append2) auto
  then show ?thesis
    by (simp add: server_ufrag_def find_username_spec(1) [OF assms(1-3)] assms(4) first_token_spec)
qed

text \<open>
  C22. A client's STUN request is classified by the ufrag it names: for every well-formed STUN message
  whose first \<open>USERNAME\<close>, attribute 6, is the encoding of a ufrag, a colon and anything, whatever the other
  attributes, the message is routed to the shard, slot and epoch of the ufrag if cluster and node are
  this node's and the shard exists, and is rejected with the reason otherwise.
\<close>

theorem classify_request:
  assumes "b0 AND 0xC0 = 0" and "length tx = 12" and "length (attributes_bytes as) < 65536"
    and "map_of as 6 = Some (encode_ascii u @ of_char CHR '':'' # client)"
    and "uf_cluster_id u \<le> 0x0FFF"
  shows "classify_bootstrap (stun_message b0 b1 tx as @ post) scope =
     (if uf_cluster_id u \<noteq> ns_cluster_id scope then Reject WrongCluster
      else if uf_node_id u \<noteq> ns_node_id scope then Reject WrongNode
      else if route_shard (uf_transport u) \<ge> ns_shard_count scope then Reject InvalidShard
      else Route (route_shard (uf_transport u)) (route_slot (uf_transport u)) (uf_epoch u))"
  by (simp add: classify_bootstrap_def find_username_spec(2) [OF assms(1-3)]
      server_ufrag_message [OF assms(1-4)] decode_ufrag_token_def ENCODED_LEN_def
      decode_encode_ascii [OF assms(5)])

theorem classify_request_witness:
  "classify_bootstrap (stun_message 0 1 (replicate 12 7) [(0x8022, [1, 2, 3]),
      (6, encode_ascii \<lparr>uf_cluster_id = 5, uf_node_id = 9, uf_transport = TransportRoute 0x00300007,
                        uf_epoch = 2\<rparr> @ of_char CHR '':'' # [65])] @ [])
      \<lparr>ns_cluster_id = 5, ns_node_id = 9, ns_shard_count = 4\<rparr> = Route 3 7 2"
proof -
  let ?u = "\<lparr>uf_cluster_id = 5, uf_node_id = 9, uf_transport = TransportRoute 0x00300007, uf_epoch = 2\<rparr>"
  let ?as = "[(0x8022, [1, 2, 3]), (6, encode_ascii ?u @ of_char CHR '':'' # [65])]"
  have "length (attributes_bytes ?as) < 65536"
    by (simp add: attributes_bytes_def length_attribute_bytes padded_len_def)
  moreover have "route_shard (TransportRoute 0x00300007) = 3" "route_slot (TransportRoute 0x00300007) = 7"
    by code_simp+
  ultimately show ?thesis
    by (subst classify_request [where u = ?u and client = "[65]"]) simp_all
qed

text \<open>
  C23. Whatever bytes arrive, a packet is routed only on the evidence of a decodable ufrag in its
  STUN username that names this cluster and node, and only to an existing shard and a 20-bit slot.
\<close>

theorem classify_route_sound:
  assumes "classify_bootstrap payload scope = Route shard slot epoch"
  shows "is_stun payload \<and> shard < ns_shard_count scope \<and> slot \<le> ROUTE_SLOT_MASK \<and>
     (\<exists>token u. server_ufrag payload = Some token \<and> decode_ascii token = Some u \<and>
        uf_cluster_id u = ns_cluster_id scope \<and> uf_node_id u = ns_node_id scope \<and> uf_epoch u = epoch \<and>
        route_try_new shard slot = Some (uf_transport u))"
proof -
  obtain token u where "is_stun payload" "server_ufrag payload = Some token" "decode_ufrag_token token = Inr u"
    and u: "uf_cluster_id u = ns_cluster_id scope" "uf_node_id u = ns_node_id scope" "uf_epoch u = epoch"
      "shard = route_shard (uf_transport u)" "slot = route_slot (uf_transport u)" "shard < ns_shard_count scope"
    using assms by (auto simp: classify_bootstrap_def not_le split: if_splits option.splits sum.splits)
  moreover from this(3) have "decode_ascii token = Some u"
    by (auto simp: decode_ufrag_token_def decode_ascii_def map_err_Inr_iff split: if_splits)
  moreover have "slot \<le> ROUTE_SLOT_MASK" using u(5) by (simp add: route_slot_def word_and_le1)
  moreover have "route_try_new shard slot = Some (uf_transport u)" using u(4,5) by (simp add: route_try_new_iff)
  ultimately show ?thesis by blast
qed

theorem classify_route_sound_witness:
  "(\<exists>token u. server_ufrag ([0, 1, 0, 24, 0x21, 0x12, 0xA4, 0x42] @ replicate 12 7 @ [0, 6, 0, 18] @
        bytes ''002G02806000E002:A'' @ [0, 0]) = Some token \<and> decode_ascii token = Some u \<and>
      uf_cluster_id u = 5 \<and> uf_node_id u = 9 \<and> uf_epoch u = 2 \<and>
      route_try_new 3 7 = Some (uf_transport u))"
proof -
  have "classify_bootstrap ([0, 1, 0, 24, 0x21, 0x12, 0xA4, 0x42] @ replicate 12 7 @ [0, 6, 0, 18] @
      bytes ''002G02806000E002:A'' @ [0, 0])
      \<lparr>ns_cluster_id = 5, ns_node_id = 9, ns_shard_count = 4\<rparr> = Route 3 7 2" by code_simp
  from classify_route_sound [OF this] show ?thesis by simp
qed

subsection \<open>Flow keys\<close>

lemma flow_key_bytes_eq:
  assumes "length (fk_src_addr k) = 16" and "length (fk_dst_addr k) = 16"
  shows "flow_key_bytes little k = fk_src_addr k @ fk_dst_addr k @ to_ne16 little (fk_src_port k) @
     to_ne16 little (fk_dst_port k) @ [fk_is_ipv6 k, 0, 0, 0]"
proof -
  have "replicate 40 (0 :: u8) = replicate 16 0 @ replicate 16 0 @ [0, 0, 0, 0, 0, 0, 0, 0]"
    by (simp add: numeral_eq_Suc)
  moreover have "length (to_ne16 little w) = 2" for w by (simp add: to_ne16_def)
  ultimately show ?thesis
    using assms by (simp add: flow_key_bytes_def flow_write_def FLOW_KEY_LEN_def Let_def)
qed

lemma to_ne16_inject: "to_ne16 little v = to_ne16 little w \<longleftrightarrow> v = w"
proof -
  have "to_be16 v = to_be16 w \<longleftrightarrow> v = w"
    by (metis be16_to_be16 list.inject to_be16_def)
  then show ?thesis by (simp add: to_ne16_def)
qed

text \<open>
  The map representation of a flow key identifies the flow: it is 40 bytes long, and two keys
  have the same bytes exactly when they agree in everything but the padding, which never reaches the
  representation.
\<close>

theorem flow_key_identifies:
  assumes "length (fk_src_addr k) = 16" and "length (fk_dst_addr k) = 16"
    and "length (fk_src_addr k') = 16" and "length (fk_dst_addr k') = 16"
  shows "length (flow_key_bytes little k) = FLOW_KEY_LEN \<and>
     (flow_key_bytes little k = flow_key_bytes little k' \<longleftrightarrow> k\<lparr>fk_pad := []\<rparr> = k'\<lparr>fk_pad := []\<rparr>)"
proof -
  have l: "length (to_ne16 little w) = 2" for w by (simp add: to_ne16_def)
  show ?thesis
    using assms by (cases k; cases k') (auto simp: flow_key_bytes_eq FLOW_KEY_LEN_def l to_ne16_inject)
qed

theorem flow_key_identifies_witness:
  "flow_key_bytes True \<lparr>fk_src_addr = replicate 16 1, fk_dst_addr = replicate 16 2, fk_src_port = 3,
       fk_dst_port = 4, fk_is_ipv6 = 0, fk_pad = [1, 2, 3]\<rparr> =
   flow_key_bytes True \<lparr>fk_src_addr = replicate 16 1, fk_dst_addr = replicate 16 2, fk_src_port = 3,
       fk_dst_port = 4, fk_is_ipv6 = 0, fk_pad = [0, 0, 0]\<rparr>"
  using flow_key_identifies [of
    "\<lparr>fk_src_addr = replicate 16 1, fk_dst_addr = replicate 16 2, fk_src_port = 3,
       fk_dst_port = 4, fk_is_ipv6 = 0, fk_pad = [1, 2, 3]\<rparr>"
    "\<lparr>fk_src_addr = replicate 16 1, fk_dst_addr = replicate 16 2, fk_src_port = 3,
       fk_dst_port = 4, fk_is_ipv6 = 0, fk_pad = [0, 0, 0]\<rparr>" True]
  by simp

end
