(* ===== verification/Clock.thy ===== *)
theory Clock
  imports Prelude
begin

text \<open>
  The NTP timeline, \<open>crates/pulsebeam/src/clock.rs\<close>: 32.32 fixed-point times that wrap at the era
  boundary, their conversion to and from durations and the host clocks, and the recovery of a full
  time from the 32 bits an envelope carries.

  A \<open>SystemTime\<close> is the number of nanoseconds since the Unix epoch and an \<open>Instant\<close> the number of
  nanoseconds since an arbitrary origin, both as \<open>int\<close>: the platform's range of 64-bit seconds is
  not reached by the additions here.  A \<open>Duration\<close> is its pair of seconds and nanoseconds.
\<close>

unbundle bit_operations_syntax

subsection \<open>The code\<close>

definition NTP_UNIX_OFFSET_SECS :: u64 where "NTP_UNIX_OFFSET_SECS = 2208988800"
definition NTP_UNITS_PER_SEC :: u64 where "NTP_UNITS_PER_SEC = push_bit 32 1"
definition MID_SHIFT :: nat where "MID_SHIFT = 16"
definition MAX_EXPANSION_GAP :: int where "MAX_EXPANSION_GAP = 2 ^ 30"

record Duration =
  d_secs :: u64
  d_nanos :: u32

text \<open>\<open>Duration::new\<close>: surplus nanoseconds carry into the seconds.  It panics only if the seconds
  overflow, which the 32-bit seconds used here cannot.\<close>

definition duration_new :: "u64 \<Rightarrow> u32 \<Rightarrow> Duration" where
  "duration_new secs nanos =
     (if nanos < 1000000000 then \<lparr>d_secs = secs, d_nanos = nanos\<rparr>
      else \<lparr>d_secs = secs + ucast (nanos div 1000000000), d_nanos = nanos mod 1000000000\<rparr>)"

definition DURATION_ZERO :: Duration where "DURATION_ZERO = \<lparr>d_secs = 0, d_nanos = 0\<rparr>"

type_synonym SystemTime = int
type_synonym Instant = int

definition duration_of_nanos :: "nat \<Rightarrow> Duration" where
  "duration_of_nanos n = \<lparr>d_secs = of_nat (n div 1000000000), d_nanos = of_nat (n mod 1000000000)\<rparr>"

definition duration_nanos :: "Duration \<Rightarrow> nat" where
  "duration_nanos d = unat (d_secs d) * 1000000000 + unat (d_nanos d)"

definition frac_units :: "u32 \<Rightarrow> u64" where
  "frac_units nanos = sat_add (push_bit 32 (ucast nanos)) 500000000 div 1000000000"

definition frac_nanos :: "u64 \<Rightarrow> u32" where
  "frac_nanos raw =
     ucast (drop_bit 32 (sat_add (sat_mul (raw AND 0xFFFFFFFF) 1000000000) (push_bit 31 1)))"

definition duration_to_units :: "Duration \<Rightarrow> u64" where
  "duration_to_units d = sat_add (sat_mul (d_secs d) NTP_UNITS_PER_SEC) (frac_units (d_nanos d))"

definition units_to_duration :: "u64 \<Rightarrow> Duration" where
  "units_to_duration raw = duration_new (drop_bit 32 raw) (frac_nanos raw)"

datatype NtpTime = NtpTime (as_raw: u64)

definition NTP_ZERO :: NtpTime where "NTP_ZERO = NtpTime 0"

definition from_system_time :: "SystemTime \<Rightarrow> NtpTime" where
  "from_system_time t =
     (let unix = duration_of_nanos (nat t);
          secs = (d_secs unix + NTP_UNIX_OFFSET_SECS) AND 0xFFFFFFFF
      in NtpTime (push_bit 32 secs OR frac_units (d_nanos unix)))"

definition to_system_time :: "NtpTime \<Rightarrow> SystemTime" where
  "to_system_time t =
     (let secs = sat_sub (drop_bit 32 (as_raw t)) NTP_UNIX_OFFSET_SECS
      in int (duration_nanos (duration_new secs (frac_nanos (as_raw t)))))"

definition middle32 :: "NtpTime \<Rightarrow> u32" where
  "middle32 t = ucast (drop_bit MID_SHIFT (as_raw t))"

definition units_since :: "NtpTime \<Rightarrow> NtpTime \<Rightarrow> int" where
  "units_since t earlier = sint (as_raw t - as_raw earlier)"

definition ntp_saturating_duration_since :: "NtpTime \<Rightarrow> NtpTime \<Rightarrow> Duration" where
  "ntp_saturating_duration_since t earlier =
     (let units = units_since t earlier
      in if units > 0 then units_to_duration (of_int units) else DURATION_ZERO)"

definition ntp_saturating_add :: "NtpTime \<Rightarrow> Duration \<Rightarrow> NtpTime" where
  "ntp_saturating_add t d = NtpTime (sat_add (as_raw t) (duration_to_units d))"

definition ntp_saturating_sub :: "NtpTime \<Rightarrow> Duration \<Rightarrow> NtpTime" where
  "ntp_saturating_sub t d = NtpTime (sat_sub (as_raw t) (duration_to_units d))"

text \<open>The result of \<open>duration_since\<close>: \<open>Inl\<close> is \<open>Err\<close> with the magnitude.\<close>

definition ntp_duration_since :: "NtpTime \<Rightarrow> NtpTime \<Rightarrow> Duration + Duration" where
  "ntp_duration_since t earlier =
     (let units = units_since t earlier
      in if units \<ge> 0 then Inr (units_to_duration (of_int units))
         else Inl (units_to_duration (of_int \<bar>units\<bar>)))"

definition ntp_checked_add :: "NtpTime \<Rightarrow> Duration \<Rightarrow> NtpTime option" where
  "ntp_checked_add t d =
     (let u = duration_to_units d in if as_raw t + u < as_raw t then None else Some (NtpTime (as_raw t + u)))"

definition ntp_checked_sub :: "NtpTime \<Rightarrow> Duration \<Rightarrow> NtpTime option" where
  "ntp_checked_sub t d =
     (let u = duration_to_units d in if u \<le> as_raw t then Some (NtpTime (as_raw t - u)) else None)"

definition ntp_wrapping_add :: "NtpTime \<Rightarrow> Duration \<Rightarrow> NtpTime" where
  "ntp_wrapping_add t d = NtpTime (as_raw t + duration_to_units d)"

definition ntp_wrapping_sub :: "NtpTime \<Rightarrow> Duration \<Rightarrow> NtpTime" where
  "ntp_wrapping_sub t d = NtpTime (as_raw t - duration_to_units d)"

text \<open>\<open>full_ntp_micros\<close>: the subtraction that makes the NTP epoch cannot fail.\<close>

definition full_ntp_micros :: "SystemTime \<Rightarrow> u64" where
  "full_ntp_micros wall =
     (let elapsed = nat (wall + int (unat NTP_UNIX_OFFSET_SECS) * 1000000000) div 1000
      in if elapsed < 2 ^ 64 then of_nat elapsed else - 1)"

record ReceiveTime =
  rt_wall :: SystemTime
  rt_monotonic :: Instant

record WallAnchor =
  wa_at :: ReceiveTime

definition anchor_new :: "SystemTime \<Rightarrow> Instant \<Rightarrow> WallAnchor" where
  "anchor_new wall m = \<lparr>wa_at = \<lparr>rt_wall = wall, rt_monotonic = m\<rparr>\<rparr>"

definition observe_execution :: "ReceiveTime \<Rightarrow> WallAnchor \<Rightarrow> ReceiveTime \<times> WallAnchor" where
  "observe_execution at a =
     (if rt_monotonic at < rt_monotonic (wa_at a) then (wa_at a, a)
      else let at = at\<lparr>rt_wall := max (rt_wall at) (rt_wall (wa_at a))\<rparr>
           in (at, a\<lparr>wa_at := at\<rparr>))"

definition anchor_ntp :: "WallAnchor \<Rightarrow> NtpTime" where
  "anchor_ntp a = from_system_time (rt_wall (wa_at a))"

definition to_ntp :: "WallAnchor \<Rightarrow> Instant \<Rightarrow> NtpTime" where
  "to_ntp a t =
     (if t \<ge> rt_monotonic (wa_at a)
      then ntp_wrapping_add (anchor_ntp a) (duration_of_nanos (nat (t - rt_monotonic (wa_at a))))
      else ntp_wrapping_sub (anchor_ntp a) (duration_of_nanos (nat (rt_monotonic (wa_at a) - t))))"

definition to_instant :: "WallAnchor \<Rightarrow> NtpTime \<Rightarrow> Instant" where
  "to_instant a t =
     (let units = units_since t (anchor_ntp a)
      in if units \<ge> 0
         then rt_monotonic (wa_at a) + int (duration_nanos (units_to_duration (of_int units)))
         else rt_monotonic (wa_at a) - int (duration_nanos (units_to_duration (of_int \<bar>units\<bar>))))"

datatype ExpandError = Ambiguous int

record NtpExpander =
  ex_reference :: NtpTime

definition expander_new :: "NtpTime \<Rightarrow> NtpExpander" where
  "expander_new r = \<lparr>ex_reference = r\<rparr>"

text \<open>The 48-bit step count plus a gap below \<open>2^30\<close> is far from the bounds of \<open>i64\<close>, so the
  saturating addition is the addition of \<open>int\<close>; the cast to \<open>u64\<close> wraps.\<close>

definition expand :: "u32 \<Rightarrow> NtpExpander \<Rightarrow> ExpandError + (NtpTime \<times> NtpExpander)" where
  "expand mid e =
     (let gap = sint (mid - middle32 (ex_reference e))
      in if \<bar>gap\<bar> \<ge> MAX_EXPANSION_GAP then Inl (Ambiguous gap)
         else let steps = sint (drop_bit MID_SHIFT (as_raw (ex_reference e))) + gap;
                  expanded = NtpTime (push_bit MID_SHIFT (of_int steps))
              in Inr (expanded, e\<lparr>ex_reference := expanded\<rparr>))"

subsection \<open>Fractions of a second\<close>

definition duration_wf :: "Duration \<Rightarrow> bool" where
  "duration_wf d \<longleftrightarrow> d_nanos d < 1000000000"

lemma unat_push_bit_fits:
  "unat x * 2 ^ k < 2 ^ LENGTH('a) \<Longrightarrow> unat (push_bit k x) = unat x * 2 ^ k" for x :: "'a::len word"
  by (subst unsigned_push_bit_eq) (simp add: push_bit_eq_mult take_bit_nat_eq_self)

lemma unat_sat_mul_fits:
  "unat x * unat y < 2 ^ LENGTH('a) \<Longrightarrow> unat (sat_mul x y) = unat x * unat y" for x y :: "'a::len word"
  by (simp add: sat_mul_def unat_mult_lem [THEN iffD1])

lemma unat_sat_add_fits:
  "unat x + unat y < 2 ^ LENGTH('a) \<Longrightarrow> unat (sat_add x y) = unat x + unat y" for x y :: "'a::len word"
  by (simp add: unat_sat_add)

lemma unat_low32: "unat (raw AND 0xFFFFFFFF :: u64) = unat raw mod 4294967296"
proof -
  have "raw AND 0xFFFFFFFF = take_bit 32 raw" by (simp add: take_bit_eq_mask mask_eq_decr_exp)
  then have "unat (raw AND 0xFFFFFFFF) = take_bit 32 (unat raw)" by (simp only: unsigned_take_bit_eq)
  then show ?thesis by (simp add: take_bit_eq_mod)
qed

lemma unat_frac_units:
  assumes "n < 1000000000"
  shows "unat (frac_units n) = (unat n * 4294967296 + 500000000) div 1000000000"
    "unat (frac_units n) < 4294967296"
proof -
  have n: "unat n < 1000000000" using assms by (simp add: word_less_nat_alt)
  have c: "unat (ucast n :: u64) = unat n" by (simp add: unsigned_ucast_eq take_bit_nat_eq_self)
      (rule take_bit_nat_eq_self, use unat_bounds(3) [of n] in simp)
  have p: "unat (push_bit 32 (ucast n) :: u64) = unat n * 4294967296"
    using n c by (subst unat_push_bit_fits) simp_all
  have "unat (sat_add (push_bit 32 (ucast n)) 500000000 :: u64) = unat n * 4294967296 + 500000000"
    using n p by (subst unat_sat_add_fits) (simp_all only: p, simp_all)
  then show u: "unat (frac_units n) = (unat n * 4294967296 + 500000000) div 1000000000"
    unfolding frac_units_def unat_div by simp
  show "unat (frac_units n) < 4294967296"
    unfolding u using n by (simp add: less_mult_imp_div_less)
qed

lemma unat_frac_nanos:
  "unat (frac_nanos raw) = (unat raw mod 4294967296 * 1000000000 + 2147483648) div 4294967296"
proof -
  let ?m = "unat raw mod 4294967296"
  let ?x = "sat_mul (raw AND 0xFFFFFFFF) 1000000000 :: u64"
  have m: "?m < 4294967296" by simp
  have x: "unat ?x = ?m * 1000000000"
    using m by (subst unat_sat_mul_fits) (simp_all add: unat_low32)
  have h: "unat (push_bit 31 1 :: u64) = 2147483648" by simp
  have y: "unat (sat_add ?x (push_bit 31 1)) = ?m * 1000000000 + 2147483648"
    using m by (subst unat_sat_add_fits) (simp_all only: x h, simp)
  have "(?m * 1000000000 + 2147483648) div 4294967296 < 4294967296" using m by (simp add: less_mult_imp_div_less)
  then show ?thesis
    unfolding frac_nanos_def unsigned_ucast_eq unat_drop_bit y by (simp add: take_bit_nat_eq_self)
qed

lemma frac_roundtrip_nat:
  fixes n :: nat
  shows "((n * 4294967296 + 500000000) div 1000000000 * 1000000000 + 2147483648) div 4294967296 = n"
proof -
  let ?N = "n * 4294967296"
  let ?u = "(?N + 500000000) div 1000000000"
  have "?u * 1000000000 \<le> ?N + 500000000" by simp
  moreover have "?N + 500000000 < ?u * 1000000000 + 1000000000"
    using dividend_less_div_times [of 1000000000 "?N + 500000000"] by simp
  ultimately have "n * 4294967296 \<le> ?u * 1000000000 + 2147483648" "?u * 1000000000 + 2147483648 < Suc n * 4294967296"
    by simp_all
  then show ?thesis by (intro div_nat_eqI) (simp_all add: mult.commute)
qed


lemma frac_nanos_units: "n < 1000000000 \<Longrightarrow> unat raw mod 4294967296 = unat (frac_units n) \<Longrightarrow> frac_nanos raw = n"
  using frac_roundtrip_nat [of "unat n"] unat_frac_units(1) [of n]
  by (simp add: word_unat_eq_iff unat_frac_nanos)

subsection \<open>Durations\<close>

lemma unat_duration_to_units:
  assumes "duration_wf d" and "unat (d_secs d) < 4294967296"
  shows "unat (duration_to_units d) = unat (d_secs d) * 4294967296 + unat (frac_units (d_nanos d))"
proof -
  have f: "unat (frac_units (d_nanos d)) < 4294967296"
    using assms(1) by (intro unat_frac_units(2)) (simp add: duration_wf_def)
  have m: "unat (sat_mul (d_secs d) NTP_UNITS_PER_SEC) = unat (d_secs d) * 4294967296"
    using assms(2) by (subst unat_sat_mul_fits) (simp_all add: NTP_UNITS_PER_SEC_def)
  show ?thesis
    unfolding duration_to_units_def using assms(2) f by (subst unat_sat_add_fits) (simp_all only: m, simp)
qed

lemma duration_units_roundtrip:
  assumes "duration_wf d" and "unat (d_secs d) < 4294967296"
  shows "units_to_duration (duration_to_units d) = d"
proof -
  let ?f = "unat (frac_units (d_nanos d))"
  have f: "?f < 4294967296" using assms(1) by (intro unat_frac_units(2)) (simp add: duration_wf_def)
  note u = unat_duration_to_units [OF assms]
  have "drop_bit 32 (duration_to_units d) = d_secs d"
    using f by (simp add: word_unat_eq_iff unat_drop_bit u)
  moreover have "frac_nanos (duration_to_units d) = d_nanos d"
    using assms(1) f by (intro frac_nanos_units) (simp_all add: duration_wf_def u)
  ultimately show ?thesis
    using assms(1) by (simp add: units_to_duration_def duration_new_def duration_wf_def)
qed

lemma sint_of_int_fits:
  "- (2 ^ (LENGTH('a) - 1)) \<le> x \<Longrightarrow> x < 2 ^ (LENGTH('a) - 1) \<Longrightarrow> sint (of_int x :: 'a::len word) = x"
  by (simp add: sint_sbintrunc' signed_take_bit_int_eq_self)

lemma sint_small:
  fixes w :: u64
  assumes "unat w < 2 ^ 63"
  shows "sint w = int (unat w)" "sint (- w) = - int (unat w)"
proof -
  have b: "int (unat w) < int (2 ^ 63)" using assms by (simp only: of_nat_less_iff)
  have "- (2 ^ 63) \<le> int (unat w)" by (rule order_trans [of _ 0]) simp_all
  then have "sint (of_int (int (unat w)) :: u64) = int (unat w)"
    using b by (intro sint_of_int_fits) simp_all
  then show "sint w = int (unat w)" by simp
  have "- int (unat w) < 2 ^ 63" by (rule le_less_trans [of _ 0]) simp_all
  then have "sint (of_int (- int (unat w)) :: u64) = - int (unat w)"
    using b by (intro sint_of_int_fits) simp_all
  then show "sint (- w) = - int (unat w)" by simp
qed

lemma units_to_duration_0: "units_to_duration 0 = DURATION_ZERO"
  by (simp add: units_to_duration_def duration_new_def DURATION_ZERO_def word_unat_eq_iff unat_frac_nanos
      word_less_nat_alt)

text \<open>
  C26. Moving a time by a duration below \<open>2^31\<close> seconds and measuring the distance gives the
  duration back to the nanosecond, forwards and backwards, also across the era boundary.
\<close>

theorem ntp_shift_exact:
  assumes "duration_wf d" and "unat (d_secs d) < 2 ^ 31"
  shows "ntp_duration_since (ntp_wrapping_add t d) t = Inr d \<and>
    (d \<noteq> DURATION_ZERO \<longrightarrow> ntp_duration_since (ntp_wrapping_sub t d) t = Inl d)"
proof -
  have s: "unat (d_secs d) < 4294967296" using assms(2) by simp
  let ?u = "duration_to_units d" and ?f = "unat (frac_units (d_nanos d))"
  have f: "?f < 4294967296" using assms(1) by (intro unat_frac_units(2)) (simp add: duration_wf_def)
  note u = unat_duration_to_units [OF assms(1) s]
  have u63: "unat ?u < 2 ^ 63" using u f assms(2) by simp
  note r = duration_units_roundtrip [OF assms(1) s]
  have a: "units_since (ntp_wrapping_add t d) t = int (unat ?u)"
    and b: "units_since (ntp_wrapping_sub t d) t = - int (unat ?u)"
    using sint_small [OF u63] by (simp_all add: units_since_def ntp_wrapping_add_def ntp_wrapping_sub_def)
  have "?u \<noteq> 0" if "d \<noteq> DURATION_ZERO"
    using that r units_to_duration_0 by metis
  then show ?thesis
    unfolding ntp_duration_since_def Let_def a b by (auto simp: r uint_0_iff)
qed

theorem ntp_shift_exact_witness:
  "ntp_duration_since (ntp_wrapping_add (NtpTime (- 5)) \<lparr>d_secs = 3600, d_nanos = 123456789\<rparr>) (NtpTime (- 5)) =
     Inr \<lparr>d_secs = 3600, d_nanos = 123456789\<rparr>"
  using ntp_shift_exact [of "\<lparr>d_secs = 3600, d_nanos = 123456789\<rparr>" "NtpTime (- 5)"]
  by (simp add: duration_wf_def)

subsection \<open>Host clocks\<close>

lemma duration_of_nanos:
  assumes "n < 4294967296 * 1000000000"
  shows "duration_wf (duration_of_nanos n)" "unat (d_secs (duration_of_nanos n)) = n div 1000000000"
    "unat (d_nanos (duration_of_nanos n)) = n mod 1000000000" "duration_nanos (duration_of_nanos n) = n"
proof -
  have s: "n div 1000000000 < 4294967296" using assms by (simp add: less_mult_imp_div_less)
  have m: "n mod 1000000000 < 1000000000" by simp
  then have m32: "n mod 1000000000 < 4294967296" by linarith
  show 1: "unat (d_secs (duration_of_nanos n)) = n div 1000000000"
    using s by (simp add: duration_of_nanos_def unat_of_nat_fits)
  show 2: "unat (d_nanos (duration_of_nanos n)) = n mod 1000000000"
    using m32 by (simp add: duration_of_nanos_def unat_of_nat_fits)
  show "duration_wf (duration_of_nanos n)" using m 2 by (simp add: duration_wf_def word_less_nat_alt)
  show "duration_nanos (duration_of_nanos n) = n" using 1 2 by (simp add: duration_nanos_def)
qed

text \<open>
  C27. An anchor's two projections are inverse: an instant less than \<open>2^31\<close> seconds from the anchor
  is recovered to the nanosecond from its time on the NTP timeline, whatever the era.
\<close>

theorem anchor_roundtrip:
  assumes "\<bar>t - rt_monotonic (wa_at a)\<bar> < 2 ^ 31 * 1000000000"
  shows "to_instant a (to_ntp a t) = t"
proof -
  let ?m = "rt_monotonic (wa_at a)"
  let ?d = "duration_of_nanos (nat \<bar>t - ?m\<bar>)"
  have n: "nat \<bar>t - ?m\<bar> < 2147483648 * 1000000000" using assms by (simp add: nat_less_iff)
  then have n': "nat \<bar>t - ?m\<bar> < 4294967296 * 1000000000" by simp
  note d = duration_of_nanos [OF n']
  have s: "unat (d_secs ?d) < 4294967296" "unat (d_secs ?d) < 2147483648"
    unfolding d(2) using n by (simp_all add: less_mult_imp_div_less)
  have f: "unat (frac_units (d_nanos ?d)) < 4294967296"
    using d(1) by (intro unat_frac_units(2)) (simp add: duration_wf_def)
  have u63: "unat (duration_to_units ?d) < 2 ^ 63"
    unfolding unat_duration_to_units [OF d(1) s(1)] using s(2) f by simp
  note r = duration_units_roundtrip [OF d(1) s(1)]
  show ?thesis
  proof (cases "t \<ge> ?m")
    case True
    then have e: "units_since (to_ntp a t) (anchor_ntp a) = int (unat (duration_to_units ?d))"
      using sint_small(1) [OF u63] by (simp add: units_since_def to_ntp_def ntp_wrapping_add_def)
    have "duration_nanos (units_to_duration (of_int (int (unat (duration_to_units ?d))))) = nat \<bar>t - ?m\<bar>"
      using r d(4) by simp
    then show ?thesis unfolding to_instant_def Let_def e using True by simp
  next
    case False
    then have e: "units_since (to_ntp a t) (anchor_ntp a) = - int (unat (duration_to_units ?d))"
      using sint_small(2) [OF u63] by (simp add: units_since_def to_ntp_def ntp_wrapping_sub_def)
    have "?d \<noteq> DURATION_ZERO"
    proof
      assume "?d = DURATION_ZERO"
      then have "nat \<bar>t - ?m\<bar> = 0" using d(4) by (simp add: duration_nanos_def DURATION_ZERO_def)
      with False show False by simp
    qed
    then have "duration_to_units ?d \<noteq> 0" using r units_to_duration_0 by metis
    then have nz: "\<not> 0 \<le> - int (unat (duration_to_units ?d))" by (simp add: uint_0_iff)
    have "duration_nanos (units_to_duration (of_int \<bar>- int (unat (duration_to_units ?d))\<bar>)) = nat \<bar>t - ?m\<bar>"
      using r d(4) by simp
    then show ?thesis unfolding to_instant_def Let_def e using nz False by simp
  qed
qed

theorem anchor_roundtrip_witness:
  "to_instant (anchor_new 0 1000) (to_ntp (anchor_new 0 1000) 77) = 77"
  using anchor_roundtrip [of 77 "anchor_new 0 1000"] by (simp add: anchor_new_def)

text \<open>
  A wall-clock time from 1970 to the end of the NTP era in 2036 survives the conversion to NTP
  time and back to the nanosecond.
\<close>

theorem system_time_roundtrip:
  assumes "0 \<le> t" and "t < (2 ^ 32 - int (unat NTP_UNIX_OFFSET_SECS)) * 1000000000"
  shows "to_system_time (from_system_time t) = t"
proof -
  let ?n = "nat t" and ?o = "2208988800 :: nat"
  have o: "unat NTP_UNIX_OFFSET_SECS = ?o" by (simp add: NTP_UNIX_OFFSET_SECS_def)
  have n: "?n < 2085978496 * 1000000000" using assms(2) by (simp add: o)
  then have n': "?n < 4294967296 * 1000000000" by simp
  note d = duration_of_nanos [OF n']
  let ?d = "duration_of_nanos ?n"
  let ?s = "d_secs ?d + NTP_UNIX_OFFSET_SECS"
  have "unat (d_secs ?d) < 2085978496" unfolding d(2) using n by (simp add: less_mult_imp_div_less)
  then have s: "unat ?s = unat (d_secs ?d) + ?o" "unat ?s < 4294967296"
    by (simp_all add: unat_add_lem [THEN iffD1] o)
  have low: "?s AND 0xFFFFFFFF = ?s" using s(2) by (simp add: word_unat_eq_iff unat_low32)
  let ?f = "frac_units (d_nanos ?d)"
  have wf: "d_nanos ?d < 1000000000" using d(1) by (simp add: duration_wf_def)
  have f: "unat ?f < 4294967296" by (rule unat_frac_units(2) [OF wf])
  have raw: "as_raw (from_system_time t) = push_bit 32 ?s OR ?f"
    unfolding from_system_time_def Let_def low by simp
  have "unat (push_bit 32 ?s OR ?f) = unat ?s * 4294967296 + unat ?f"
  proof -
    have p: "unat (push_bit 32 ?s) = unat ?s * 4294967296" using s(2) by (subst unat_push_bit_fits) simp_all
    have "take_bit 32 ?f = ?f" using f by (intro take_bit_fits) simp
    then have "\<not> bit ?f i" if "32 \<le> i" for i using that by (metis bit_take_bit_iff not_le)
    then have "push_bit 32 ?s OR ?f = push_bit 32 ?s + ?f"
      by (intro disjunctive_add [symmetric]) (auto simp: bit_push_bit_iff)
    then show ?thesis using p f s(2) by (simp add: unat_add_lem [THEN iffD1])
  qed
  note u = this [folded raw]
  have "drop_bit 32 (as_raw (from_system_time t)) = ?s"
    using f by (simp add: word_unat_eq_iff unat_drop_bit u)
  moreover have "frac_nanos (as_raw (from_system_time t)) = d_nanos ?d"
    using f by (intro frac_nanos_units [OF wf]) (simp add: u)
  moreover have "sat_sub ?s NTP_UNIX_OFFSET_SECS = d_secs ?d"
    using s(1) by (simp add: word_unat_eq_iff unat_sat_sub o)
  ultimately have "to_system_time (from_system_time t) = int (duration_nanos ?d)"
    using wf by (simp add: to_system_time_def duration_new_def duration_nanos_def)
  then show ?thesis using d(4) assms(1) by simp
qed

theorem system_time_roundtrip_witness:
  "to_system_time (from_system_time 1763200000123456789) = 1763200000123456789"
  by (rule system_time_roundtrip) (simp_all add: NTP_UNIX_OFFSET_SECS_def)


subsection \<open>Expansion of the middle 32 bits\<close>

text \<open>A time as the envelope can carry it: the low 16 bits are lost.\<close>

definition coarse :: "NtpTime \<Rightarrow> NtpTime" where
  "coarse t = NtpTime (push_bit 16 (drop_bit 16 (as_raw t)))"

lemma coarse_of_int: "coarse (NtpTime (of_int x)) = NtpTime (push_bit 16 (of_int (x div 65536)))"
proof -
  have "push_bit 16 (drop_bit 16 (of_int x :: u64)) = push_bit 16 (of_int (drop_bit 16 x))"
    by (rule bit_word_eqI) (auto simp: bit_push_bit_iff bit_drop_bit_eq bit_word_of_int_iff)
  then show ?thesis by (simp add: coarse_def drop_bit_eq_div)
qed

lemma middle32_of_int: "middle32 (NtpTime (of_int x)) = of_int (x div 65536)"
proof -
  have "ucast (drop_bit 16 (of_int x :: u64)) = (of_int (drop_bit 16 x) :: u32)"
    by (rule bit_word_eqI) (auto simp: bit_ucast_iff bit_drop_bit_eq bit_word_of_int_iff)
  then show ?thesis by (simp add: middle32_def MID_SHIFT_def drop_bit_eq_div)
qed

lemma sint_drop16: "sint (drop_bit 16 w) = uint w div 65536" for w :: u64
proof -
  have "uint w < 2 ^ 64" "0 \<le> uint w" using uint_lt2p [of w] by simp_all
  then have b: "0 \<le> uint w div 65536" "uint w div 65536 < 2 ^ 63" by (simp_all add: pos_imp_zdiv_nonneg_iff)
  have "drop_bit 16 (of_int (uint w) :: u64) = of_int (drop_bit 16 (uint w))"
    by (rule bit_word_eqI) (auto simp: bit_drop_bit_eq bit_word_of_int_iff bit_uint_iff dest: bit_imp_le_length)
  then have "drop_bit 16 w = of_int (uint w div 65536)" by (simp add: drop_bit_eq_div)
  moreover have "sint (of_int (uint w div 65536) :: u64) = uint w div 65536"
    using b by (intro sint_of_int_fits) simp_all
  ultimately show ?thesis by simp
qed

lemma div_shift_bound:
  fixes r d :: int
  assumes "\<bar>d\<bar> \<le> k * 65536"
  shows "\<bar>(r + d) div 65536 - r div 65536\<bar> \<le> k + 1"
proof -
  have "(r + d) div 65536 \<le> (r + k * 65536) div 65536" "(r + - k * 65536) div 65536 \<le> (r + d) div 65536"
    using assms by (intro zdiv_mono1; simp add: abs_le_iff)+
  moreover have "(r + k * 65536) div 65536 = r div 65536 + k" "(r + - k * 65536) div 65536 = r div 65536 - k"
    by (subst div_mult_self1; simp)+
  ultimately show ?thesis by linarith
qed

text \<open>The count of steps that \<open>expand\<close> computes and that its debug assertion requires not to be negative.\<close>

definition expand_steps :: "u32 \<Rightarrow> NtpExpander \<Rightarrow> int" where
  "expand_steps mid e = sint (drop_bit MID_SHIFT (as_raw (ex_reference e))) + sint (mid - middle32 (ex_reference e))"

lemma expand_near:
  assumes "\<bar>units_since t (ex_reference e)\<bar> \<le> (2 ^ 30 - 2) * 65536"
  shows "expand (middle32 t) e = Inr (coarse t, e\<lparr>ex_reference := coarse t\<rparr>)"
    and "expand_steps (middle32 t) e = (uint (as_raw (ex_reference e)) + units_since t (ex_reference e)) div 65536"
proof -
  let ?R = "uint (as_raw (ex_reference e))" and ?D = "units_since t (ex_reference e)"
  let ?g = "(?R + ?D) div 65536 - ?R div 65536"
  have "of_int (sint (as_raw t - as_raw (ex_reference e))) = as_raw t - as_raw (ex_reference e)"
    by simp
  then have t: "t = NtpTime (of_int (?R + ?D))" by (cases t) (simp add: units_since_def)
  have r: "ex_reference e = NtpTime (of_int ?R)" by (cases "ex_reference e") simp
  have g: "\<bar>?g\<bar> \<le> 2 ^ 30 - 1" using div_shift_bound [OF assms, of ?R] by simp
  have "middle32 t - middle32 (ex_reference e) = of_int ?g"
    by (subst t, subst r) (simp only: middle32_of_int of_int_diff)
  moreover have "sint (of_int ?g :: u32) = ?g" using g by (intro sint_of_int_fits) (simp_all add: abs_le_iff)
  ultimately have gap: "sint (middle32 t - middle32 (ex_reference e)) = ?g" by simp
  have "coarse t = NtpTime (push_bit 16 (of_int ((?R + ?D) div 65536)))" by (subst t) (rule coarse_of_int)
  then have "NtpTime (push_bit 16 (of_int (?R div 65536 + ?g))) = coarse t" by simp
  then show "expand (middle32 t) e = Inr (coarse t, e\<lparr>ex_reference := coarse t\<rparr>)"
    using g unfolding expand_def gap Let_def MAX_EXPANSION_GAP_def MID_SHIFT_def sint_drop16
    by (simp only: if_False not_le) simp
  show "expand_steps (middle32 t) e = (?R + ?D) div 65536"
    unfolding expand_steps_def gap MID_SHIFT_def sint_drop16 by simp
qed


lemma units_since_coarse:
  assumes "\<bar>units_since t r\<bar> \<le> (2 ^ 30 - 3) * 65536"
  shows "\<bar>units_since t (coarse r)\<bar> \<le> (2 ^ 30 - 2) * 65536"
    and "uint (as_raw (coarse r)) + units_since t (coarse r) = uint (as_raw r) + units_since t r"
proof -
  let ?low = "take_bit 16 (as_raw r)"
  have "push_bit 16 (drop_bit 16 (as_raw r)) + ?low = as_raw r" by (rule bits_ident)
  then have "as_raw t - as_raw (coarse r) = as_raw t - as_raw r + ?low"
    by (simp add: coarse_def algebra_simps)
  also have "\<dots> = of_int (units_since t r + uint ?low)" by (simp add: units_since_def)
  finally have e: "as_raw t - as_raw (coarse r) = of_int (units_since t r + uint ?low)" .
  have "uint ?low = take_bit 16 (uint (as_raw r))" by (rule unsigned_take_bit_eq)
  then have low: "0 \<le> uint ?low" "uint ?low < 65536"
    using take_bit_int_less_exp [of 16 "uint (as_raw r)"] by simp_all
  have b: "- (2 ^ 63) \<le> u + l \<and> u + l < 2 ^ 63 \<and> \<bar>u + l\<bar> \<le> (2 ^ 30 - 2) * 65536" if "\<bar>u\<bar> \<le> (2 ^ 30 - 3) * 65536" "0 \<le> l" "l < 65536" for u l :: int
    using that by (simp add: abs_le_iff)
  from b [OF assms low] have "sint (of_int (units_since t r + uint ?low) :: u64) = units_since t r + uint ?low"
    by (intro sint_of_int_fits) simp_all
  then have u: "units_since t (coarse r) = units_since t r + uint ?low"
    by (simp add: units_since_def [of t "coarse r"] e)
  then show "\<bar>units_since t (coarse r)\<bar> \<le> (2 ^ 30 - 2) * 65536" using b [OF assms low] by simp
  have "uint (as_raw (coarse r)) = push_bit 16 (drop_bit 16 (uint (as_raw r)))"
    by (rule bit_eqI) (auto simp: coarse_def bit_uint_iff bit_push_bit_iff bit_drop_bit_eq dest: bit_imp_le_length)
  moreover have "uint ?low = take_bit 16 (uint (as_raw r))" by (rule unsigned_take_bit_eq)
  ultimately have "uint (as_raw (coarse r)) + uint ?low = uint (as_raw r)" by (simp only: bits_ident)
  then show "uint (as_raw (coarse r)) + units_since t (coarse r) = uint (as_raw r) + units_since t r" using u by simp
qed

fun expand_all :: "u32 list \<Rightarrow> NtpExpander \<Rightarrow> ExpandError + NtpTime list" where
  "expand_all [] e = Inr []"
| "expand_all (m # ms) e = and_then (expand m e) (\<lambda>(t, e). and_then (expand_all ms e) (\<lambda>ts. Inr (t # ts)))"

text \<open>
  The debug assertion of \<open>expand\<close> holds at every step.
\<close>

fun expand_asserts :: "u32 list \<Rightarrow> NtpExpander \<Rightarrow> bool" where
  "expand_asserts [] e \<longleftrightarrow> True"
| "expand_asserts (m # ms) e \<longleftrightarrow> 0 \<le> expand_steps m e \<and>
     (case expand m e of Inr (_, e) \<Rightarrow> expand_asserts ms e | Inl _ \<Rightarrow> True)"

text \<open>
  Each time is at most \<open>2^30 - 3\<close> steps of \<open>2^-16\<close> seconds, about 4.5 hours, from the one before, and
  no time lies before the era of the one before it.
\<close>

fun steady :: "NtpTime \<Rightarrow> NtpTime list \<Rightarrow> bool" where
  "steady r [] = True"
| "steady r (t # ts) = (\<bar>units_since t r\<bar> \<le> (2 ^ 30 - 3) * 65536 \<and> 0 \<le> uint (as_raw r) + units_since t r \<and> steady t ts)"

lemma expand_all_steady:
  "steady r ts \<Longrightarrow> ex_reference e \<in> {r, coarse r} \<Longrightarrow>
    expand_all (map middle32 ts) e = Inr (map coarse ts) \<and> expand_asserts (map middle32 ts) e"
proof (induction ts arbitrary: r e)
  case (Cons t ts)
  then have near: "\<bar>units_since t (ex_reference e)\<bar> \<le> (2 ^ 30 - 2) * 65536"
    and "uint (as_raw (ex_reference e)) + units_since t (ex_reference e) = uint (as_raw r) + units_since t r"
    using units_since_coarse [of t r] by auto
  then have "0 \<le> expand_steps (middle32 t) e" using Cons.prems(1) expand_near(2) [OF near]
    by (simp add: pos_imp_zdiv_nonneg_iff)
  then show ?case
    using expand_near(1) [OF near] Cons.IH [of t "e\<lparr>ex_reference := coarse t\<rparr>"] Cons.prems(1) by simp
qed simp

text \<open>
  C25. The receiver recovers the times of a stream from the 32 bits each envelope carries: as long as
  consecutive times are less than about 4.5 hours apart, in either direction, and the stream does not go
  back across an era boundary, every time is expanded to itself up to the 16 fraction bits that are not
  sent, forward across an era boundary too, and the debug assertion of the expansion holds at every step.
\<close>

theorem expander_follows_stream:
  assumes "steady r ts"
  shows "expand_all (map middle32 ts) (expander_new r) = Inr (map coarse ts) \<and>
    expand_asserts (map middle32 ts) (expander_new r)"
  using expand_all_steady [OF assms] by (simp add: expander_new_def)

theorem expander_follows_stream_witness:
  "expand_all (map middle32 [NtpTime 70000, NtpTime 65537]) (expander_new (NtpTime 0xFFFFFFFFFFFF0000)) =
     Inr [NtpTime 65536, NtpTime 65536]"
proof -
  have "map coarse [NtpTime 70000, NtpTime 65537] = [NtpTime 65536, NtpTime 65536]" by code_simp
  moreover have "steady (NtpTime 0xFFFFFFFFFFFF0000) [NtpTime 70000, NtpTime 65537]" by code_simp
  ultimately show ?thesis using expander_follows_stream by metis
qed

text \<open>
  An accepted expansion never contradicts the envelope: the expanded time carries exactly the 32
  bits that arrived, whatever they are.
\<close>

theorem expand_preserves_bits:
  assumes "expand mid e = Inr (t, e')"
  shows "middle32 t = mid \<and> ex_reference e' = t"
proof -
  let ?r = "ex_reference e"
  let ?s = "uint (as_raw ?r) div 65536 + sint (mid - middle32 ?r)"
  have t: "t = NtpTime (push_bit 16 (of_int ?s))" "e' = e\<lparr>ex_reference := t\<rparr>"
    using assms by (auto simp: expand_def Let_def MID_SHIFT_def sint_drop16 split: if_splits)
  have cast: "ucast (drop_bit 16 (push_bit 16 (of_int s :: u64))) = (of_int s :: u32)" for s
    by (rule bit_word_eqI) (simp add: bit_ucast_iff bit_drop_bit_eq bit_push_bit_iff bit_word_of_int_iff)
  have "middle32 t = ucast (drop_bit 16 (push_bit 16 (of_int ?s :: u64)))"
    by (simp only: t(1) middle32_def NtpTime.sel MID_SHIFT_def)
  also have "\<dots> = (of_int ?s :: u32)" by (rule cast)
  also have "\<dots> = middle32 (NtpTime (of_int (uint (as_raw ?r)))) + (mid - middle32 ?r)"
    unfolding middle32_of_int by simp
  also have "\<dots> = mid" by (cases ?r) simp
  finally show ?thesis by (simp add: t(2))
qed

theorem expand_preserves_bits_witness:
  "\<exists>t e'. expand 7 (expander_new (NtpTime 0)) = Inr (t, e') \<and> middle32 t = 7"
proof -
  have "expand 7 (expander_new (NtpTime 0)) = Inr (NtpTime 458752, \<lparr>ex_reference = NtpTime 458752\<rparr>)" by code_simp
  then show ?thesis using expand_preserves_bits by blast
qed

text \<open>
  C40. A time from before an era boundary, against a reference from after it and less than about 4.5
  hours later: the expansion is right up to the 16 fraction bits that are not sent, although the step
  count is negative, which the debug assertion of \<open>expand\<close> rules out.
\<close>

theorem expand_before_era_start:
  assumes "\<bar>units_since t (ex_reference e)\<bar> \<le> (2 ^ 30 - 2) * 65536"
    and "uint (as_raw (ex_reference e)) + units_since t (ex_reference e) < 0"
  shows "expand (middle32 t) e = Inr (coarse t, e\<lparr>ex_reference := coarse t\<rparr>) \<and> expand_steps (middle32 t) e < 0"
  using assms(2) by (simp add: expand_near [OF assms(1)] pos_imp_zdiv_neg_iff)

theorem expand_before_era_start_witness:
  "expand 0xFFFFFFFF (expander_new (NtpTime 0)) =
     Inr (NtpTime 0xFFFFFFFFFFFF0000, expander_new (NtpTime 0xFFFFFFFFFFFF0000)) \<and>
   expand_steps 0xFFFFFFFF (expander_new (NtpTime 0)) < 0"
proof -
  let ?t = "NtpTime 0xFFFFFFFFFFFF8000" and ?e = "expander_new (NtpTime 0)"
  have "\<bar>units_since ?t (ex_reference ?e)\<bar> \<le> (2 ^ 30 - 2) * 65536"
    "uint (as_raw (ex_reference ?e)) + units_since ?t (ex_reference ?e) < 0" by code_simp+
  note expand_before_era_start [OF this]
  moreover have "middle32 ?t = 0xFFFFFFFF" "coarse ?t = NtpTime 0xFFFFFFFFFFFF0000" by code_simp+
  ultimately show ?thesis by (simp add: expander_new_def)
qed

end
