(* ===== verification/Route.thy ===== *)
theory Route
  imports Bytes Clock
begin

text \<open>
  Compiled routes, \<open>crates/pulsebeam/src/route.rs\<close> and \<open>crates/pulsebeam/src/route/envelope.rs\<close>: the
  packed route, the inter-node envelope, the allocator of route slots with its quarantine, and a
  shard's table of route state.  A route's target is a key of a \<open>slotmap\<close>, a third-party arena: its
  type is a type variable and its null value an argument.  \<open>None\<close> as the result of a constructor
  that asserts is the panic of a failed assertion.
\<close>

unbundle bit_operations_syntax

subsection \<open>Packed routes\<close>

definition PACKED_SLOT_BITS :: nat where "PACKED_SLOT_BITS = 20"
definition PACKED_SHARD_BITS :: nat where "PACKED_SHARD_BITS = 12"
definition MAX_SLOT :: u32 where "MAX_SLOT = push_bit PACKED_SLOT_BITS 1 - 1"
definition MAX_SHARD :: u32 where "MAX_SHARD = push_bit PACKED_SHARD_BITS 1 - 1"

type_synonym ShardId = nat

datatype PackedRoute = PackedRoute (packed_get: u32)

definition packed_new :: "ShardId \<Rightarrow> u32 \<Rightarrow> PackedRoute option" where
  "packed_new shard slot =
     (if slot \<le> MAX_SLOT \<and> shard \<le> unat MAX_SHARD
      then Some (PackedRoute (push_bit PACKED_SLOT_BITS (of_nat shard) OR slot)) else None)"

text \<open>The cast \<open>shard.index() as u32\<close> truncates before the comparison.\<close>

definition packed_try_new :: "ShardId \<Rightarrow> u32 \<Rightarrow> PackedRoute option" where
  "packed_try_new shard slot =
     (if slot > MAX_SLOT then None
      else let shard_bits = of_nat shard
           in if shard_bits > MAX_SHARD then None
              else Some (PackedRoute (push_bit PACKED_SLOT_BITS shard_bits OR slot)))"

definition packed_shard :: "PackedRoute \<Rightarrow> ShardId" where
  "packed_shard r = unat (drop_bit PACKED_SLOT_BITS (packed_get r))"

definition packed_slot :: "PackedRoute \<Rightarrow> u32" where
  "packed_slot r = packed_get r AND MAX_SLOT"

definition packed_index :: "PackedRoute \<Rightarrow> nat" where
  "packed_index r = unat (packed_slot r)"

text \<open>The two route families wrap a packed route.\<close>

datatype RouteId = RouteId (route_id_packed: PackedRoute)
datatype ClientRoute = ClientRoute (client_packed: PackedRoute)

record NodeRouteAddress =
  nr_route :: RouteId
  nr_epoch :: u16

record NodeTransportAddress =
  nt_route :: ClientRoute
  nt_epoch :: u16

subsection \<open>The envelope\<close>

definition ENVELOPE_LEN :: nat where "ENVELOPE_LEN = 16"
definition ROUTE_OFFSET :: nat where "ROUTE_OFFSET = 4"
definition ENVELOPE_VERSION :: u8 where "ENVELOPE_VERSION = 1"

datatype EnvelopeType = Media | Feedback | Telemetry

definition type_from_u8 :: "u8 \<Rightarrow> EnvelopeType option" where
  "type_from_u8 v = (if v = 0 then Some Media else if v = 1 then Some Feedback
     else if v = 2 then Some Telemetry else None)"

fun type_as_u8 :: "EnvelopeType \<Rightarrow> u8" where
  "type_as_u8 Media = 0"
| "type_as_u8 Feedback = 1"
| "type_as_u8 Telemetry = 2"

datatype EnvelopeError = EnvTruncated nat | UnsupportedVersion u8 | UnknownType u8

record Envelope =
  env_ty :: EnvelopeType
  env_address :: NodeRouteAddress
  env_extension :: u64

definition envelope_media :: "NodeRouteAddress \<Rightarrow> u32 \<Rightarrow> u32 \<Rightarrow> Envelope" where
  "envelope_media address link_seq playout_ntp32 =
     \<lparr>env_ty = Media, env_address = address,
      env_extension = push_bit 32 (ucast link_seq) OR ucast playout_ntp32\<rparr>"

definition envelope_feedback :: "NodeRouteAddress \<Rightarrow> Envelope" where
  "envelope_feedback address = \<lparr>env_ty = Feedback, env_address = address, env_extension = 0\<rparr>"

definition envelope_telemetry :: "NodeRouteAddress \<Rightarrow> Envelope" where
  "envelope_telemetry address = \<lparr>env_ty = Telemetry, env_address = address, env_extension = 0\<rparr>"

text \<open>The wire layout is a packed structure of big-endian fields in this order.\<close>

definition envelope_encode :: "Envelope \<Rightarrow> u8 list" where
  "envelope_encode e =
     [ENVELOPE_VERSION, type_as_u8 (env_ty e)] @ to_be16 (nr_epoch (env_address e)) @
     to_be32 (packed_get (route_id_packed (nr_route (env_address e)))) @ to_be64 (env_extension e)"

definition envelope_decode :: "u8 list \<Rightarrow> EnvelopeError + Envelope" where
  "envelope_decode buf =
     (if length buf < ENVELOPE_LEN then Inl (EnvTruncated (length buf))
      else if buf ! 0 \<noteq> ENVELOPE_VERSION then Inl (UnsupportedVersion (buf ! 0))
      else case type_from_u8 (buf ! 1) of
        None \<Rightarrow> Inl (UnknownType (buf ! 1))
      | Some ty \<Rightarrow> Inr \<lparr>env_ty = ty,
          env_address = \<lparr>nr_route = RouteId (PackedRoute (be32 (buf ! 4) (buf ! 5) (buf ! 6) (buf ! 7))),
                         nr_epoch = be16 (buf ! 2) (buf ! 3)\<rparr>,
          env_extension = be64 (take 8 (drop 8 buf))\<rparr>)"

definition peek_route :: "u8 list \<Rightarrow> RouteId option" where
  "peek_route buf = (case get_range buf ROUTE_OFFSET (ROUTE_OFFSET + 4) of
     Some [a, b, c, d] \<Rightarrow> Some (RouteId (PackedRoute (be32 a b c d)))
   | _ \<Rightarrow> None)"

definition peek_shard :: "u8 list \<Rightarrow> ShardId option" where
  "peek_shard buf = map_option (\<lambda>r. packed_shard (route_id_packed r)) (peek_route buf)"

datatype FrameBody = MediaBody u32 u32 | FeedbackBody | TelemetryBody

definition decode_frame :: "u8 list \<Rightarrow> EnvelopeError + (Envelope \<times> FrameBody)" where
  "decode_frame buf = and_then (envelope_decode buf) (\<lambda>env. Inr (env, case env_ty env of
     Media \<Rightarrow> MediaBody (ucast (drop_bit 32 (env_extension env))) (ucast (env_extension env))
   | Feedback \<Rightarrow> FeedbackBody
   | Telemetry \<Rightarrow> TelemetryBody))"

definition peek_type :: "u8 list \<Rightarrow> EnvelopeError + EnvelopeType" where
  "peek_type buf = and_then (envelope_decode buf) (\<lambda>env. Inr (env_ty env))"

subsection \<open>Route state and its counters\<close>

datatype 't RouteAction = Forward 't | Reverse 't

record RouteStats =
  rs_received :: u64
  rs_lost :: u64
  rs_reordered :: u64
  rs_duplicated :: u64

definition stats_default :: RouteStats where
  "stats_default = \<lparr>rs_received = 0, rs_lost = 0, rs_reordered = 0, rs_duplicated = 0\<rparr>"

record 't RouteRuntimeEntry =
  re_epoch :: u16
  re_action :: "'t RouteAction"
  re_expander :: NtpExpander
  re_last_link_seq :: "u32 option"
  re_stats :: RouteStats

definition observe :: "u32 \<Rightarrow> 't RouteRuntimeEntry \<Rightarrow> 't RouteRuntimeEntry" where
  "observe link_seq e =
     (let st = (re_stats e)\<lparr>rs_received := sat_add (rs_received (re_stats e)) 1\<rparr>
      in case re_last_link_seq e of
           None \<Rightarrow> e\<lparr>re_stats := st, re_last_link_seq := Some link_seq\<rparr>
         | Some last_seq \<Rightarrow>
             let delta = sint (link_seq - last_seq)
             in if delta = 0 then e\<lparr>re_stats := st\<lparr>rs_duplicated := sat_add (rs_duplicated st) 1\<rparr>\<rparr>
                else if delta > 0 then
                  e\<lparr>re_stats := st\<lparr>rs_lost := sat_add (rs_lost st) (ucast (sat_sub (of_int delta :: u32) 1))\<rparr>,
                    re_last_link_seq := Some link_seq\<rparr>
                else
                  e\<lparr>re_stats := st\<lparr>rs_reordered := sat_add (rs_reordered st) 1,
                                  rs_lost := sat_sub (rs_lost st) 1\<rparr>\<rparr>)"

subsection \<open>Allocation of slots\<close>

definition ROUTE_QUARANTINE :: nat where "ROUTE_QUARANTINE = 2000000000"

record SlotAllocator =
  sa_epochs :: "u16 list"
  sa_quarantine :: "(u32 \<times> Instant) list"
  sa_quarantined :: "bool list"
  sa_max_slots :: u32

definition with_max_slots :: "u32 \<Rightarrow> SlotAllocator" where
  "with_max_slots max_slots =
     \<lparr>sa_epochs = [], sa_quarantine = [], sa_quarantined = [], sa_max_slots = max_slots\<rparr>"

definition allocate_fresh :: "SlotAllocator \<Rightarrow> ((u32 \<times> u16) \<times> SlotAllocator) option" where
  "allocate_fresh a =
     (let slot = (if length (sa_epochs a) < 2 ^ 32 then of_nat (length (sa_epochs a)) else - 1)
      in if slot < sa_max_slots a \<and> slot \<le> MAX_SLOT
         then Some ((slot, 0), a\<lparr>sa_epochs := sa_epochs a @ [0], sa_quarantined := sa_quarantined a @ [False]\<rparr>)
         else None)"

definition allocate :: "Instant \<Rightarrow> SlotAllocator \<Rightarrow> ((u32 \<times> u16) \<times> SlotAllocator) option" where
  "allocate now a =
     (case sa_quarantine a of
        (slot, retired_at) # rest \<Rightarrow>
          if nat (now - retired_at) \<ge> ROUTE_QUARANTINE then
            if unat slot < length (sa_quarantined a) \<and> unat slot < length (sa_epochs a) then
              let epoch = sa_epochs a ! unat slot + 1
              in Some ((slot, epoch),
                   a\<lparr>sa_quarantine := rest, sa_quarantined := (sa_quarantined a)[unat slot := False],
                     sa_epochs := (sa_epochs a)[unat slot := epoch]\<rparr>)
            else None
          else allocate_fresh a
      | [] \<Rightarrow> allocate_fresh a)"

definition retire_slot :: "u32 \<Rightarrow> Instant \<Rightarrow> SlotAllocator \<Rightarrow> SlotAllocator" where
  "retire_slot slot now a =
     (case get_at (sa_quarantined a) (unat slot) of
        Some False \<Rightarrow> a\<lparr>sa_quarantined := (sa_quarantined a)[unat slot := True],
                        sa_quarantine := sa_quarantine a @ [(slot, now)]\<rparr>
      | _ \<Rightarrow> a)"

subsection \<open>The route table of a shard\<close>

record ReverseDedup =
  rd_key :: "u8 list"
  rd_window :: nat

record ReverseDedupEntry =
  de_key :: "u8 list"
  de_expires_at :: Instant

definition REVERSE_DEDUP_CAPACITY :: nat where "REVERSE_DEDUP_CAPACITY = 32"

record 't RouteRuntime =
  rr_slots :: "'t RouteRuntimeEntry option list"
  rr_reverse_dedup :: "ReverseDedupEntry list option list"

definition runtime_new :: "'t RouteRuntime" where
  "runtime_new = \<lparr>rr_slots = [], rr_reverse_dedup = []\<rparr>"

text \<open>\<open>Vec::resize_with(len, || None)\<close>\<close>

definition resize_none :: "nat \<Rightarrow> 'a option list \<Rightarrow> 'a option list" where
  "resize_none n xs = take n xs @ replicate (n - length xs) None"

definition ensure_slot :: "nat \<Rightarrow> 't RouteRuntime \<Rightarrow> 't RouteRuntime" where
  "ensure_slot index r =
     (if index \<ge> length (rr_slots r)
      then r\<lparr>rr_slots := resize_none (index + 1) (rr_slots r),
             rr_reverse_dedup := resize_none (index + 1) (rr_reverse_dedup r)\<rparr>
      else r)"

definition address_index :: "NodeRouteAddress \<Rightarrow> nat" where
  "address_index address = packed_index (route_id_packed (nr_route address))"

definition route_install :: "'t \<Rightarrow> NodeRouteAddress \<Rightarrow> NtpTime \<Rightarrow> 't RouteRuntime \<Rightarrow> 't RouteRuntime" where
  "route_install null address ntp_ref r =
     (let idx = address_index address; r = ensure_slot idx r
      in r\<lparr>rr_slots := (rr_slots r)[idx := Some
           \<lparr>re_epoch = nr_epoch address, re_action = Forward null, re_expander = expander_new ntp_ref,
            re_last_link_seq = None, re_stats = stats_default\<rparr>]\<rparr>)"

text \<open>\<open>accounting_mut\<close> returns a reference to the entry: here the updated table and the entry in it.
  \<open>None\<close> is the fatal error for a missing entry.\<close>

definition accounting_mut :: "'t \<Rightarrow> NodeRouteAddress \<Rightarrow> NtpTime \<Rightarrow> 't RouteRuntime \<Rightarrow>
    ('t RouteRuntimeEntry \<times> 't RouteRuntime) option" where
  "accounting_mut null address ntp_ref r =
     (let idx = address_index address; r = ensure_slot idx r;
          stale = (case get_at (rr_slots r) idx of
                     Some (Some entry) \<Rightarrow> re_epoch entry \<noteq> nr_epoch address | _ \<Rightarrow> True);
          r = (if stale then route_install null address ntp_ref r else r)
      in case get_at (rr_slots r) idx of
           Some (Some entry) \<Rightarrow>
             let entry = (if re_last_link_seq entry = None
                          then entry\<lparr>re_expander := expander_new ntp_ref\<rparr> else entry)
             in Some (entry, r\<lparr>rr_slots := (rr_slots r)[idx := Some entry]\<rparr>)
         | _ \<Rightarrow> None)"

definition clear_dedup :: "nat \<Rightarrow> 't RouteRuntime \<Rightarrow> 't RouteRuntime" where
  "clear_dedup idx r = r\<lparr>rr_reverse_dedup := (rr_reverse_dedup r)[idx := None]\<rparr>"

definition install_action :: "NodeRouteAddress \<Rightarrow> 't RouteAction \<Rightarrow> 't RouteRuntime \<Rightarrow> 't RouteRuntime" where
  "install_action address action r =
     (let idx = address_index address; r = ensure_slot idx r
      in case get_at (rr_slots r) idx of
           None \<Rightarrow> r
         | Some slot \<Rightarrow>
             (case slot of
                Some entry \<Rightarrow>
                  if re_epoch entry = nr_epoch address then
                    let r = (if re_action entry \<noteq> action then clear_dedup idx r else r)
                    in r\<lparr>rr_slots := (rr_slots r)[idx := Some (entry\<lparr>re_action := action\<rparr>)]\<rparr>
                  else (clear_dedup idx r)\<lparr>rr_slots := (rr_slots r)[idx := Some
                    \<lparr>re_epoch = nr_epoch address, re_action = action, re_expander = expander_new NTP_ZERO,
                     re_last_link_seq = None, re_stats = stats_default\<rparr>]\<rparr>
              | None \<Rightarrow> (clear_dedup idx r)\<lparr>rr_slots := (rr_slots r)[idx := Some
                    \<lparr>re_epoch = nr_epoch address, re_action = action, re_expander = expander_new NTP_ZERO,
                     re_last_link_seq = None, re_stats = stats_default\<rparr>]\<rparr>))"

definition route_retire :: "NodeRouteAddress \<Rightarrow> 't RouteRuntime \<Rightarrow> bool \<times> 't RouteRuntime" where
  "route_retire address r =
     (let idx = address_index address
      in case get_at (rr_slots r) idx of
           Some (Some entry) \<Rightarrow>
             if re_epoch entry = nr_epoch address
             then (True, clear_dedup idx (r\<lparr>rr_slots := (rr_slots r)[idx := None]\<rparr>)) else (False, r)
         | _ \<Rightarrow> (False, r))"

definition route_entry :: "NodeRouteAddress \<Rightarrow> 't RouteRuntime \<Rightarrow> 't RouteRuntimeEntry option" where
  "route_entry address r = (case get_at (rr_slots r) (address_index address) of
     Some (Some entry) \<Rightarrow> if re_epoch entry = nr_epoch address then Some entry else None
   | _ \<Rightarrow> None)"

definition resolve :: "NodeRouteAddress \<Rightarrow> 't RouteRuntime \<Rightarrow> 't RouteAction option" where
  "resolve address r = map_option re_action (route_entry address r)"

definition dedup_step :: "ReverseDedup \<Rightarrow> Instant \<Rightarrow> ReverseDedupEntry list \<Rightarrow> bool \<times> ReverseDedupEntry list" where
  "dedup_step dedup now cache =
     (let cache = filter (\<lambda>entry. de_expires_at entry > now) cache
      in if \<exists>entry \<in> set cache. de_key entry = rd_key dedup then (False, cache)
         else let cache = (if length cache \<ge> REVERSE_DEDUP_CAPACITY then tl cache else cache)
              in (True, cache @ [\<lparr>de_key = rd_key dedup, de_expires_at = now + int (rd_window dedup)\<rparr>]))"

definition accept_reverse :: "NodeRouteAddress \<Rightarrow> ReverseDedup \<Rightarrow> Instant \<Rightarrow> 't RouteRuntime \<Rightarrow>
    bool \<times> 't RouteRuntime" where
  "accept_reverse address dedup now r =
     (case resolve address r of
        Some (Reverse target) \<Rightarrow>
          let index = address_index address
          in (case get_at (rr_reverse_dedup r) index of
                None \<Rightarrow> (False, r)
              | Some cache_slot \<Rightarrow>
                  let (ok, cache) = dedup_step dedup now (case cache_slot of None \<Rightarrow> [] | Some c \<Rightarrow> c)
                  in (ok, r\<lparr>rr_reverse_dedup := (rr_reverse_dedup r)[index := Some cache]\<rparr>))
      | _ \<Rightarrow> (False, r))"

subsection \<open>Packing\<close>

lemma packed_masks: "MAX_SLOT = mask 20" "MAX_SHARD = mask 12" "unat MAX_SHARD = 4095"
  by (simp_all add: MAX_SLOT_def MAX_SHARD_def PACKED_SLOT_BITS_def PACKED_SHARD_BITS_def mask_eq_decr_exp
      push_bit_of_1)

lemma slot_fits: "slot \<le> MAX_SLOT \<longleftrightarrow> take_bit 20 slot = slot"
proof -
  have "slot \<le> mask 20 \<Longrightarrow> unat slot < 2 ^ 20" by (simp add: word_le_nat_alt mask_eq_decr_exp)
  then show ?thesis unfolding packed_masks by (metis take_bit_eq_mask word_and_le1 take_bit_fits)
qed

lemma packed_new_iff: "packed_new shard slot = Some r \<longleftrightarrow> packed_shard r = shard \<and> packed_slot r = slot"
proof
  assume "packed_new shard slot = Some r"
  then have a: "take_bit 20 slot = slot" "shard < 2 ^ 12"
    and r: "r = PackedRoute (push_bit 20 (of_nat shard) OR slot)"
    by (auto simp: packed_new_def packed_masks(3) slot_fits PACKED_SLOT_BITS_def split: if_splits)
  have s: "take_bit 12 (of_nat shard :: u32) = of_nat shard" "unat (of_nat shard :: u32) = shard"
    using a(2) by (intro take_bit_fits, simp_all add: unat_of_nat_fits)
  have bits: "bit slot i \<Longrightarrow> i < 20" "bit (of_nat shard :: u32) i \<Longrightarrow> i < 12" for i
    using a(1) s(1) by (metis bit_take_bit_iff)+
  have "drop_bit 20 (push_bit 20 (of_nat shard) OR slot) = of_nat shard"
    by (rule bit_word_eqI) (auto simp: byte_bits dest: bits)
  moreover have "take_bit 20 (push_bit 20 (of_nat shard) OR slot) = slot"
    by (rule bit_word_eqI) (auto simp: byte_bits bit_take_bit_iff dest: bits)
  ultimately show "packed_shard r = shard \<and> packed_slot r = slot"
    by (simp add: r packed_shard_def packed_slot_def PACKED_SLOT_BITS_def packed_masks take_bit_eq_mask [symmetric] s(2))
next
  assume "packed_shard r = shard \<and> packed_slot r = slot"
  then have s: "shard = unat (drop_bit 20 (packed_get r))" "slot = take_bit 20 (packed_get r)"
    by (simp_all add: packed_shard_def packed_slot_def packed_masks PACKED_SLOT_BITS_def take_bit_eq_mask [symmetric])
  have "shard \<le> 4095" unfolding s unat_drop_bit using unat_bounds(3) [of "packed_get r"] by simp
  moreover have "push_bit 20 (of_nat shard) OR slot = packed_get r"
    unfolding s by (rule bit_word_eqI) (auto simp: byte_bits bit_take_bit_iff)
  ultimately show "packed_new shard slot = Some r"
    by (cases r) (simp add: packed_new_def packed_masks(3) slot_fits s(2) PACKED_SLOT_BITS_def)
qed

text \<open>
  C39. Which shards and slots the two constructors of a packed route accept, and what they pack.
  Both refuse a slot of more than 20 bits.  The asserting constructor refuses a shard of more than 12
  bits and packs the shard and slot it is given.  The checked constructor looks at the shard modulo
  \<open>2^32\<close> only: it accepts every shard whose low 32 bits fit, and its route addresses those bits.
\<close>

theorem try_new_truncates_shard:
  "(packed_new shard slot = Some r \<longleftrightarrow> packed_shard r = shard \<and> packed_slot r = slot) \<and>
   (packed_try_new shard slot = Some r \<longleftrightarrow> packed_shard r = shard mod 2 ^ 32 \<and> packed_slot r = slot) \<and>
   (packed_new shard slot = None \<longleftrightarrow> shard \<ge> 2 ^ 12 \<or> unat slot \<ge> 2 ^ 20) \<and>
   (packed_try_new shard slot = None \<longleftrightarrow> shard mod 2 ^ 32 \<ge> 2 ^ 12 \<or> unat slot \<ge> 2 ^ 20)"
proof -
  have u: "unat (of_nat shard :: u32) = shard mod 2 ^ 32" by (simp add: unat_of_nat)
  have "(of_nat shard :: u32) = of_nat (shard mod 2 ^ 32)" by (simp add: word_unat_eq_iff unat_of_nat)
  then have t: "packed_try_new shard slot = packed_new (shard mod 2 ^ 32) slot"
    using u by (auto simp: packed_try_new_def packed_new_def Let_def word_less_nat_alt word_le_nat_alt)
  have none: "packed_new n slot = None \<longleftrightarrow> n \<ge> 2 ^ 12 \<or> unat slot \<ge> 2 ^ 20" for n
    by (auto simp: packed_new_def packed_masks word_le_nat_alt mask_eq_decr_exp not_le)
  show ?thesis unfolding t none packed_new_iff by blast
qed

subsection \<open>The envelope\<close>

lemma type_roundtrip: "type_from_u8 (type_as_u8 ty) = Some ty" "type_from_u8 v = Some ty \<Longrightarrow> type_as_u8 ty = v"
  by (cases ty; simp add: type_from_u8_def) (auto simp: type_from_u8_def split: if_splits)

lemma envelope_decode_encode: "envelope_decode (envelope_encode e @ payload) = Inr e"
  and envelope_peek: "peek_route (envelope_encode e @ payload) = Some (nr_route (env_address e))"
proof -
  obtain ty a x where e: "e = \<lparr>env_ty = ty, env_address = a, env_extension = x\<rparr>" by (cases e)
  obtain r ep where a: "a = \<lparr>nr_route = RouteId (PackedRoute r), nr_epoch = ep\<rparr>"
    by (cases a; cases "nr_route a"; cases "route_id_packed (nr_route a)") auto
  have "be64 (take 8 (to_be64 x @ payload)) = x" by simp
  then show "envelope_decode (envelope_encode e @ payload) = Inr e"
    "peek_route (envelope_encode e @ payload) = Some (nr_route (env_address e))"
    by (simp_all add: e a envelope_decode_def envelope_encode_def ENVELOPE_LEN_def peek_route_def ROUTE_OFFSET_def
        get_range_def to_be16_def to_be32_def type_roundtrip(1))
qed

text \<open>A decoded header re-encodes to the sixteen bytes it came from.\<close>

lemma envelope_decode_exact:
  assumes "envelope_decode buf = Inr e"
  shows "envelope_encode e = take ENVELOPE_LEN buf"
proof -
  have len: "16 \<le> length buf" and v: "buf ! 0 = ENVELOPE_VERSION" and ty: "type_from_u8 (buf ! 1) = Some (env_ty e)"
    and e: "e = \<lparr>env_ty = env_ty e,
          env_address = \<lparr>nr_route = RouteId (PackedRoute (be32 (buf ! 4) (buf ! 5) (buf ! 6) (buf ! 7))),
                         nr_epoch = be16 (buf ! 2) (buf ! 3)\<rparr>,
          env_extension = be64 (take 8 (drop 8 buf))\<rparr>"
    using assms by (auto simp: envelope_decode_def ENVELOPE_LEN_def split: if_splits option.splits)
  have t8: "take 8 buf = [buf ! 0, buf ! 1, buf ! 2, buf ! 3, buf ! 4, buf ! 5, buf ! 6, buf ! 7]"
    using len by (intro nth_equalityI) (auto simp: nth_Cons' less_Suc_eq numeral_eq_Suc)
  have "take 16 buf = take 8 buf @ take 8 (drop 8 buf)" using take_add [of 8 8 buf] by simp
  moreover have "to_be64 (be64 (take 8 (drop 8 buf))) = take 8 (drop 8 buf)" using len by (intro to_be64_be64) simp
  ultimately show ?thesis
    by (subst e) (simp add: envelope_encode_def ENVELOPE_LEN_def t8 v type_roundtrip(2) [OF ty])
qed

text \<open>
  C33. The envelope is sixteen bytes and is read back as written, whatever follows it in the buffer,
  and its route can be peeked without decoding it.
\<close>

theorem envelope_roundtrip:
  "envelope_decode (envelope_encode e @ payload) = Inr e \<and>
   peek_route (envelope_encode e @ payload) = Some (nr_route (env_address e)) \<and>
   length (envelope_encode e) = ENVELOPE_LEN"
  by (simp add: envelope_decode_encode envelope_peek) (simp add: envelope_encode_def ENVELOPE_LEN_def)


text \<open>The body of a media frame carries its link sequence number and playout time.\<close>

lemma media_frame_roundtrip:
  "decode_frame (envelope_encode (envelope_media address link_seq ntp) @ payload) =
     Inr (envelope_media address link_seq ntp, MediaBody link_seq ntp)"
proof -
  let ?x = "push_bit 32 (ucast link_seq) OR ucast ntp :: u64"
  have "ucast (drop_bit 32 ?x) = link_seq" "ucast ?x = ntp"
    by (rule bit_word_eqI; auto simp: byte_bits dest: bit_imp_le_length)+
  then show ?thesis
    using envelope_decode_encode [of "envelope_media address link_seq ntp" payload]
    by (simp add: decode_frame_def envelope_media_def)
qed

subsection \<open>The counters of a link\<close>

definition observe_all :: "u32 list \<Rightarrow> 't RouteRuntimeEntry \<Rightarrow> 't RouteRuntimeEntry" where
  "observe_all seqs e = fold observe seqs e"

text \<open>
  The counters after the frames at offsets \<open>seen\<close> from \<open>base\<close>, of which \<open>hi\<close> is the highest.
\<close>

definition counted :: "u32 \<Rightarrow> nat \<Rightarrow> nat set \<Rightarrow> 't RouteRuntimeEntry \<Rightarrow> bool" where
  "counted base hi seen e \<longleftrightarrow> finite seen \<and> 0 \<in> seen \<and> hi \<in> seen \<and> seen \<subseteq> {..hi} \<and> hi < 2 ^ 31 \<and>
     re_last_link_seq e = Some (base + of_nat hi) \<and>
     unat (rs_received (re_stats e)) = card seen \<and> rs_duplicated (re_stats e) = 0 \<and>
     unat (rs_lost (re_stats e)) + card seen = hi + 1"

lemma counted_first:
  assumes "re_last_link_seq e = None" and "re_stats e = stats_default"
  shows "counted base 0 {0} (observe base e)"
  using assms by (simp add: counted_def observe_def stats_default_def unat_sat_add)

lemma card_seen: "counted base hi seen e \<Longrightarrow> card seen \<le> hi + 1"
  by (auto simp: counted_def)

lemma observe_delta:
  assumes "n < 2 ^ 31" and "hi < 2 ^ 31"
  shows "sint (base + of_nat n - (base + of_nat hi) :: u32) = int n - int hi"
proof -
  have "base + of_nat n - (base + of_nat hi) = (of_int (int n - int hi) :: u32)" by simp
  moreover have "sint (of_int (int n - int hi) :: u32) = int n - int hi"
    using assms by (intro sint_of_int_fits) auto
  ultimately show ?thesis by (simp only:)
qed

lemma observe_late:
  assumes "counted base hi seen e" and "n < hi"
  shows "observe (base + of_nat n) e = e\<lparr>re_stats := (re_stats e)\<lparr>rs_received := sat_add (rs_received (re_stats e)) 1,
    rs_reordered := sat_add (rs_reordered (re_stats e)) 1, rs_lost := sat_sub (rs_lost (re_stats e)) 1\<rparr>\<rparr>"
proof -
  have last: "re_last_link_seq e = Some (base + of_nat hi)" and hi: "hi < 2 ^ 31" using assms(1) by (simp_all add: counted_def)
  have "sint (base + of_nat n - (base + of_nat hi) :: u32) = int n - int hi"
    using assms(2) hi by (intro observe_delta) simp_all
  then show ?thesis unfolding observe_def last Let_def option.case using assms(2) by simp
qed

lemma counted_step:
  assumes c: "counted base hi seen e" and "n \<notin> seen" and "n < 2 ^ 31"
  shows "counted base (max n hi) (insert n seen) (observe (base + of_nat n) e)"
proof -
  have d: "sint (base + of_nat n - (base + of_nat hi) :: u32) = int n - int hi"
    using assms(3) c by (intro observe_delta) (simp_all add: counted_def)
  have fin: "finite seen" and hi: "hi < 2 ^ 31" "n \<noteq> hi" using c assms(2) by (auto simp: counted_def)
  have rec: "unat (sat_add (rs_received (re_stats e)) 1) = card seen + 1"
    using c card_seen [OF c] hi(1) by (simp add: counted_def unat_sat_add)
  have last: "re_last_link_seq e = Some (base + of_nat hi)" using c by (simp add: counted_def)
  show ?thesis
  proof (cases "n < hi")
    case True
    then have "card seen \<le> hi"
    proof -
      have "seen \<subseteq> {..hi} - {n}" using c assms(2) by (auto simp: counted_def)
      then have "card seen \<le> card ({..hi} - {n})" by (intro card_mono) auto
      then show ?thesis using True by simp
    qed
    then have "unat (sat_sub (rs_lost (re_stats e)) 1) + (card seen + 1) = hi + 1"
      using c by (simp add: counted_def unat_sat_sub)
    moreover note observe_late [OF c True]
    ultimately show ?thesis
      using c True assms(2) rec fin by (auto simp: counted_def max_def)
  next
    case False
    let ?g = "ucast (sat_sub (of_int (int n - int hi) :: u32) 1) :: u64"
    have "of_int (int n - int hi) = (of_nat (n - hi) :: u32)" using False by (simp add: of_nat_diff)
    moreover have "unat (of_nat (n - hi) :: u32) = n - hi" using assms(3) by (intro unat_of_nat_fits) simp
    ultimately have "unat (sat_sub (of_int (int n - int hi) :: u32) 1) = n - hi - 1" by (simp add: unat_sat_sub)
    then have g: "unat ?g = n - hi - 1"
      using assms(3) by (simp add: unsigned_ucast_eq take_bit_nat_eq_self)
    have ll: "unat (rs_lost (re_stats e)) \<le> 2147483648" using c by (auto simp: counted_def)
    have "unat (sat_add (rs_lost (re_stats e)) ?g) = unat (rs_lost (re_stats e)) + (n - hi - 1)"
      unfolding unat_sat_add g by (rule min_absorb1) (use ll assms(3) in simp)
    moreover have "observe (base + of_nat n) e = e\<lparr>re_stats := (re_stats e)\<lparr>rs_received := sat_add (rs_received (re_stats e)) 1,
        rs_lost := sat_add (rs_lost (re_stats e)) ?g\<rparr>, re_last_link_seq := Some (base + of_nat n)\<rparr>"
      unfolding observe_def last Let_def option.case d using False hi(2) by simp
    ultimately show ?thesis
      using c False hi assms(2,3) rec fin by (auto simp: counted_def max_def)
  qed
qed

lemma counted_all:
  assumes "counted base hi seen e" and "distinct os" and "set os \<inter> seen = {}" and "\<forall>n \<in> set os. n < 2 ^ 31"
  shows "\<exists>hi'. counted base hi' (set os \<union> seen) (fold observe (map (\<lambda>n. base + of_nat n) os) e)"
  using assms
proof (induction os arbitrary: hi seen e)
  case (Cons n os)
  then have "counted base (max n hi) (insert n seen) (observe (base + of_nat n) e)"
    by (intro counted_step) auto
  from Cons.IH [OF this] Cons.prems show ?case by auto
qed auto


lemma counted_run:
  assumes "re_last_link_seq e = None" and "re_stats e = stats_default"
    and "distinct (0 # os)" and "\<forall>n \<in> set os. n < 2 ^ 31"
  shows "counted base (Max (set (0 # os))) (set (0 # os)) (observe_all (map (\<lambda>n. base + of_nat n) (0 # os)) e)"
proof -
  obtain hi where c: "counted base hi (set os \<union> {0}) (fold observe (map (\<lambda>n. base + of_nat n) os) (observe base e))"
    using counted_all [OF counted_first [OF assms(1,2)], of os base] assms(3,4) by auto
  then have "Max (set (0 # os)) = hi" by (intro Max_eqI) (auto simp: counted_def subset_iff)
  then show ?thesis using c by (simp add: observe_all_def)
qed

lemma counted_missing:
  assumes "counted base hi seen e"
  shows "unat (rs_lost (re_stats e)) = card ({..hi} - seen)"
proof -
  have "card ({..hi} - seen) = hi + 1 - card seen"
    using assms by (subst card_Diff_subset) (auto simp: counted_def)
  then show ?thesis using assms by (auto simp: counted_def)
qed

text \<open>
  C32. The counters of a link are exact under loss and reordering: when the frames at distinct offsets
  from the first one arrive in any order, the first one first, the link has counted each of them,
  no duplicate, and as lost exactly the offsets below the highest that have not arrived.  Sequence
  numbers wrap at 32 bits; offsets stay below \<open>2^31\<close>.
\<close>

theorem link_counters_exact:
  assumes "re_last_link_seq e = None" and "re_stats e = stats_default"
    and "distinct (0 # os)" and "\<forall>n \<in> set os. n < 2 ^ 31"
  shows "\<exists>e'. observe_all (map (\<lambda>n. base + of_nat n) (0 # os)) e = e' \<and>
     unat (rs_received (re_stats e')) = length (0 # os) \<and> rs_duplicated (re_stats e') = 0 \<and>
     unat (rs_lost (re_stats e')) = card ({..Max (set (0 # os))} - set (0 # os)) \<and>
     re_last_link_seq e' = Some (base + of_nat (Max (set (0 # os))))"
proof -
  note c = counted_run [OF assms, of base]
  have "card (set (0 # os)) = length (0 # os)" using assms(3) by (rule distinct_card)
  then show ?thesis using c counted_missing [OF c] unfolding counted_def by metis
qed

theorem link_counters_exact_witness:
  "\<exists>e'. observe_all (map (\<lambda>n. 4294967295 + of_nat n) (0 # [3, 1]))
     \<lparr>re_epoch = 0, re_action = Forward (), re_expander = expander_new NTP_ZERO, re_last_link_seq = None,
      re_stats = stats_default\<rparr> = e' \<and> rs_duplicated (re_stats e') = 0 \<and>
     re_last_link_seq e' = Some (4294967295 + of_nat (Max (set (0 # [3, 1]))))"
  using link_counters_exact [of "\<lparr>re_epoch = 0, re_action = Forward (), re_expander = expander_new NTP_ZERO,
      re_last_link_seq = None, re_stats = stats_default\<rparr>" "[3, 1]" 4294967295] by auto

text \<open>
  C38. A repeated frame that is not the newest hides a loss.  After any run in which the frames at
  distinct offsets have arrived, the lowest first, a second copy of one of them that is not the newest is
  counted as reordered and not as a duplicate, and the link reports one lost frame fewer than are missing,
  as long as any is missing.
\<close>

theorem late_duplicate_hides_loss:
  assumes "re_last_link_seq e = None" and "re_stats e = stats_default"
    and "distinct (0 # os)" and "\<forall>n \<in> set os. n < 2 ^ 31"
    and "n \<in> set (0 # os)" and "n < Max (set (0 # os))"
    and "e1 = observe_all (map (\<lambda>n. base + of_nat n) (0 # os)) e" and "e2 = observe (base + of_nat n) e1"
  shows "rs_reordered (re_stats e2) = sat_add (rs_reordered (re_stats e1)) 1 \<and> rs_duplicated (re_stats e2) = 0 \<and>
    unat (rs_lost (re_stats e2)) = card ({..Max (set (0 # os))} - set (0 # os)) - 1"
proof -
  have c: "counted base (Max (set (0 # os))) (set (0 # os)) e1" unfolding assms(7) by (rule counted_run [OF assms(1-4)])
  then have "rs_duplicated (re_stats e1) = 0" by (simp add: counted_def)
  then show ?thesis using observe_late [OF c assms(6)] counted_missing [OF c] by (simp add: assms(8) unat_sat_sub)
qed

theorem late_duplicate_hides_loss_witness:
  "let e = observe_all (map (\<lambda>n. 7 + of_nat n) [0, 1, 3, 1]) \<lparr>re_epoch = 0, re_action = Forward (),
      re_expander = expander_new NTP_ZERO, re_last_link_seq = None, re_stats = stats_default\<rparr>
   in unat (rs_lost (re_stats e)) = 0 \<and> rs_duplicated (re_stats e) = 0"
proof -
  have "card ({..3} - {0, 1, 3 :: nat}) = 1"
  proof -
    have "{..3} - {0, 1, 3 :: nat} = {2}" by auto
    then show ?thesis by simp
  qed
  then show ?thesis
    using late_duplicate_hides_loss [OF _ _ _ _ _ _ refl refl, of "\<lparr>re_epoch = 0, re_action = Forward (),
      re_expander = expander_new NTP_ZERO, re_last_link_seq = None, re_stats = stats_default\<rparr>" "[1, 3]" 1 7]
    by (simp add: observe_all_def Let_def)
qed

subsection \<open>The slot allocator\<close>

definition alloc_inv :: "SlotAllocator \<Rightarrow> bool" where
  "alloc_inv a \<longleftrightarrow> length (sa_quarantined a) = length (sa_epochs a) \<and> length (sa_epochs a) \<le> 2 ^ 20 \<and>
     distinct (map fst (sa_quarantine a)) \<and>
     (\<forall>s. s \<in> fst ` set (sa_quarantine a) \<longleftrightarrow> unat s < length (sa_epochs a) \<and> sa_quarantined a ! unat s)"

text \<open>The slots that are handed out and not retired.\<close>

definition live :: "SlotAllocator \<Rightarrow> u32 set" where
  "live a = {s. unat s < length (sa_epochs a) \<and> \<not> sa_quarantined a ! unat s}"

lemma alloc_inv_new: "alloc_inv (with_max_slots m)"
  by (simp add: alloc_inv_def with_max_slots_def)

lemma allocate_fresh_spec:
  assumes i: "alloc_inv a" and f: "allocate_fresh a = Some ((slot, epoch), a')"
  shows "unat slot = length (sa_epochs a)" "alloc_inv a'" "live a' = insert slot (live a)" "epoch = 0"
    "sa_epochs a' = sa_epochs a @ [0]"
proof -
  let ?n = "length (sa_epochs a)"
  have n: "?n \<le> 2 ^ 20" using i by (simp add: alloc_inv_def)
  have f': "slot = of_nat ?n" "slot \<le> MAX_SLOT" "epoch = 0"
    "a' = a\<lparr>sa_epochs := sa_epochs a @ [0], sa_quarantined := sa_quarantined a @ [False]\<rparr>"
    using f n by (auto simp: allocate_fresh_def Let_def split: if_splits)
  show u: "unat slot = ?n" using n f'(1) by (simp add: unat_of_nat_fits)
  show "epoch = 0" by (rule f'(3))
  show "sa_epochs a' = sa_epochs a @ [0]" by (simp add: f'(4))
  have "unat slot < 2 ^ 20" using f'(2) by (simp add: packed_masks word_le_nat_alt mask_eq_decr_exp)
  then have l: "length (sa_epochs a') \<le> 2 ^ 20" using u by (simp add: f'(4))
  have q: "length (sa_quarantined a) = ?n" using i by (simp add: alloc_inv_def)
  have nth: "unat s < length (sa_epochs a') \<and> sa_quarantined a' ! unat s \<longleftrightarrow> unat s < ?n \<and> sa_quarantined a ! unat s" for s
    using q by (auto simp: f'(4) nth_append less_Suc_eq)
  show "alloc_inv a'"
    using i l q by (simp only: alloc_inv_def nth) (simp add: f'(4))
  have eq: "s = slot \<longleftrightarrow> unat s = ?n" for s using u by (metis word_unat_eq_iff)
  show "live a' = insert slot (live a)"
  proof (rule set_eqI)
    fix x
    show "x \<in> live a' \<longleftrightarrow> x \<in> insert slot (live a)"
      unfolding insert_iff eq using q
      by (cases "unat x < ?n"; cases "unat x = ?n") (auto simp: live_def f'(4) nth_append)
  qed
qed

lemma allocate_reuse_spec:
  assumes i: "alloc_inv a" and q: "sa_quarantine a = (slot, retired_at) # rest"
    and t: "nat (now - retired_at) \<ge> ROUTE_QUARANTINE" and f: "allocate now a = Some ((s, epoch), a')"
  shows "s = slot" "alloc_inv a'" "live a' = insert slot (live a)" "slot \<notin> live a"
    "unat slot < length (sa_epochs a)" "epoch = sa_epochs a ! unat slot + 1"
    "sa_epochs a' = (sa_epochs a)[unat slot := epoch]"
proof -
  have in_q: "slot \<in> fst ` set (sa_quarantine a)" by (simp add: q)
  then have b: "unat slot < length (sa_epochs a)" "sa_quarantined a ! unat slot"
    and l: "length (sa_quarantined a) = length (sa_epochs a)" "length (sa_epochs a) \<le> 2 ^ 20"
    using i by (auto simp: alloc_inv_def)
  have r: "s = slot" "epoch = sa_epochs a ! unat slot + 1"
    "a' = a\<lparr>sa_quarantine := rest, sa_quarantined := (sa_quarantined a)[unat slot := False],
            sa_epochs := (sa_epochs a)[unat slot := epoch]\<rparr>"
    using f t b l by (auto simp: allocate_def q Let_def)
  show "s = slot" "unat slot < length (sa_epochs a)" "epoch = sa_epochs a ! unat slot + 1"
    "sa_epochs a' = (sa_epochs a)[unat slot := epoch]" using r b by simp_all
  show "slot \<notin> live a" using b by (simp add: live_def)
  have nth: "unat x < length (sa_epochs a') \<and> sa_quarantined a' ! unat x \<longleftrightarrow>
      x \<noteq> slot \<and> unat x < length (sa_epochs a) \<and> sa_quarantined a ! unat x" for x
    using l b by (auto simp: r(3) nth_list_update word_unat_eq_iff)
  have "x \<in> fst ` set rest \<longleftrightarrow> x \<noteq> slot \<and> x \<in> fst ` set (sa_quarantine a)" for x
    using i by (auto simp: alloc_inv_def q image_iff)
  then show "alloc_inv a'" using i l by (simp only: alloc_inv_def nth) (auto simp: r(3) q)
  show "live a' = insert slot (live a)"
    using l b by (auto simp: live_def r(3) nth_list_update word_unat_eq_iff)
qed

lemma retire_spec:
  assumes i: "alloc_inv a"
  shows "alloc_inv (retire_slot slot now a)" "live (retire_slot slot now a) = live a - {slot}"
    "sa_epochs (retire_slot slot now a) = sa_epochs a"
proof -
  have l: "length (sa_quarantined a) = length (sa_epochs a)" using i by (simp add: alloc_inv_def)
  let ?a = "retire_slot slot now a"
  have "alloc_inv ?a \<and> live ?a = live a - {slot} \<and> sa_epochs ?a = sa_epochs a"
  proof (cases "get_at (sa_quarantined a) (unat slot) = Some False")
    case True
    then have b: "unat slot < length (sa_epochs a)" "\<not> sa_quarantined a ! unat slot"
      using l by (auto simp: get_at_Some_iff)
    have a': "?a = a\<lparr>sa_quarantined := (sa_quarantined a)[unat slot := True],
        sa_quarantine := sa_quarantine a @ [(slot, now)]\<rparr>" using True by (simp add: retire_slot_def)
    have "slot \<notin> fst ` set (sa_quarantine a)" using i b by (simp add: alloc_inv_def)
    moreover have "unat x < length (sa_epochs ?a) \<and> sa_quarantined ?a ! unat x \<longleftrightarrow>
        x = slot \<or> unat x < length (sa_epochs a) \<and> sa_quarantined a ! unat x" for x
      using l b by (auto simp: a' nth_list_update word_unat_eq_iff)
    ultimately have "alloc_inv ?a" using i l by (simp only: alloc_inv_def) (auto simp: a')
    moreover have "live ?a = live a - {slot}"
      using l b by (auto simp: live_def a' nth_list_update word_unat_eq_iff)
    ultimately show ?thesis by (simp add: a')
  next
    case False
    then have "?a = a" by (auto simp: retire_slot_def split: option.splits bool.splits)
    moreover have "slot \<notin> live a" using False l by (auto simp: live_def get_at_def)
    ultimately show ?thesis using i by simp
  qed
  then show "alloc_inv ?a" "live ?a = live a - {slot}" "sa_epochs ?a = sa_epochs a" by simp_all
qed


lemma allocate_spec:
  assumes i: "alloc_inv a" and f: "allocate now a = Some ((slot, epoch), a')"
  shows "alloc_inv a' \<and> slot \<notin> live a \<and> live a' = insert slot (live a) \<and>
    (if unat slot < length (sa_epochs a)
     then (\<exists>t. (slot, t) \<in> set (sa_quarantine a) \<and> t + int ROUTE_QUARANTINE \<le> now) \<and>
       epoch = sa_epochs a ! unat slot + 1 \<and> sa_epochs a' = (sa_epochs a)[unat slot := epoch]
     else unat slot = length (sa_epochs a) \<and> epoch = 0 \<and> sa_epochs a' = sa_epochs a @ [0])"
proof (cases "\<exists>s t rest. sa_quarantine a = (s, t) # rest \<and> nat (now - t) \<ge> ROUTE_QUARANTINE")
  case True
  then obtain s t rest where q: "sa_quarantine a = (s, t) # rest" and t: "nat (now - t) \<ge> ROUTE_QUARANTINE" by blast
  note r = allocate_reuse_spec [OF i q t f]
  have "t + int ROUTE_QUARANTINE \<le> now" using t by (simp add: ROUTE_QUARANTINE_def)
  then have "\<exists>t. (slot, t) \<in> set (sa_quarantine a) \<and> t + int ROUTE_QUARANTINE \<le> now" using q r(1) by auto
  with r show ?thesis by simp
next
  case False
  then have "allocate_fresh a = Some ((slot, epoch), a')"
    using f by (auto simp: allocate_def split: list.splits if_splits)
  note r = allocate_fresh_spec [OF i this]
  have "slot \<notin> live a" using r(1) by (simp add: live_def)
  with r show ?thesis by simp
qed

inductive alloc_reachable :: "SlotAllocator \<Rightarrow> bool" where
  reach_new: "alloc_reachable (with_max_slots m)"
| reach_allocate: "alloc_reachable a \<Longrightarrow> allocate now a = Some (r, a') \<Longrightarrow> alloc_reachable a'"
| reach_retire: "alloc_reachable a \<Longrightarrow> alloc_reachable (retire_slot slot now a)"

lemma reachable_inv: "alloc_reachable a \<Longrightarrow> alloc_inv a"
proof (induction rule: alloc_reachable.induct)
  case (reach_new m)
  show ?case by (rule alloc_inv_new)
next
  case (reach_allocate a now r a')
  then show ?case using allocate_spec by (cases r) blast
next
  case (reach_retire a slot now)
  then show ?case using retire_spec(1) by blast
qed

text \<open>
  C29. A slot is never shared and never reused early: in every reachable state an allocation hands
  out a slot that is not in use, and when the slot was used before, it has waited out its quarantine
  and gets the next epoch; retiring a slot, once or again, takes exactly that slot out of use.
\<close>

theorem slot_exclusive:
  assumes "alloc_reachable a" and "allocate now a = Some ((slot, epoch), a')"
  shows "slot \<notin> live a \<and> live a' = insert slot (live a) \<and> live (retire_slot s t a) = live a - {s} \<and>
    (unat slot < length (sa_epochs a) \<longrightarrow> epoch = sa_epochs a ! unat slot + 1 \<and>
       (\<exists>retired_at. (slot, retired_at) \<in> set (sa_quarantine a) \<and> retired_at + int ROUTE_QUARANTINE \<le> now))"
  using allocate_spec [OF reachable_inv [OF assms(1)] assms(2)] retire_spec(2) [OF reachable_inv [OF assms(1)]]
  by auto

theorem slot_exclusive_witness:
  "\<exists>slot epoch a'. allocate 3000000000 (retire_slot 0 0 \<lparr>sa_epochs = [0], sa_quarantine = [],
      sa_quarantined = [False], sa_max_slots = 9\<rparr>) = Some ((slot, epoch), a') \<and>
     slot \<notin> live (retire_slot 0 0 \<lparr>sa_epochs = [0], sa_quarantine = [], sa_quarantined = [False], sa_max_slots = 9\<rparr>)"
proof -
  let ?a1 = "\<lparr>sa_epochs = [0], sa_quarantine = [], sa_quarantined = [False], sa_max_slots = 9\<rparr>"
  let ?a3 = "\<lparr>sa_epochs = [1], sa_quarantine = [], sa_quarantined = [False], sa_max_slots = 9\<rparr>"
  have "allocate 0 (with_max_slots 9) = Some ((0, 0), ?a1)"
    by (simp add: allocate_def with_max_slots_def allocate_fresh_def)
  then have r: "alloc_reachable (retire_slot 0 0 ?a1)"
    by (intro reach_retire reach_allocate [OF reach_new])
  have "allocate 3000000000 (retire_slot 0 0 ?a1) = Some ((0, 1), ?a3)"
    by (simp add: allocate_def retire_slot_def get_at_def ROUTE_QUARANTINE_def)
  with slot_exclusive [OF r this] show ?thesis by blast
qed

datatype alloc_op = Allocate Instant | Retire u32 Instant

fun run_alloc :: "alloc_op list \<Rightarrow> SlotAllocator \<Rightarrow> ((u32 \<times> u16) list \<times> SlotAllocator) option" where
  "run_alloc [] a = Some ([], a)"
| "run_alloc (Allocate now # ops) a = (case allocate now a of
     None \<Rightarrow> None
   | Some (r, a) \<Rightarrow> map_option (\<lambda>(rs, a). (r # rs, a)) (run_alloc ops a))"
| "run_alloc (Retire slot now # ops) a = run_alloc ops (retire_slot slot now a)"

text \<open>What a later allocation cannot hand out any more: addresses up to the current epoch of a slot.\<close>

definition used :: "SlotAllocator \<Rightarrow> (u32 \<times> u16) set" where
  "used a = {(s, e). unat s < length (sa_epochs a) \<and> e \<le> sa_epochs a ! unat s}"

definition below :: "nat \<Rightarrow> SlotAllocator \<Rightarrow> bool" where
  "below n a \<longleftrightarrow> (\<forall>e \<in> set (sa_epochs a). unat e \<le> n)"

lemma allocate_advances:
  assumes "alloc_inv a" and "below n a" and "n < 65535" and "allocate now a = Some (r, a')"
  shows "r \<notin> used a" "insert r (used a) \<subseteq> used a'" "below (Suc n) a'"
proof -
  obtain slot epoch where r: "r = (slot, epoch)" by (cases r)
  note s = allocate_spec [OF assms(1) assms(4) [unfolded r]]
  have "r \<notin> used a \<and> insert r (used a) \<subseteq> used a' \<and> below (Suc n) a'"
  proof (cases "unat slot < length (sa_epochs a)")
    case True
    let ?old = "sa_epochs a ! unat slot"
    have e: "epoch = ?old + 1" "sa_epochs a' = (sa_epochs a)[unat slot := epoch]" using s True by auto
    have "unat ?old \<le> n" using assms(2) True by (auto simp: below_def)
    then have u: "unat epoch = Suc (unat ?old)" using assms(3) e(1) unat_plus_of_nat [of ?old 1] by simp
    have "below (Suc n) a'"
      using assms(2) u \<open>unat ?old \<le> n\<close> set_update_subset_insert [of "sa_epochs a" "unat slot" epoch]
      by (force simp: below_def e(2))
    moreover have "insert r (used a) \<subseteq> used a'"
      using True u by (auto simp: used_def e(2) r nth_list_update word_unat_eq_iff word_le_nat_alt)
    ultimately show ?thesis using u by (auto simp: used_def r word_le_nat_alt)
  next
    case False
    then have e: "unat slot = length (sa_epochs a)" "epoch = 0" "sa_epochs a' = sa_epochs a @ [0]" using s by auto
    have "below (Suc n) a'" using assms(2) by (auto simp: below_def e(3))
    moreover have "insert r (used a) \<subseteq> used a'" using e by (auto simp: used_def r nth_append)
    ultimately show ?thesis using e by (auto simp: used_def r)
  qed
  then show "r \<notin> used a" "insert r (used a) \<subseteq> used a'" "below (Suc n) a'" by simp_all
qed

lemma run_alloc_distinct:
  assumes "alloc_inv a" and "below n a" and "n + length ops < 65536" and "run_alloc ops a = Some (rs, a')"
  shows "distinct rs \<and> set rs \<inter> used a = {}"
  using assms
proof (induction ops a arbitrary: n rs rule: run_alloc.induct)
  case (2 now ops a)
  then obtain r b rs' where r: "allocate now a = Some (r, b)" "run_alloc ops b = Some (rs', a')" "rs = r # rs'"
    by (auto split: option.splits)
  have n: "n < 65535" using 2(4) by simp
  note adv = allocate_advances [OF 2(2,3) n r(1)]
  have "alloc_inv b" using allocate_spec [OF 2(2)] r(1) by (cases r) blast
  from 2(1) [OF r(1) refl this adv(3) _ r(2)] 2(4) have "distinct rs' \<and> set rs' \<inter> used b = {}" by simp
  then show ?case using adv(1,2) r(3) by auto
next
  case (3 slot now ops a)
  have "used (retire_slot slot now a) = used a" "below n (retire_slot slot now a)"
    using 3(3) retire_spec(3) [OF 3(2), of slot now] by (simp_all add: used_def below_def)
  then show ?case using 3(1) [of n rs] retire_spec(1) [OF 3(2)] 3(4,5) by simp
qed simp

text \<open>
  C28. No address is handed out twice: in any run of fewer than 65536 operations, whatever is retired
  when, all pairs of slot and epoch that were allocated are different, so a delayed datagram for an
  old incarnation of a slot never matches a new one.
\<close>

theorem addresses_unique:
  assumes "run_alloc ops (with_max_slots m) = Some (rs, a)" and "length ops < 65536"
  shows "distinct rs"
  using run_alloc_distinct [OF alloc_inv_new, of 0 m ops rs a] assms by (simp add: below_def with_max_slots_def)

theorem addresses_unique_witness:
  "distinct [(0, 0), (1, 0), (0, 1 :: u16) :: u32 \<times> u16]"
proof (rule addresses_unique)
  show "run_alloc [Allocate 0, Retire 0 0, Allocate 1000000000, Retire 0 0, Allocate 2000000000] (with_max_slots 9) =
    Some ([(0, 0), (1, 0), (0, 1)], \<lparr>sa_epochs = [1, 0], sa_quarantine = [], sa_quarantined = [False, False],
      sa_max_slots = 9\<rparr>)"
    by (simp add: allocate_def with_max_slots_def allocate_fresh_def retire_slot_def get_at_def ROUTE_QUARANTINE_def
        packed_masks mask_eq_decr_exp)
qed simp

subsection \<open>The route table\<close>

definition table_inv :: "'t RouteRuntime \<Rightarrow> bool" where
  "table_inv r \<longleftrightarrow> length (rr_slots r) = length (rr_reverse_dedup r) \<and>
     (\<forall>c. Some c \<in> set (rr_reverse_dedup r) \<longrightarrow> length c \<le> REVERSE_DEDUP_CAPACITY)"

lemma resize_none_simps:
  "length xs \<le> n \<Longrightarrow> resize_none n xs = xs @ replicate (n - length xs) None"
  by (simp add: resize_none_def)

lemma ensure_slot_get:
  "get_at (rr_slots (ensure_slot i r)) j =
     (if j < length (rr_slots r) then Some (rr_slots r ! j) else if j \<le> i then Some None else None)"
  by (auto simp: ensure_slot_def resize_none_simps get_at_def nth_append)

lemma ensure_slot_len: "i < length (rr_slots (ensure_slot i r))"
  by (simp add: ensure_slot_def resize_none_def)

lemma ensure_slot_inv: "table_inv r \<Longrightarrow> table_inv (ensure_slot i r)"
  by (auto simp: table_inv_def ensure_slot_def resize_none_simps)

lemma entry_ensure [simp]: "route_entry a (ensure_slot i r) = route_entry a r"
  unfolding route_entry_def ensure_slot_get by (simp add: get_at_def)

lemma set_update_None: "Some c \<in> set (xs[i := None]) \<Longrightarrow> Some c \<in> set xs"
  using set_update_subset_insert [of xs i None] by auto

lemma install_action_inv: "table_inv r \<Longrightarrow> table_inv (install_action a act r)"
  using ensure_slot_inv [of r "address_index a"]
  by (auto simp: install_action_def table_inv_def clear_dedup_def Let_def dest: set_update_None split: option.splits if_splits)

lemma route_retire_inv: "table_inv r \<Longrightarrow> table_inv (snd (route_retire a r))"
  by (auto simp: route_retire_def table_inv_def clear_dedup_def Let_def dest: set_update_None split: option.splits if_splits)

lemma resolve_install:
  "resolve b (install_action a act r) =
     (if address_index b = address_index a then if nr_epoch b = nr_epoch a then Some act else None
      else resolve b r)"
proof -
  let ?i = "address_index a" and ?r = "ensure_slot (address_index a) r"
  have len: "?i < length (rr_slots ?r)" by (rule ensure_slot_len)
  have other: "resolve b (install_action a act r) = resolve b r" if "address_index b \<noteq> ?i"
  proof -
    have "get_at (rr_slots (install_action a act r)) (address_index b) = get_at (rr_slots ?r) (address_index b)"
      using that by (auto simp: install_action_def clear_dedup_def Let_def get_at_def split: option.splits)
    then have "route_entry b (install_action a act r) = route_entry b ?r" by (simp add: route_entry_def)
    then show ?thesis by (simp add: resolve_def)
  qed
  have "\<exists>e. get_at (rr_slots (install_action a act r)) ?i = Some (Some e) \<and> re_epoch e = nr_epoch a \<and> re_action e = act"
    using len by (auto simp: install_action_def clear_dedup_def Let_def get_at_def split: option.splits)
  then have same: "address_index b = ?i \<Longrightarrow>
      resolve b (install_action a act r) = (if nr_epoch b = nr_epoch a then Some act else None)"
    by (auto simp: resolve_def route_entry_def)
  show ?thesis using other same by simp
qed

lemma resolve_retire:
  "resolve b (snd (route_retire a r)) =
     (if address_index b = address_index a \<and> resolve a r \<noteq> None then None else resolve b r)"
  "fst (route_retire a r) \<longleftrightarrow> resolve a r \<noteq> None" "resolve a r = None \<Longrightarrow> snd (route_retire a r) = r"
  by (auto simp: route_retire_def resolve_def route_entry_def clear_dedup_def Let_def get_at_def nth_list_update
      split: option.splits if_splits)

text \<open>
  C30. The route table answers for incarnations, not for slots: after an action is installed for an
  address, the address resolves to it, every other epoch of the slot resolves to nothing and every
  other slot is untouched; a teardown takes effect only for the incarnation it names, and for a stale
  one it changes nothing at all.
\<close>

theorem route_table_epochs:
  "resolve b (install_action a act r) =
     (if address_index b = address_index a then if nr_epoch b = nr_epoch a then Some act else None
      else resolve b r) \<and>
   resolve b (snd (route_retire a r)) =
     (if address_index b = address_index a \<and> resolve a r \<noteq> None then None else resolve b r) \<and>
   (fst (route_retire a r) \<or> snd (route_retire a r) = r)"
  using resolve_retire(2,3) [of a r] by (intro conjI resolve_install resolve_retire(1)) blast

subsection \<open>Reverse deduplication\<close>

text \<open>An entry with at most \<open>k\<close> younger entries behind it.\<close>

definition within :: "nat \<Rightarrow> 'a \<Rightarrow> 'a list \<Rightarrow> bool" where
  "within k x xs \<longleftrightarrow> (\<exists>ys zs. xs = ys @ x # zs \<and> length zs \<le> k)"

lemma within_push:
  assumes "within k x xs" and "Suc k < REVERSE_DEDUP_CAPACITY"
  shows "within (Suc k) x ((if length xs \<ge> REVERSE_DEDUP_CAPACITY then tl xs else xs) @ [y])"
proof -
  obtain ys zs where x: "xs = ys @ x # zs" "length zs \<le> k" using assms(1) by (auto simp: within_def)
  show ?thesis
  proof (cases "length xs \<ge> REVERSE_DEDUP_CAPACITY")
    case True
    then have "ys \<noteq> []" using x assms(2) by auto
    then have "tl xs @ [y] = tl ys @ x # (zs @ [y])" by (simp add: x(1))
    with True x(2) show ?thesis unfolding within_def by (metis Suc_le_mono length_append_singleton)
  next
    case False
    have "xs @ [y] = ys @ x # (zs @ [y])" by (simp add: x(1))
    with False x(2) show ?thesis unfolding within_def by (metis Suc_le_mono length_append_singleton)
  qed
qed

lemma within_filter: "within k x xs \<Longrightarrow> P x \<Longrightarrow> within k x (filter P xs)"
proof -
  assume "within k x xs" "P x"
  then obtain ys zs where x: "xs = ys @ x # zs" "length zs \<le> k" by (auto simp: within_def)
  have "filter P xs = filter P ys @ x # filter P zs" "length (filter P zs) \<le> k"
    using x \<open>P x\<close> order_trans [OF length_filter_le x(2), of P] by simp_all
  then show ?thesis unfolding within_def by blast
qed

lemma dedup_step_len:
  assumes "length c \<le> REVERSE_DEDUP_CAPACITY"
  shows "length (snd (dedup_step d now c)) \<le> REVERSE_DEDUP_CAPACITY"
proof -
  let ?c = "filter (\<lambda>entry. de_expires_at entry > now) c"
  have "length ?c \<le> REVERSE_DEDUP_CAPACITY" using assms by (rule order_trans [OF length_filter_le])
  then show ?thesis
    unfolding dedup_step_def Let_def REVERSE_DEDUP_CAPACITY_def by (simp add: Suc_le_eq)
qed

lemma dedup_step_keeps:
  assumes "within k x c" and "de_expires_at x > now" and "Suc k < REVERSE_DEDUP_CAPACITY"
  shows "within (if fst (dedup_step d now c) then Suc k else k) x (snd (dedup_step d now c))"
    and "de_key x = rd_key d \<Longrightarrow> \<not> fst (dedup_step d now c)"
proof -
  let ?c = "filter (\<lambda>entry. de_expires_at entry > now) c"
  have w: "within k x ?c" by (rule within_filter) (use assms in auto)
  show "within (if fst (dedup_step d now c) then Suc k else k) x (snd (dedup_step d now c))"
    using w within_push [OF w assms(3)] by (simp add: dedup_step_def Let_def)
  have "x \<in> set ?c" using w unfolding within_def by (metis in_set_conv_decomp)
  then show "de_key x = rd_key d \<Longrightarrow> \<not> fst (dedup_step d now c)"
    by (auto simp: dedup_step_def Let_def)
qed


definition cache_of :: "NodeRouteAddress \<Rightarrow> 't RouteRuntime \<Rightarrow> ReverseDedupEntry list" where
  "cache_of a r = (case get_at (rr_reverse_dedup r) (address_index a) of Some (Some c) \<Rightarrow> c | _ \<Rightarrow> [])"

lemma accept_reverse_simps:
  assumes "table_inv r"
  shows "resolve b (snd (accept_reverse a d now r)) = resolve b r" "table_inv (snd (accept_reverse a d now r))"
    "fst (accept_reverse a d now r) \<longleftrightarrow> (\<exists>t. resolve a r = Some (Reverse t)) \<and> fst (dedup_step d now (cache_of a r))"
    "cache_of a (snd (accept_reverse a d now r)) =
       (if \<exists>t. resolve a r = Some (Reverse t) then snd (dedup_step d now (cache_of a r)) else cache_of a r)"
proof -
  let ?i = "address_index a"
  have "resolve b (snd (accept_reverse a d now r)) = resolve b r \<and> table_inv (snd (accept_reverse a d now r)) \<and>
    (fst (accept_reverse a d now r) \<longleftrightarrow> (\<exists>t. resolve a r = Some (Reverse t)) \<and> fst (dedup_step d now (cache_of a r))) \<and>
    cache_of a (snd (accept_reverse a d now r)) =
       (if \<exists>t. resolve a r = Some (Reverse t) then snd (dedup_step d now (cache_of a r)) else cache_of a r)"
  proof (cases "\<exists>t. resolve a r = Some (Reverse t)")
    case True
    then obtain t where t: "resolve a r = Some (Reverse t)" by blast
    then have "?i < length (rr_slots r)"
      by (auto simp: resolve_def route_entry_def get_at_def split: if_splits)
    then have len: "?i < length (rr_reverse_dedup r)" using assms by (simp add: table_inv_def)
    define c where "c = (case rr_reverse_dedup r ! ?i of None \<Rightarrow> [] | Some c \<Rightarrow> c)"
    have c: "cache_of a r = c" using len by (simp add: cache_of_def get_at_def c_def split: option.splits)
    have acc: "accept_reverse a d now r = (fst (dedup_step d now c),
        r\<lparr>rr_reverse_dedup := (rr_reverse_dedup r)[?i := Some (snd (dedup_step d now c))]\<rparr>)"
      using t len by (simp add: accept_reverse_def get_at_def c_def case_prod_beta Let_def)
    have "length c \<le> REVERSE_DEDUP_CAPACITY"
      using assms len by (auto simp: c_def table_inv_def split: option.splits) (metis nth_mem)
    then have "length (snd (dedup_step d now c)) \<le> REVERSE_DEDUP_CAPACITY" by (rule dedup_step_len)
    then have "table_inv (snd (accept_reverse a d now r))"
      using assms set_update_subset_insert [of "rr_reverse_dedup r" ?i "Some (snd (dedup_step d now c))"]
      by (auto simp: acc table_inv_def)
    moreover have "cache_of a (snd (accept_reverse a d now r)) = snd (dedup_step d now c)"
      using len by (simp add: acc cache_of_def get_at_def)
    moreover have "resolve b (snd (accept_reverse a d now r)) = resolve b r"
      by (simp add: acc resolve_def route_entry_def)
    ultimately show ?thesis using t c acc by simp
  next
    case False
    then have "accept_reverse a d now r = (False, r)"
      by (auto simp: accept_reverse_def split: option.splits RouteAction.splits)
    with False assms show ?thesis by simp
  qed
  then show "resolve b (snd (accept_reverse a d now r)) = resolve b r" "table_inv (snd (accept_reverse a d now r))"
    "fst (accept_reverse a d now r) \<longleftrightarrow> (\<exists>t. resolve a r = Some (Reverse t)) \<and> fst (dedup_step d now (cache_of a r))"
    "cache_of a (snd (accept_reverse a d now r)) =
       (if \<exists>t. resolve a r = Some (Reverse t) then snd (dedup_step d now (cache_of a r)) else cache_of a r)"
    by simp_all
qed

definition accept_all :: "NodeRouteAddress \<Rightarrow> (ReverseDedup \<times> Instant) list \<Rightarrow> 't RouteRuntime \<Rightarrow> 't RouteRuntime" where
  "accept_all a ps r = fold (\<lambda>(d, now) r. snd (accept_reverse a d now r)) ps r"

lemma accept_all_keeps:
  assumes "table_inv r" and "within k x (cache_of a r)" and "\<forall>(d, now) \<in> set ps. now < de_expires_at x"
    and "k + length ps < REVERSE_DEDUP_CAPACITY"
  shows "table_inv (accept_all a ps r) \<and> within (k + length ps) x (cache_of a (accept_all a ps r))"
  using assms
proof (induction ps arbitrary: r k)
  case (Cons p ps)
  obtain d now where p: "p = (d, now)" by (cases p)
  let ?r = "snd (accept_reverse a d now r)"
  note s = accept_reverse_simps [OF Cons.prems(1), where a = a and d = d and now = now]
  have "now < de_expires_at x" "Suc k < REVERSE_DEDUP_CAPACITY" using Cons.prems(3,4) p by auto
  note kp = dedup_step_keeps(1) [OF Cons.prems(2) this, of d]
  have mono: "within j y ys \<Longrightarrow> j \<le> j' \<Longrightarrow> within j' y ys" for j j' y and ys :: "ReverseDedupEntry list"
    by (auto simp: within_def intro: order_trans)
  have "within (Suc k) x (cache_of a ?r)"
    unfolding s(4) using mono [OF kp, of "Suc k"] mono [OF Cons.prems(2), of "Suc k"] by auto
  from Cons.IH [OF s(2) this] Cons.prems(3,4) show ?case by (simp add: accept_all_def p)
qed (simp add: accept_all_def)

text \<open>
  C31. A reverse request is acted on once per window: after a request was accepted, the same request
  is refused until its window has passed, as long as fewer than 31 other requests came in between;
  the memory behind this never holds more than 32 requests per route.
\<close>

theorem reverse_once_per_window:
  assumes "table_inv r" and "accept_reverse a d now r = (True, r1)"
    and "\<forall>(d', t) \<in> set ps. t < now + int (rd_window d)" and "length ps < REVERSE_DEDUP_CAPACITY - 1"
    and "later < now + int (rd_window d)"
  shows "\<not> fst (accept_reverse a d later (accept_all a ps r1)) \<and> table_inv (accept_all a ps r1)"
proof -
  note s = accept_reverse_simps [OF assms(1), where a = a and d = d and now = now]
  have r1: "r1 = snd (accept_reverse a d now r)" and ok: "fst (dedup_step d now (cache_of a r))"
    and ex: "\<exists>t. resolve a r = Some (Reverse t)" using assms(2) s(3) by auto
  let ?x = "\<lparr>de_key = rd_key d, de_expires_at = now + int (rd_window d)\<rparr>"
  have "within 0 ?x (snd (dedup_step d now (cache_of a r)))"
    using ok by (auto simp: dedup_step_def Let_def within_def split: if_splits)
  then have "within 0 ?x (cache_of a r1)" unfolding r1 s(4) using ex by simp
  moreover have "table_inv r1" unfolding r1 by (rule s(2))
  ultimately have k: "table_inv (accept_all a ps r1) \<and> within (length ps) ?x (cache_of a (accept_all a ps r1))"
    using accept_all_keeps [of r1 0 ?x a ps] assms(3,4) by auto
  then have "\<not> fst (dedup_step d later (cache_of a (accept_all a ps r1)))"
    using dedup_step_keeps(2) [of "length ps" ?x _ later d] assms(4,5) by auto
  then show ?thesis using k accept_reverse_simps(3) by blast
qed

theorem reverse_once_per_window_witness:
  "\<exists>r1. accept_reverse \<lparr>nr_route = RouteId (PackedRoute 0), nr_epoch = 1\<rparr> \<lparr>rd_key = [7], rd_window = 100\<rparr> 5
      (install_action \<lparr>nr_route = RouteId (PackedRoute 0), nr_epoch = 1\<rparr> (Reverse ()) runtime_new) = (True, r1) \<and>
     \<not> fst (accept_reverse \<lparr>nr_route = RouteId (PackedRoute 0), nr_epoch = 1\<rparr> \<lparr>rd_key = [7], rd_window = 100\<rparr> 90
       (accept_all \<lparr>nr_route = RouteId (PackedRoute 0), nr_epoch = 1\<rparr> [(\<lparr>rd_key = [8], rd_window = 3\<rparr>, 6)] r1))"
proof -
  let ?a = "\<lparr>nr_route = RouteId (PackedRoute 0), nr_epoch = 1\<rparr>" and ?d = "\<lparr>rd_key = [7], rd_window = 100\<rparr>"
  let ?r = "install_action ?a (Reverse ()) runtime_new"
  let ?r1 = "snd (accept_reverse ?a ?d 5 ?r)"
  have "table_inv (runtime_new :: unit RouteRuntime)" by (simp add: table_inv_def runtime_new_def)
  then have i: "table_inv ?r" by (rule install_action_inv)
  have "fst (accept_reverse ?a ?d 5 ?r)" by code_simp
  then have e: "accept_reverse ?a ?d 5 ?r = (True, ?r1)" by (cases "accept_reverse ?a ?d 5 ?r") simp
  have "\<not> fst (accept_reverse ?a ?d 90 (accept_all ?a [(\<lparr>rd_key = [8], rd_window = 3\<rparr>, 6)] ?r1))"
    using reverse_once_per_window [OF i e, of "[(\<lparr>rd_key = [8], rd_window = 3\<rparr>, 6)]" 90]
    by (simp add: REVERSE_DEDUP_CAPACITY_def)
  with e show ?thesis by (intro exI conjI)
qed

end
