(* ===== verification/Threaded.thy ===== *)
theory Threaded
  imports Main
begin

text \<open>
  Lists threaded through the entries of a map by optional keys, as the demultiplexer's and the timer
  wheel's are: when a map of links represents a list, and what unlinking an element and linking one at
  the front do to the list represented.
\<close>

definition heado :: "'a list \<Rightarrow> 'a option" where
  "heado xs = (case xs of [] \<Rightarrow> None | x # _ \<Rightarrow> Some x)"

definition lasto :: "'a list \<Rightarrow> 'a option" where
  "lasto xs = (if xs = [] then None else Some (last xs))"

lemma heado_simps [simp]: "heado [] = None" "heado (x # xs) = Some x"
  by (simp_all add: heado_def)

lemma lasto_simps [simp]: "lasto [] = None" "lasto [x] = Some x"
  by (simp_all add: lasto_def)

lemma heado_append: "heado (xs @ ys) = (if xs = [] then heado ys else heado xs)"
  by (cases xs) simp_all

lemma lasto_append: "lasto (xs @ ys) = (if ys = [] then lasto xs else lasto ys)"
  by (simp add: lasto_def)

lemma heado_in: "heado xs = Some x \<Longrightarrow> x \<in> set xs"
  by (cases xs) simp_all

lemma lasto_in: "lasto xs = Some x \<Longrightarrow> x \<in> set xs"
  by (auto simp: lasto_def split: if_splits)

lemma heado_lasto_None [simp]: "heado xs = None \<longleftrightarrow> xs = []" "lasto xs = None \<longleftrightarrow> xs = []"
  by (auto simp: heado_def lasto_def split: list.split)

text \<open>
  A list \<open>xs\<close> is threaded through a map of links when the links of each element are its neighbours.
\<close>

definition links :: "('a \<Rightarrow> ('a option \<times> 'a option) option) \<Rightarrow> 'a list \<Rightarrow> bool" where
  "links k xs \<longleftrightarrow> distinct xs \<and> (\<forall>ys x zs. xs = ys @ x # zs \<longrightarrow> k x = Some (lasto ys, heado zs))"

lemma links_at: "links k (ys @ x # zs) \<Longrightarrow> k x = Some (lasto ys, heado zs)"
  unfolding links_def by blast

lemma links_distinct: "links k xs \<Longrightarrow> distinct xs"
  by (simp add: links_def)

lemma links_dom: "links k xs \<Longrightarrow> x \<in> set xs \<Longrightarrow> k x \<noteq> None"
  by (drule split_list) (auto dest: links_at)

lemma links_Nil [simp]: "links k []"
  by (simp add: links_def)

lemma links_frame: "links k xs \<Longrightarrow> (\<And>x. x \<in> set xs \<Longrightarrow> k' x = k x) \<Longrightarrow> links k' xs"
  unfolding links_def by auto

text \<open>The neighbours of an element of a threaded list are on the list, and not the element itself.\<close>

lemma links_neighbours:
  assumes "links k xs" and "k x = Some (p, n)" and "x \<in> set xs"
  shows "\<forall>y\<in>set_option p \<union> set_option n. y \<in> set xs \<and> y \<noteq> x"
proof -
  obtain ys zs where s: "xs = ys @ x # zs" using assms(3) by (meson split_list)
  with assms have "p = lasto ys" "n = heado zs" "distinct (ys @ x # zs)" using links_at links_distinct by fastforce+
  then show ?thesis using s by (auto dest!: lasto_in heado_in)
qed

definition unlinked :: "'a \<Rightarrow> 'a option \<Rightarrow> 'a option \<Rightarrow> ('a \<Rightarrow> ('a option \<times> 'a option) option)
    \<Rightarrow> 'a \<Rightarrow> ('a option \<times> 'a option) option" where
  "unlinked x p n k y =
     (if y = x then Some (None, None)
      else map_option (\<lambda>(a, b). (if n = Some y then p else a, if p = Some y then n else b)) (k y))"

definition linked :: "'a \<Rightarrow> 'a option \<Rightarrow> ('a \<Rightarrow> ('a option \<times> 'a option) option)
    \<Rightarrow> 'a \<Rightarrow> ('a option \<times> 'a option) option" where
  "linked x h k y =
     (if y = x then Some (None, h) else map_option (\<lambda>(a, b). (if h = Some y then Some x else a, b)) (k y))"

lemma append_split_at:
  assumes "as @ bs = ys @ y # zs"
  shows "(\<exists>cs. as = ys @ y # cs \<and> zs = cs @ bs) \<or> (\<exists>cs. bs = cs @ y # zs \<and> ys = as @ cs)"
proof -
  obtain us where "as = ys @ us \<and> us @ bs = y # zs \<or> as @ us = ys \<and> bs = us @ y # zs"
    using assms by (auto simp: append_eq_append_conv2)
  then show ?thesis by (cases us) auto
qed

lemma links_unlinked:
  assumes "links k (as @ x # bs)"
  shows "links (unlinked x (lasto as) (heado bs) k) (as @ bs)"
  unfolding links_def
proof (intro conjI allI impI)
  have d: "distinct (as @ x # bs)" using assms links_distinct by blast
  then show "distinct (as @ bs)" by simp
  fix ys y zs
  assume e: "as @ bs = ys @ y # zs"
  then have "y \<in> set (as @ bs)" by simp
  then have yx: "y \<noteq> x" using d by auto
  from e consider (l) cs where "as = ys @ y # cs" "zs = cs @ bs" | (r) cs where "bs = cs @ y # zs" "ys = as @ cs"
    using append_split_at by metis
  then show "unlinked x (lasto as) (heado bs) k y = Some (lasto ys, heado zs)"
  proof cases
    case l
    have ky: "k y = Some (lasto ys, heado (cs @ x # bs))"
      using assms links_at [of k ys y "cs @ x # bs"] l by simp
    have "heado bs \<noteq> Some y" using d l by (auto dest: heado_in)
    moreover have "lasto as = Some y \<longleftrightarrow> cs = []" using d l by (auto simp: lasto_def split: if_splits)
    ultimately show ?thesis using ky yx l(2) by (auto simp: unlinked_def heado_append)
  next
    case r
    have ky: "k y = Some (lasto (as @ x # cs), heado zs)"
      using assms links_at [of k "as @ x # cs" y zs] r by simp
    have "lasto as \<noteq> Some y" using d r by (auto dest: lasto_in)
    moreover have "heado bs = Some y \<longleftrightarrow> cs = []" using d r by (cases cs) auto
    ultimately show ?thesis using ky yx r by (auto simp: unlinked_def lasto_append lasto_def)
  qed
qed

lemma links_linked:
  assumes "links k xs" and "x \<notin> set xs"
  shows "links (linked x (heado xs) k) (x # xs)"
  unfolding links_def
proof (intro conjI allI impI)
  show "distinct (x # xs)" using assms links_distinct by auto
  fix ys y zs
  assume e: "x # xs = ys @ y # zs"
  show "linked x (heado xs) k y = Some (lasto ys, heado zs)"
  proof (cases ys)
    case Nil
    then show ?thesis using e by (simp add: linked_def)
  next
    case (Cons z cs)
    then have xs: "xs = cs @ y # zs" "z = x" using e by simp_all
    then have "k y = Some (lasto cs, heado zs)" using assms(1) links_at [of k cs y zs] by simp
    moreover have "heado xs = Some y \<longleftrightarrow> cs = []" using xs links_distinct [OF assms(1)] by (cases cs) auto
    ultimately show ?thesis using xs assms(2) Cons by (auto simp: linked_def lasto_def)
  qed
qed

lemma links_unlinked_other:
  assumes "links k xs" and "x \<notin> set xs" and "set_option p \<inter> set xs = {}" and "set_option n \<inter> set xs = {}"
  shows "links (unlinked x p n k) xs"
proof (rule links_frame [OF assms(1)])
  fix y assume "y \<in> set xs"
  then show "unlinked x p n k y = k y"
    using assms(2-) by (cases "k y") (auto simp: unlinked_def)
qed

lemma links_linked_other:
  assumes "links k xs" and "x \<notin> set xs" and "set_option h \<inter> set xs = {}"
  shows "links (linked x h k) xs"
proof (rule links_frame [OF assms(1)])
  fix y assume "y \<in> set xs"
  then show "linked x h k y = k y"
    using assms(2-) by (cases "k y") (auto simp: linked_def)
qed

end
