(* ===== verification/Demux.thy ===== *)
theory Demux
  imports Collections Threaded Steer Route "HOL-Library.Code_Target_Nat"
begin

text \<open>
  The demultiplexer of a shard, \<open>crates/pulsebeam/src/shard/demux.rs\<close>: the cache from source
  addresses to transport routes.  Every cached address is a node of two doubly linked lists at once,
  one global and one of its route, kept in order of use and threaded through the cache entries by
  address.  Addresses are a type variable.  The counters for tests and simulation and the metrics are
  not modelled, nor are the debug assertions.  The specification is a pair of plain lists; every
  operation is shown to refine an operation on it.
\<close>

subsection \<open>Data\<close>

definition MAX_ADDRS_PER_ROUTE :: nat where "MAX_ADDRS_PER_ROUTE = 16"
definition MAX_ADDR_ENTRIES :: nat where "MAX_ADDR_ENTRIES = MAX_ADDRS_PER_ROUTE * 4096"

record 'a LruList =
  lru_head :: "'a option"
  lru_tail :: "'a option"
  lru_len :: nat

definition lru_default :: "'a LruList" where
  "lru_default = \<lparr>lru_head = None, lru_tail = None, lru_len = 0\<rparr>"

record 'a CachedRoute =
  cr_address :: NodeTransportAddress
  cr_authenticated :: bool
  global_prev :: "'a option"
  global_next :: "'a option"
  route_prev :: "'a option"
  route_next :: "'a option"

record 'a RouteLists =
  rls_unauthenticated :: "'a LruList"
  rls_authenticated :: "'a LruList"

definition lists_default :: "'a RouteLists" where
  "lists_default = \<lparr>rls_unauthenticated = lru_default, rls_authenticated = lru_default\<rparr>"

record 'a Demuxer =
  addr_map :: "('a, 'a CachedRoute) hmap"
  route_addrs :: "(ClientRoute, 'a RouteLists) hmap"
  dm_unauthenticated :: "'a LruList"
  dm_authenticated :: "'a LruList"
  dm_cluster_id :: u16
  dm_node_id :: u16
  dm_shard_count :: u16

definition for_node :: "u16 \<Rightarrow> u16 \<Rightarrow> u16 \<Rightarrow> 'a Demuxer" where
  "for_node cluster_id node_id shard_count =
     \<lparr>addr_map = [], route_addrs = [], dm_unauthenticated = lru_default, dm_authenticated = lru_default,
      dm_cluster_id = cluster_id, dm_node_id = node_id, dm_shard_count = shard_count\<rparr>"

text \<open>\<open>u16::try_from\<close> fails above the range of a 16-bit word, and then the maximum is taken.\<close>

definition demuxer_new :: "'a Demuxer" where
  "demuxer_new = for_node 0 0 (if unat MAX_SHARDS < 2 ^ 16 then ucast MAX_SHARDS else - 1)"

text \<open>An update through \<open>get_mut\<close>: an entry is changed in place when there is one.\<close>

definition hm_modify :: "'k \<Rightarrow> ('v \<Rightarrow> 'v) \<Rightarrow> ('k, 'v) hmap \<Rightarrow> ('k, 'v) hmap" where
  "hm_modify k f m = (case hm_get m k of Some v \<Rightarrow> hm_insert k (f v) m | None \<Rightarrow> m)"

fun hm_modify_opt :: "'k option \<Rightarrow> ('v \<Rightarrow> 'v) \<Rightarrow> ('k, 'v) hmap \<Rightarrow> ('k, 'v) hmap" where
  "hm_modify_opt None f m = m"
| "hm_modify_opt (Some k) f m = hm_modify k f m"

subsection \<open>The lists\<close>

definition list_get :: "bool \<Rightarrow> 'a Demuxer \<Rightarrow> 'a LruList" where
  "list_get authenticated d = (if authenticated then dm_authenticated d else dm_unauthenticated d)"

definition list_mut :: "bool \<Rightarrow> ('a LruList \<Rightarrow> 'a LruList) \<Rightarrow> 'a Demuxer \<Rightarrow> 'a Demuxer" where
  "list_mut authenticated f d =
     (if authenticated then dm_authenticated_update f d else dm_unauthenticated_update f d)"

definition lists_get :: "bool \<Rightarrow> 'a RouteLists \<Rightarrow> 'a LruList" where
  "lists_get authenticated ls = (if authenticated then rls_authenticated ls else rls_unauthenticated ls)"

definition route_entry_default :: "ClientRoute \<Rightarrow> 'a Demuxer \<Rightarrow> 'a RouteLists" where
  "route_entry_default route d = (case hm_get (route_addrs d) route of Some ls \<Rightarrow> ls | None \<Rightarrow> lists_default)"

text \<open>\<open>entry(route).or_default()\<close> creates the lists of the route when they are missing.\<close>

definition route_list_mut :: "ClientRoute \<Rightarrow> bool \<Rightarrow> ('a LruList \<Rightarrow> 'a LruList) \<Rightarrow> 'a Demuxer \<Rightarrow> 'a Demuxer" where
  "route_list_mut route authenticated f d =
     (let ls = route_entry_default route d;
          ls = (if authenticated then rls_authenticated_update f ls else rls_unauthenticated_update f ls)
      in d\<lparr>route_addrs := hm_insert route ls (route_addrs d)\<rparr>)"

definition lru_detach :: "'a \<Rightarrow> 'a option \<Rightarrow> 'a option \<Rightarrow> 'a LruList \<Rightarrow> 'a LruList" where
  "lru_detach addr prev next l =
     (let l = (if lru_head l = Some addr then l\<lparr>lru_head := next\<rparr> else l);
          l = (if lru_tail l = Some addr then l\<lparr>lru_tail := prev\<rparr> else l)
      in l\<lparr>lru_len := lru_len l - 1\<rparr>)"

definition lru_attach :: "'a \<Rightarrow> 'a LruList \<Rightarrow> 'a LruList" where
  "lru_attach addr l =
     (let l = l\<lparr>lru_head := Some addr\<rparr>;
          l = (if lru_tail l = None then l\<lparr>lru_tail := Some addr\<rparr> else l)
      in l\<lparr>lru_len := lru_len l + 1\<rparr>)"

definition unlink_global :: "'a \<Rightarrow> 'a Demuxer \<Rightarrow> 'a Demuxer" where
  "unlink_global addr d = (case hm_get (addr_map d) addr of
     None \<Rightarrow> d
   | Some entry \<Rightarrow>
       let d = list_mut (cr_authenticated entry) (lru_detach addr (global_prev entry) (global_next entry)) d;
           m = hm_modify_opt (global_prev entry) (global_next_update (\<lambda>_. global_next entry)) (addr_map d);
           m = hm_modify_opt (global_next entry) (global_prev_update (\<lambda>_. global_prev entry)) m;
           m = hm_modify addr (\<lambda>e. e\<lparr>global_prev := None, global_next := None\<rparr>) m
       in d\<lparr>addr_map := m\<rparr>)"

definition link_global_front :: "'a \<Rightarrow> bool \<Rightarrow> 'a Demuxer \<Rightarrow> 'a Demuxer" where
  "link_global_front addr authenticated d =
     (let head = lru_head (list_get authenticated d) in
      case hm_get (addr_map d) addr of
        None \<Rightarrow> d
      | Some _ \<Rightarrow>
          let m = hm_modify addr (\<lambda>e. e\<lparr>global_prev := None, global_next := head\<rparr>) (addr_map d);
              m = hm_modify_opt head (global_prev_update (\<lambda>_. Some addr)) m
          in list_mut authenticated (lru_attach addr) (d\<lparr>addr_map := m\<rparr>))"

definition unlink_route :: "'a \<Rightarrow> ClientRoute \<Rightarrow> 'a Demuxer \<Rightarrow> 'a Demuxer" where
  "unlink_route addr route d = (case hm_get (addr_map d) addr of
     None \<Rightarrow> d
   | Some entry \<Rightarrow>
       let d = route_list_mut route (cr_authenticated entry)
                 (lru_detach addr (route_prev entry) (route_next entry)) d;
           m = hm_modify_opt (route_prev entry) (route_next_update (\<lambda>_. route_next entry)) (addr_map d);
           m = hm_modify_opt (route_next entry) (route_prev_update (\<lambda>_. route_prev entry)) m;
           m = hm_modify addr (\<lambda>e. e\<lparr>route_prev := None, route_next := None\<rparr>) m;
           d = d\<lparr>addr_map := m\<rparr>
       in case hm_get (route_addrs d) route of
            None \<Rightarrow> d
          | Some ls \<Rightarrow>
              if lru_len (rls_unauthenticated ls) = 0 \<and> lru_len (rls_authenticated ls) = 0
              then d\<lparr>route_addrs := hm_remove route (route_addrs d)\<rparr> else d)"

text \<open>Reading the head through \<open>route_list_mut\<close> already creates the lists of the route.\<close>

definition link_route_front :: "'a \<Rightarrow> ClientRoute \<Rightarrow> bool \<Rightarrow> 'a Demuxer \<Rightarrow> 'a Demuxer" where
  "link_route_front addr route authenticated d =
     (let d = route_list_mut route authenticated (\<lambda>l. l) d;
          head = lru_head (lists_get authenticated (route_entry_default route d)) in
      case hm_get (addr_map d) addr of
        None \<Rightarrow> d
      | Some _ \<Rightarrow>
          let m = hm_modify addr (\<lambda>e. e\<lparr>route_prev := None, route_next := head\<rparr>) (addr_map d);
              m = hm_modify_opt head (route_prev_update (\<lambda>_. Some addr)) m
          in route_list_mut route authenticated (lru_attach addr) (d\<lparr>addr_map := m\<rparr>))"

subsection \<open>The operations\<close>

definition touch :: "'a \<Rightarrow> 'a Demuxer \<Rightarrow> 'a Demuxer" where
  "touch addr d = (case hm_get (addr_map d) addr of
     None \<Rightarrow> d
   | Some entry \<Rightarrow>
       let route = nt_route (cr_address entry);
           d = unlink_global addr d;
           d = unlink_route addr route d;
           d = link_global_front addr (cr_authenticated entry) d
       in link_route_front addr route (cr_authenticated entry) d)"

definition remove_entry :: "'a \<Rightarrow> 'a Demuxer \<Rightarrow> 'a CachedRoute option \<times> 'a Demuxer" where
  "remove_entry addr d = (case hm_get (addr_map d) addr of
     None \<Rightarrow> (None, d)
   | Some entry \<Rightarrow>
       let d = unlink_global addr d;
           d = unlink_route addr (nt_route (cr_address entry)) d
       in (hm_get (addr_map d) addr, d\<lparr>addr_map := hm_remove addr (addr_map d)\<rparr>))"

definition or_else :: "'b option \<Rightarrow> 'b option \<Rightarrow> 'b option" where
  "or_else x y = (case x of Some v \<Rightarrow> Some v | None \<Rightarrow> y)"

definition evict_global :: "'a Demuxer \<Rightarrow> 'a Demuxer" where
  "evict_global d = (case or_else (lru_tail (dm_unauthenticated d)) (lru_tail (dm_authenticated d)) of
     None \<Rightarrow> d
   | Some victim \<Rightarrow> snd (remove_entry victim d))"

definition evict_route :: "ClientRoute \<Rightarrow> 'a Demuxer \<Rightarrow> 'a Demuxer" where
  "evict_route route d =
     (case Option.bind (hm_get (route_addrs d) route)
             (\<lambda>ls. or_else (lru_tail (rls_unauthenticated ls)) (lru_tail (rls_authenticated ls))) of
        None \<Rightarrow> d
      | Some victim \<Rightarrow> snd (remove_entry victim d))"

text \<open>
  \<open>freed\<close> is an \<open>ArrayVec\<close> of capacity \<open>MAX_ADDRS_PER_ROUTE\<close>: one push too many panics, which is the
  result \<open>None\<close> and also what bounds the loop.
\<close>

function unregister_loop :: "ClientRoute \<Rightarrow> 'a list \<Rightarrow> 'a Demuxer \<Rightarrow> ('a list \<times> 'a Demuxer) option" where
  "unregister_loop route freed d =
     (case Option.bind (hm_get (route_addrs d) route)
             (\<lambda>ls. or_else (lru_head (rls_unauthenticated ls)) (lru_head (rls_authenticated ls))) of
        None \<Rightarrow> Some (freed, d)
      | Some addr \<Rightarrow>
          let d = snd (remove_entry addr d) in
          if length freed < MAX_ADDRS_PER_ROUTE then unregister_loop route (freed @ [addr]) d else None)"
  by pat_completeness auto

termination
  by (relation "measure (\<lambda>(route, freed, d). MAX_ADDRS_PER_ROUTE - length freed)") auto

definition unregister :: "ClientRoute \<Rightarrow> 'a Demuxer \<Rightarrow> ('a list \<times> 'a Demuxer) option" where
  "unregister route d = unregister_loop route [] d"

definition cached :: "'a \<Rightarrow> 'a Demuxer \<Rightarrow> NodeTransportAddress option \<times> 'a Demuxer" where
  "cached src d = (case hm_get (addr_map d) src of
     None \<Rightarrow> (None, d)
   | Some entry \<Rightarrow> (Some (cr_address entry), touch src d))"

definition forget :: "'a \<Rightarrow> 'a Demuxer \<Rightarrow> 'a Demuxer" where
  "forget src d = snd (remove_entry src d)"

definition route_len :: "ClientRoute \<Rightarrow> 'a Demuxer \<Rightarrow> nat" where
  "route_len route d = (case hm_get (route_addrs d) route of
     None \<Rightarrow> 0
   | Some ls \<Rightarrow> lru_len (rls_unauthenticated ls) + lru_len (rls_authenticated ls))"

definition admit :: "'a \<Rightarrow> NodeTransportAddress \<Rightarrow> bool \<Rightarrow> 'a Demuxer \<Rightarrow> 'a Demuxer" where
  "admit src address authenticated d =
     (let d = (if length (addr_map d) \<ge> MAX_ADDR_ENTRIES then evict_global d else d);
          d = (if route_len (nt_route address) d \<ge> MAX_ADDRS_PER_ROUTE
               then evict_route (nt_route address) d else d)
      in if route_len (nt_route address) d \<ge> MAX_ADDRS_PER_ROUTE then d
         else
           let d = d\<lparr>addr_map := hm_insert src
                 \<lparr>cr_address = address, cr_authenticated = authenticated, global_prev = None,
                  global_next = None, route_prev = None, route_next = None\<rparr> (addr_map d)\<rparr>;
               d = link_global_front src authenticated d
           in link_route_front src (nt_route address) authenticated d)"

definition learn :: "'a \<Rightarrow> NodeTransportAddress \<Rightarrow> 'a Demuxer \<Rightarrow> 'a Demuxer" where
  "learn src address d = (case hm_get (addr_map d) src of
     Some entry \<Rightarrow>
       if nt_route (cr_address entry) = nt_route address
       then
         let authenticated = (cr_authenticated entry \<and> nt_epoch (cr_address entry) = nt_epoch address);
             d = unlink_global src d;
             d = unlink_route src (nt_route address) d;
             d = d\<lparr>addr_map := hm_modify src
                   (\<lambda>e. e\<lparr>cr_address := address, cr_authenticated := authenticated\<rparr>) (addr_map d)\<rparr>;
             d = link_global_front src authenticated d
         in link_route_front src (nt_route address) authenticated d
       else admit src address False (forget src d)
   | None \<Rightarrow> admit src address False d)"

definition authenticate :: "'a \<Rightarrow> NodeTransportAddress \<Rightarrow> 'a Demuxer \<Rightarrow> 'a Demuxer" where
  "authenticate src address d = (case hm_get (addr_map d) src of
     Some entry \<Rightarrow>
       if cr_address entry = address
       then
         if \<not> cr_authenticated entry
         then
           let d = unlink_global src d;
               d = unlink_route src (nt_route address) d;
               d = d\<lparr>addr_map := hm_modify src (\<lambda>e. e\<lparr>cr_authenticated := True\<rparr>) (addr_map d)\<rparr>;
               d = link_global_front src True d
           in link_route_front src (nt_route address) True d
         else touch src d
       else d
   | None \<Rightarrow> d)"

text \<open>
  A received batch is its source and its bytes.  \<open>TransportRoute::new\<close> panics on a shard or slot out
  of range, which is the result \<open>None\<close>.
\<close>

definition demux :: "'a \<Rightarrow> u8 list \<Rightarrow> 'a Demuxer \<Rightarrow> (NodeTransportAddress option \<times> 'a Demuxer) option" where
  "demux src data d =
     (if \<not> is_stun data then Some (cached src d)
      else case classify_bootstrap data
             \<lparr>ns_cluster_id = dm_cluster_id d, ns_node_id = dm_node_id d, ns_shard_count = dm_shard_count d\<rparr> of
        Route shard slot epoch \<Rightarrow>
          (case packed_new (unat shard) slot of
             None \<Rightarrow> None
           | Some p \<Rightarrow>
               let address = \<lparr>nt_route = ClientRoute p, nt_epoch = epoch\<rparr> in
               if map_option cr_address (hm_get (addr_map d) src) = Some address
               then Some (Some address, touch src d)
               else Some (Some address, admit src address False (forget src d)))
      | NotStun \<Rightarrow> Some (cached src d)
      | Reject _ \<Rightarrow> Some (cached src d))"

subsection \<open>List headers\<close>

text \<open>The header of a list.\<close>

definition lru_of :: "'a list \<Rightarrow> 'a LruList" where
  "lru_of xs = \<lparr>lru_head = heado xs, lru_tail = lasto xs, lru_len = length xs\<rparr>"

lemma lru_default_of: "lru_default = lru_of []"
  by (simp add: lru_default_def lru_of_def)

lemma lru_detach_of:
  assumes "distinct (as @ x # bs)"
  shows "lru_detach x (lasto as) (heado bs) (lru_of (as @ x # bs)) = lru_of (as @ bs)"
proof -
  have "heado (as @ x # bs) = Some x \<longleftrightarrow> as = []" using assms by (cases as) auto
  moreover have "lasto (as @ x # bs) = Some x \<longleftrightarrow> bs = []" using assms by (auto simp: lasto_def)
  ultimately show ?thesis
    by (auto simp: lru_detach_def lru_of_def heado_append lasto_append Let_def) (simp_all add: lasto_def)
qed

lemma lru_attach_of: "lru_attach x (lru_of xs) = lru_of (x # xs)"
  by (auto simp: lru_attach_def lru_of_def lasto_def)

subsection \<open>Lists threaded through cache entries\<close>

lemma hm_get_modify: "hm_get (hm_modify k f m) j = (if j = k then map_option f (hm_get m k) else hm_get m j)"
  by (simp add: hm_modify_def hm_get_insert split: option.split)

lemma hm_ok_modify [simp]: "hm_ok m \<Longrightarrow> hm_ok (hm_modify k f m)"
  by (simp add: hm_modify_def hm_ok_insert split: option.split)

lemma hm_get_modify_opt:
  "hm_get (hm_modify_opt ko f m) j = (if ko = Some j then map_option f (hm_get m j) else hm_get m j)"
  by (cases ko) (auto simp: hm_get_modify)

lemma hm_ok_modify_opt [simp]: "hm_ok m \<Longrightarrow> hm_ok (hm_modify_opt ko f m)"
  by (cases ko) simp_all

definition view :: "('e \<Rightarrow> 'b) \<Rightarrow> ('a, 'e) hmap \<Rightarrow> 'a \<Rightarrow> 'b option" where
  "view g m a = map_option g (hm_get m a)"

text \<open>
  One pair of link fields of an entry, with \<open>keep\<close> the rest of the entry: what unlinking and linking do
  to the map is said once for both pairs.
\<close>

locale threaded =
  fixes prev :: "'e \<Rightarrow> 'a option" and succ :: "'e \<Rightarrow> 'a option"
    and set_prev :: "('a option \<Rightarrow> 'a option) \<Rightarrow> 'e \<Rightarrow> 'e"
    and set_succ :: "('a option \<Rightarrow> 'a option) \<Rightarrow> 'e \<Rightarrow> 'e"
    and keep :: "'e \<Rightarrow> 'k"
  assumes prev_set_prev: "prev (set_prev f e) = f (prev e)"
    and succ_set_prev: "succ (set_prev f e) = succ e"
    and prev_set_succ: "prev (set_succ f e) = prev e"
    and succ_set_succ: "succ (set_succ f e) = f (succ e)"
    and keep_set_prev: "keep (set_prev f e) = keep e"
    and keep_set_succ: "keep (set_succ f e) = keep e"
begin

lemmas field_laws = prev_set_prev succ_set_prev prev_set_succ succ_set_succ keep_set_prev keep_set_succ

lemma view_unlink:
  assumes "hm_get m x = Some e" and "prev e \<noteq> Some x" and "succ e \<noteq> Some x"
  shows "view (\<lambda>e. (prev e, succ e))
      (hm_modify x (\<lambda>e. set_succ (\<lambda>_. None) (set_prev (\<lambda>_. None) e))
        (hm_modify_opt (succ e) (set_prev (\<lambda>_. prev e))
          (hm_modify_opt (prev e) (set_succ (\<lambda>_. succ e)) m)))
    = unlinked x (prev e) (succ e) (view (\<lambda>e. (prev e, succ e)) m)"
proof
  fix a
  show "view (\<lambda>e. (prev e, succ e))
      (hm_modify x (\<lambda>e. set_succ (\<lambda>_. None) (set_prev (\<lambda>_. None) e))
        (hm_modify_opt (succ e) (set_prev (\<lambda>_. prev e))
          (hm_modify_opt (prev e) (set_succ (\<lambda>_. succ e)) m))) a
    = unlinked x (prev e) (succ e) (view (\<lambda>e. (prev e, succ e)) m) a"
    using assms by (cases "hm_get m a")
      (auto simp: view_def unlinked_def hm_get_modify hm_get_modify_opt field_laws)
qed

lemma keep_unlink:
  "view keep (hm_modify x (\<lambda>e. set_succ (\<lambda>_. None) (set_prev (\<lambda>_. None) e))
        (hm_modify_opt n (set_prev (\<lambda>_. p)) (hm_modify_opt p (set_succ (\<lambda>_. n)) m))) = view keep m"
  by (rule ext) (simp add: view_def hm_get_modify hm_get_modify_opt option.map_comp o_def field_laws)

lemma view_link:
  assumes "hm_get m x = Some e" and "h \<noteq> Some x"
  shows "view (\<lambda>e. (prev e, succ e))
      (hm_modify_opt h (set_prev (\<lambda>_. Some x))
        (hm_modify x (\<lambda>e. set_succ (\<lambda>_. h) (set_prev (\<lambda>_. None) e)) m))
    = linked x h (view (\<lambda>e. (prev e, succ e)) m)"
proof
  fix a
  show "view (\<lambda>e. (prev e, succ e))
      (hm_modify_opt h (set_prev (\<lambda>_. Some x))
        (hm_modify x (\<lambda>e. set_succ (\<lambda>_. h) (set_prev (\<lambda>_. None) e)) m)) a
    = linked x h (view (\<lambda>e. (prev e, succ e)) m) a"
    using assms by (cases "hm_get m a")
      (auto simp: view_def linked_def hm_get_modify hm_get_modify_opt field_laws)
qed

lemma keep_link:
  "view keep (hm_modify_opt h (set_prev (\<lambda>_. Some x))
      (hm_modify x (\<lambda>e. set_succ (\<lambda>_. h) (set_prev (\<lambda>_. None) e)) m)) = view keep m"
  by (rule ext) (simp add: view_def hm_get_modify hm_get_modify_opt option.map_comp o_def field_laws)

end

interpretation gl: threaded global_prev global_next global_prev_update global_next_update
    "\<lambda>e. ((cr_address e, cr_authenticated e), (route_prev e, route_next e))"
  by unfold_locales simp_all

interpretation rl: threaded route_prev route_next route_prev_update route_next_update
    "\<lambda>e. ((cr_address e, cr_authenticated e), (global_prev e, global_next e))"
  by unfold_locales simp_all

lemma view_pair:
  assumes "view (\<lambda>e. (f e, g e)) m = view (\<lambda>e. (f e, g e)) m'"
  shows "view f m = view f m'" and "view g m = view g m'"
proof -
  have v: "view f m = (\<lambda>a. map_option fst (view (\<lambda>e. (f e, g e)) m a))"
    "view g m = (\<lambda>a. map_option snd (view (\<lambda>e. (f e, g e)) m a))" for m
    by (simp_all add: view_def fun_eq_iff option.map_comp o_def)
  show "view f m = view f m'" unfolding v(1) [of m] v(1) [of m'] assms ..
  show "view g m = view g m'" unfolding v(2) [of m] v(2) [of m'] assms ..
qed

subsection \<open>The representation\<close>

type_synonym 'a entries = "'a \<Rightarrow> (NodeTransportAddress \<times> bool) option"

definition scope_of :: "'a Demuxer \<Rightarrow> NodeScope" where
  "scope_of d = \<lparr>ns_cluster_id = dm_cluster_id d, ns_node_id = dm_node_id d, ns_shard_count = dm_shard_count d\<rparr>"

definition holds :: "'a Demuxer \<Rightarrow> NodeScope \<Rightarrow> 'a entries \<Rightarrow> bool" where
  "holds d sc E \<longleftrightarrow> scope_of d = sc \<and> hm_ok (addr_map d) \<and> hm_ok (route_addrs d) \<and>
     view (\<lambda>e. (cr_address e, cr_authenticated e)) (addr_map d) = E"

definition globals :: "'a Demuxer \<Rightarrow> (bool \<Rightarrow> 'a list) \<Rightarrow> bool" where
  "globals d G \<longleftrightarrow> set (G True) \<inter> set (G False) = {} \<and>
     (\<forall>b. links (view (\<lambda>e. (global_prev e, global_next e)) (addr_map d)) (G b) \<and> list_get b d = lru_of (G b))"

definition lists_of :: "(bool \<Rightarrow> 'a list) \<Rightarrow> 'a RouteLists option" where
  "lists_of L = (if L True = [] \<and> L False = [] then None
     else Some \<lparr>rls_unauthenticated = lru_of (L False), rls_authenticated = lru_of (L True)\<rparr>)"

definition route_lists :: "'a Demuxer \<Rightarrow> (ClientRoute \<Rightarrow> bool \<Rightarrow> 'a list) \<Rightarrow> bool" where
  "route_lists d R \<longleftrightarrow> (\<forall>r b r' b'. (r, b) \<noteq> (r', b') \<longrightarrow> set (R r b) \<inter> set (R r' b') = {}) \<and>
     (\<forall>r b. links (view (\<lambda>e. (route_prev e, route_next e)) (addr_map d)) (R r b)) \<and>
     (\<forall>r. hm_get (route_addrs d) r = lists_of (R r))"

lemma list_get_mut: "list_get b (list_mut b' f d) = (if b = b' then f (list_get b d) else list_get b d)"
  by (auto simp: list_get_def list_mut_def)

lemma list_mut_keeps [simp]: "addr_map (list_mut b f d) = addr_map d" "route_addrs (list_mut b f d) = route_addrs d"
  "scope_of (list_mut b f d) = scope_of d"
  by (simp_all add: list_mut_def scope_of_def)

lemma list_get_keeps [simp]: "list_get b (d\<lparr>addr_map := m\<rparr>) = list_get b d" "list_get b (d\<lparr>route_addrs := s\<rparr>) = list_get b d"
  "scope_of (d\<lparr>addr_map := m\<rparr>) = scope_of d" "scope_of (d\<lparr>route_addrs := s\<rparr>) = scope_of d"
  by (simp_all add: list_get_def scope_of_def)

lemma holds_entry:
  assumes "holds d sc E" and "E x = Some (t, b)"
  obtains e where "hm_get (addr_map d) x = Some e" "cr_address e = t" "cr_authenticated e = b"
  using assms by (auto simp: holds_def view_def)

abbreviation gview :: "('a, 'a CachedRoute) hmap \<Rightarrow> 'a \<Rightarrow> ('a option \<times> 'a option) option" where
  "gview \<equiv> view (\<lambda>e. (global_prev e, global_next e))"

abbreviation rview :: "('a, 'a CachedRoute) hmap \<Rightarrow> 'a \<Rightarrow> ('a option \<times> 'a option) option" where
  "rview \<equiv> view (\<lambda>e. (route_prev e, route_next e))"

abbreviation eview :: "('a, 'a CachedRoute) hmap \<Rightarrow> 'a entries" where
  "eview \<equiv> view (\<lambda>e. (cr_address e, cr_authenticated e))"

lemma globals_disjoint: "globals d G \<Longrightarrow> b \<noteq> b' \<Longrightarrow> set (G b) \<inter> set (G b') = {}"
  by (cases b; cases b') (auto simp: globals_def)

lemma unlink_global_rep:
  assumes "holds d sc E" and "globals d G" and "route_lists d R" and "E x = Some (t, b)" and "G b = as @ x # bs"
  shows "holds (unlink_global x d) sc E" and "globals (unlink_global x d) (G(b := as @ bs))"
    and "route_lists (unlink_global x d) R"
proof -
  obtain e where e: "hm_get (addr_map d) x = Some e" "cr_authenticated e = b"
    using holds_entry assms(1,4) by metis
  have l: "links (gview (addr_map d)) (as @ x # bs)" "list_get b d = lru_of (as @ x # bs)"
    using assms(2,5) by (metis globals_def)+
  then have pn: "global_prev e = lasto as" "global_next e = heado bs"
    using links_at [OF l(1)] e(1) by (simp_all add: view_def)
  have dist: "distinct (as @ x # bs)" using l(1) by (rule links_distinct)
  then have nx: "global_prev e \<noteq> Some x" "global_next e \<noteq> Some x"
    by (auto simp: pn dest: lasto_in heado_in)
  define m where "m = addr_map (unlink_global x d)"
  have d': "unlink_global x d = (list_mut b (lru_detach x (lasto as) (heado bs)) d)\<lparr>addr_map := m\<rparr>"
    and mg: "gview m = unlinked x (lasto as) (heado bs) (gview (addr_map d))"
    and ok: "hm_ok (addr_map d) \<Longrightarrow> hm_ok m"
    using gl.view_unlink [OF e(1) nx] by (simp_all add: m_def unlink_global_def e pn Let_def)
  have keep: "view (\<lambda>e. ((cr_address e, cr_authenticated e), (route_prev e, route_next e))) m =
      view (\<lambda>e. ((cr_address e, cr_authenticated e), (route_prev e, route_next e))) (addr_map d)"
    using gl.keep_unlink by (simp add: m_def unlink_global_def e Let_def)
  note keep = view_pair [OF keep]
  show "holds (unlink_global x d) sc E" "route_lists (unlink_global x d) R"
    using assms(1,3) keep ok by (simp_all add: d' holds_def route_lists_def)
  have "links (gview m) (as @ bs)" unfolding mg using l(1) by (rule links_unlinked)
  moreover have "links (gview m) (G b')" if "b' \<noteq> b" for b'
    unfolding mg
  proof (rule links_unlinked_other)
    have "set (G b') \<inter> set (as @ x # bs) = {}" using globals_disjoint [OF assms(2) that] assms(5) by simp
    then show "x \<notin> set (G b')" "set_option (lasto as) \<inter> set (G b') = {}" "set_option (heado bs) \<inter> set (G b') = {}"
      by (auto dest: lasto_in heado_in)
    show "links (gview (addr_map d)) (G b')" using assms(2) by (simp add: globals_def)
  qed
  moreover have "set ((G(b := as @ bs)) True) \<inter> set ((G(b := as @ bs)) False) = {}"
    using assms(2,5) by (cases b) (auto simp: globals_def)
  ultimately show "globals (unlink_global x d) (G(b := as @ bs))"
    using assms(2) l(2) lru_detach_of [OF dist]
    by (auto simp: d' globals_def list_get_mut)
qed

lemma link_global_front_rep:
  assumes "holds d sc E" and "globals d G" and "route_lists d R" and "E x \<noteq> None" and "\<And>b. x \<notin> set (G b)"
  shows "holds (link_global_front x b d) sc E" and "globals (link_global_front x b d) (G(b := x # G b))"
    and "route_lists (link_global_front x b d) R"
proof -
  obtain e where e: "hm_get (addr_map d) x = Some e" using holds_entry assms(1,4) by (metis not_None_eq surj_pair)
  have l: "links (gview (addr_map d)) (G b)" "list_get b d = lru_of (G b)"
    using assms(2) by (metis globals_def)+
  have nx: "heado (G b) \<noteq> Some x" using assms(5) by (auto dest: heado_in)
  define m where "m = addr_map (link_global_front x b d)"
  have d': "link_global_front x b d = list_mut b (lru_attach x) (d\<lparr>addr_map := m\<rparr>)"
    and mg: "gview m = linked x (heado (G b)) (gview (addr_map d))"
    and ok: "hm_ok (addr_map d) \<Longrightarrow> hm_ok m"
    using gl.view_link [OF e nx] by (simp_all add: m_def link_global_front_def e l lru_of_def Let_def)
  have keep: "view (\<lambda>e. ((cr_address e, cr_authenticated e), (route_prev e, route_next e))) m =
      view (\<lambda>e. ((cr_address e, cr_authenticated e), (route_prev e, route_next e))) (addr_map d)"
    using gl.keep_link by (simp add: m_def link_global_front_def e Let_def)
  note keep = view_pair [OF keep]
  show "holds (link_global_front x b d) sc E" "route_lists (link_global_front x b d) R"
    using assms(1,3) keep ok by (simp_all add: d' holds_def route_lists_def)
  have "links (gview m) (x # G b)" unfolding mg using l(1) assms(5) by (rule links_linked)
  moreover have "links (gview m) (G b')" if "b' \<noteq> b" for b'
    unfolding mg
  proof (rule links_linked_other)
    show "set_option (heado (G b)) \<inter> set (G b') = {}"
      using globals_disjoint [OF assms(2) that] by (auto dest: heado_in)
    show "links (gview (addr_map d)) (G b')" "x \<notin> set (G b')" using assms(2,5) by (simp_all add: globals_def)
  qed
  moreover have "set ((G(b := x # G b)) True) \<inter> set ((G(b := x # G b)) False) = {}"
    using assms(2,5) by (cases b) (auto simp: globals_def)
  ultimately show "globals (link_global_front x b d) (G(b := x # G b))"
    using assms(2) l(2) by (auto simp: d' globals_def list_get_mut lru_attach_of)
qed

definition rl_of :: "(bool \<Rightarrow> 'a list) \<Rightarrow> 'a RouteLists" where
  "rl_of L = \<lparr>rls_unauthenticated = lru_of (L False), rls_authenticated = lru_of (L True)\<rparr>"

lemma lists_of_rl: "lists_of L = (if L True = [] \<and> L False = [] then None else Some (rl_of L))"
  by (simp add: lists_of_def rl_of_def)

lemma rl_of_get [simp]: "lists_get b (rl_of L) = lru_of (L b)"
  "rls_unauthenticated (rl_of L) = lru_of (L False)" "rls_authenticated (rl_of L) = lru_of (L True)"
  by (simp_all add: lists_get_def rl_of_def)

lemma lru_len_of [simp]: "lru_len (lru_of xs) = length xs" "lru_head (lru_of xs) = heado xs" "lru_tail (lru_of xs) = lasto xs"
  by (simp_all add: lru_of_def)

lemma route_entry_default_of:
  assumes "hm_get (route_addrs d) r = lists_of L"
  shows "route_entry_default r d = rl_of L"
  by (auto simp: route_entry_default_def assms lists_of_def rl_of_def lists_default_def lru_default_of)

lemma route_list_mut_of:
  assumes "hm_get (route_addrs d) r = lists_of L" and "f (lru_of (L b)) = lru_of xs"
  shows "route_list_mut r b f d = d\<lparr>route_addrs := hm_insert r (rl_of (L(b := xs))) (route_addrs d)\<rparr>"
  using assms(2) by (cases b) (simp_all add: route_list_mut_def route_entry_default_of [OF assms(1)] Let_def rl_of_def)

lemma route_lists_disjoint:
  "route_lists d R \<Longrightarrow> (r, b) \<noteq> (r', b') \<Longrightarrow> set (R r b) \<inter> set (R r' b') = {}"
  unfolding route_lists_def by blast

lemma route_lists_at:
  "route_lists d R \<Longrightarrow> links (rview (addr_map d)) (R r b)" "route_lists d R \<Longrightarrow> hm_get (route_addrs d) r = lists_of (R r)"
  unfolding route_lists_def by blast+

lemma unlink_route_rep:
  assumes "holds d sc E" and "globals d G" and "route_lists d R" and "E x = Some (t, b)" and "R r b = as @ x # bs"
  shows "holds (unlink_route x r d) sc E" and "globals (unlink_route x r d) G"
    and "route_lists (unlink_route x r d) (R(r := (R r)(b := as @ bs)))"
proof -
  obtain e where e: "hm_get (addr_map d) x = Some e" "cr_authenticated e = b"
    using holds_entry assms(1,4) by metis
  have l: "links (rview (addr_map d)) (as @ x # bs)" and a: "hm_get (route_addrs d) r = lists_of (R r)"
    using route_lists_at [OF assms(3)] assms(5) by metis+
  then have pn: "route_prev e = lasto as" "route_next e = heado bs"
    using links_at [OF l] e(1) by (simp_all add: view_def)
  have dist: "distinct (as @ x # bs)" using l by (rule links_distinct)
  then have nx: "route_prev e \<noteq> Some x" "route_next e \<noteq> Some x"
    by (auto simp: pn dest: lasto_in heado_in)
  have rm: "route_list_mut r b (lru_detach x (lasto as) (heado bs)) d =
      d\<lparr>route_addrs := hm_insert r (rl_of ((R r)(b := as @ bs))) (route_addrs d)\<rparr>"
    using lru_detach_of [OF dist] assms(5) by (intro route_list_mut_of [OF a]) simp
  define m where "m = addr_map (unlink_route x r d)"
  define s where "s = route_addrs (unlink_route x r d)"
  have m: "m = hm_modify x (\<lambda>e. e\<lparr>route_prev := None, route_next := None\<rparr>)
      (hm_modify_opt (heado bs) (route_prev_update (\<lambda>_. lasto as))
        (hm_modify_opt (lasto as) (route_next_update (\<lambda>_. heado bs)) (addr_map d)))"
    by (auto simp: m_def unlink_route_def e pn rm Let_def hm_get_insert)
  have mg: "rview m = unlinked x (lasto as) (heado bs) (rview (addr_map d))"
    and ok: "hm_ok (addr_map d) \<Longrightarrow> hm_ok m"
    using rl.view_unlink [OF e(1) nx] by (simp_all add: m pn)
  have keep: "view (\<lambda>e. ((cr_address e, cr_authenticated e), (global_prev e, global_next e))) m =
      view (\<lambda>e. ((cr_address e, cr_authenticated e), (global_prev e, global_next e))) (addr_map d)"
    using rl.keep_unlink by (simp add: m)
  note keep = view_pair [OF keep]
  have other: "list_get b' (unlink_route x r d) = list_get b' d" "scope_of (unlink_route x r d) = scope_of d" for b'
    by (simp_all add: unlink_route_def e pn rm Let_def hm_get_insert)
  have sok: "hm_ok (route_addrs d) \<Longrightarrow> hm_ok s"
    by (simp add: s_def unlink_route_def e pn rm Let_def hm_get_insert hm_ok_insert hm_ok_remove)
  have s: "hm_get s r' = (if r' = r then lists_of ((R r)(b := as @ bs)) else hm_get (route_addrs d) r')" for r'
    by (auto simp: s_def unlink_route_def e pn rm Let_def hm_get_insert hm_get_remove lists_of_rl)
  show "holds (unlink_route x r d) sc E" "globals (unlink_route x r d) G"
    using assms(1,2) keep ok sok other by (simp_all add: holds_def globals_def m_def [symmetric] s_def [symmetric])
  define R' where "R' = R(r := (R r)(b := as @ bs))"
  have sub: "set (R' r' b') \<subseteq> set (R r' b')" for r' b'
    using assms(5) by (auto simp: R'_def)
  have "set (R' r1 b1) \<inter> set (R' r2 b2) = {}" if "(r1, b1) \<noteq> (r2, b2)" for r1 b1 r2 b2
    using route_lists_disjoint [OF assms(3) that] sub by blast
  moreover have "links (rview m) (R' r' b')" for r' b'
  proof (cases "(r', b') = (r, b)")
    case True
    then show ?thesis using links_unlinked [OF l] by (simp add: mg R'_def)
  next
    case False
    have "set (R r' b') \<inter> set (as @ x # bs) = {}" using route_lists_disjoint [OF assms(3) False] assms(5) by simp
    then have "x \<notin> set (R r' b')" "set_option (lasto as) \<inter> set (R r' b') = {}" "set_option (heado bs) \<inter> set (R r' b') = {}"
      by (auto dest: lasto_in heado_in)
    then have "links (rview m) (R r' b')"
      unfolding mg using route_lists_at [OF assms(3)] by (intro links_unlinked_other)
    then show ?thesis using False by (auto simp: R'_def)
  qed
  moreover have "hm_get s r' = lists_of (R' r')" for r'
    using s route_lists_at(2) [OF assms(3)] by (simp add: R'_def)
  ultimately show "route_lists (unlink_route x r d) (R(r := (R r)(b := as @ bs)))"
    by (auto simp: route_lists_def m_def [symmetric] s_def [symmetric] R'_def [symmetric])
qed

lemma link_route_front_rep:
  assumes "holds d sc E" and "globals d G" and "route_lists d R" and "E x \<noteq> None" and "\<And>r b. x \<notin> set (R r b)"
  shows "holds (link_route_front x r b d) sc E" and "globals (link_route_front x r b d) G"
    and "route_lists (link_route_front x r b d) (R(r := (R r)(b := x # R r b)))"
proof -
  obtain e where e: "hm_get (addr_map d) x = Some e" using holds_entry assms(1,4) by (metis not_None_eq surj_pair)
  have l: "links (rview (addr_map d)) (R r b)" and a: "hm_get (route_addrs d) r = lists_of (R r)"
    using route_lists_at [OF assms(3)] by metis+
  have nx: "heado (R r b) \<noteq> Some x" using assms(5) by (auto dest: heado_in)
  have r1: "route_list_mut r b (\<lambda>l. l) d = d\<lparr>route_addrs := hm_insert r (rl_of (R r)) (route_addrs d)\<rparr>"
    using route_list_mut_of [OF a, of "\<lambda>l. l" b] by simp
  have h: "lru_head (lists_get b (route_entry_default r (d\<lparr>route_addrs := hm_insert r (rl_of (R r)) (route_addrs d)\<rparr>))) = heado (R r b)"
    by (simp add: route_entry_default_def hm_get_insert)
  have r2: "route_list_mut r b (lru_attach x) (d\<lparr>route_addrs := hm_insert r (rl_of (R r)) (route_addrs d), addr_map := m\<rparr>) =
      d\<lparr>route_addrs := hm_insert r (rl_of ((R r)(b := x # R r b))) (hm_insert r (rl_of (R r)) (route_addrs d)), addr_map := m\<rparr>" for m
    by (cases b) (simp_all add: route_list_mut_def route_entry_default_def hm_get_insert Let_def lru_attach_of rl_of_def)
  define m where "m = addr_map (link_route_front x r b d)"
  define s where "s = route_addrs (link_route_front x r b d)"
  have mg: "rview m = linked x (heado (R r b)) (rview (addr_map d))"
    and ok: "hm_ok (addr_map d) \<Longrightarrow> hm_ok m"
    using rl.view_link [OF e nx] by (simp_all add: m_def link_route_front_def r1 r2 h e Let_def)
  have keep: "view (\<lambda>e. ((cr_address e, cr_authenticated e), (global_prev e, global_next e))) m =
      view (\<lambda>e. ((cr_address e, cr_authenticated e), (global_prev e, global_next e))) (addr_map d)"
    using rl.keep_link by (simp add: m_def link_route_front_def r1 r2 h e Let_def)
  note keep = view_pair [OF keep]
  have other: "list_get b' (link_route_front x r b d) = list_get b' d" "scope_of (link_route_front x r b d) = scope_of d" for b'
    by (simp_all add: link_route_front_def r1 r2 h e Let_def)
  have sok: "hm_ok (route_addrs d) \<Longrightarrow> hm_ok s"
    by (simp add: s_def link_route_front_def r1 r2 h e Let_def hm_ok_insert)
  have s: "hm_get s r' = (if r' = r then lists_of ((R r)(b := x # R r b)) else hm_get (route_addrs d) r')" for r'
    by (auto simp: s_def link_route_front_def r1 r2 h e Let_def hm_get_insert lists_of_rl)
  show "holds (link_route_front x r b d) sc E" "globals (link_route_front x r b d) G"
    using assms(1,2) keep ok sok other by (simp_all add: holds_def globals_def m_def [symmetric] s_def [symmetric])
  define R' where "R' = R(r := (R r)(b := x # R r b))"
  have "set (R' r1 b1) \<inter> set (R' r2 b2) = {}" if "(r1, b1) \<noteq> (r2, b2)" for r1 b1 r2 b2
    using route_lists_disjoint [OF assms(3) that] assms(5) that by (auto simp: R'_def)
  moreover have "links (rview m) (R' r' b')" for r' b'
  proof (cases "(r', b') = (r, b)")
    case True
    then show ?thesis using links_linked [OF l] assms(5) by (simp add: mg R'_def)
  next
    case False
    have "set_option (heado (R r b)) \<inter> set (R r' b') = {}"
      using route_lists_disjoint [OF assms(3) False] by (auto dest: heado_in)
    then have "links (rview m) (R r' b')"
      unfolding mg using route_lists_at [OF assms(3)] assms(5) by (intro links_linked_other)
    then show ?thesis using False by (auto simp: R'_def)
  qed
  moreover have "hm_get s r' = lists_of (R' r')" for r'
    using s route_lists_at(2) [OF assms(3)] by (simp add: R'_def)
  ultimately show "route_lists (link_route_front x r b d) (R(r := (R r)(b := x # R r b)))"
    by (auto simp: route_lists_def m_def [symmetric] s_def [symmetric] R'_def [symmetric])
qed

subsection \<open>The specification\<close>

text \<open>
  The cache as its clients see it: for unauthenticated and for authenticated addresses, the list of
  addresses with their routes, the most recently used first.
\<close>

type_synonym 'a cache = "bool \<Rightarrow> ('a \<times> NodeTransportAddress) list"

definition cache_ok :: "'a cache \<Rightarrow> bool" where
  "cache_ok c \<longleftrightarrow> distinct (map fst (c True @ c False))"

definition keys :: "'a cache \<Rightarrow> 'a set" where
  "keys c = fst ` set (c True @ c False)"

definition lookup :: "'a cache \<Rightarrow> 'a entries" where
  "lookup c x = (case map_of (c True) x of Some t \<Rightarrow> Some (t, True)
     | None \<Rightarrow> map_option (\<lambda>t. (t, False)) (map_of (c False) x))"

definition on_route :: "ClientRoute \<Rightarrow> 'a \<times> NodeTransportAddress \<Rightarrow> bool" where
  "on_route r p \<longleftrightarrow> nt_route (snd p) = r"

definition drop_key :: "'a \<Rightarrow> 'a cache \<Rightarrow> 'a cache" where
  "drop_key x c = (\<lambda>b. filter (\<lambda>p. fst p \<noteq> x) (c b))"

definition push_key :: "'a \<Rightarrow> NodeTransportAddress \<Rightarrow> bool \<Rightarrow> 'a cache \<Rightarrow> 'a cache" where
  "push_key x t b c = c(b := (x, t) # c b)"

definition glist :: "'a cache \<Rightarrow> bool \<Rightarrow> 'a list" where
  "glist c b = map fst (c b)"

definition rlist :: "'a cache \<Rightarrow> ClientRoute \<Rightarrow> bool \<Rightarrow> 'a list" where
  "rlist c r b = map fst (filter (on_route r) (c b))"

text \<open>The concrete state holds the lists of \<open>c\<close>, and entries \<open>E\<close> that may not be on any list yet.\<close>

definition staged :: "'a Demuxer \<Rightarrow> NodeScope \<Rightarrow> 'a entries \<Rightarrow> 'a cache \<Rightarrow> bool" where
  "staged d sc E c \<longleftrightarrow> cache_ok c \<and> holds d sc E \<and> globals d (glist c) \<and> route_lists d (rlist c)"

definition refines :: "'a Demuxer \<Rightarrow> NodeScope \<Rightarrow> 'a cache \<Rightarrow> bool" where
  "refines d sc c \<longleftrightarrow> staged d sc (lookup c) c"

lemma not_keys_iff: "x \<notin> keys c \<longleftrightarrow> map_of (c True) x = None \<and> map_of (c False) x = None"
  by (simp add: keys_def map_of_eq_None_iff image_Un)

lemma lookup_None [simp]: "lookup c x = None \<longleftrightarrow> x \<notin> keys c"
  by (simp add: lookup_def not_keys_iff split: option.split)

lemma glist_keys: "x \<notin> keys c \<Longrightarrow> x \<notin> set (glist c b)"
  by (cases b) (auto simp: glist_def keys_def)

lemma rlist_glist: "set (rlist c r b) \<subseteq> set (glist c b)"
  by (auto simp: rlist_def glist_def)

lemma filter_key_absent: "x \<notin> fst ` set l \<Longrightarrow> filter (\<lambda>p. fst p \<noteq> x) l = l"
  by (induction l) auto

lemma lookup_split:
  assumes "cache_ok c" and "lookup c x = Some (t, b)"
  obtains us vs where "c b = us @ (x, t) # vs" "drop_key x c = c(b := us @ vs)"
proof -
  have m: "(x, t) \<in> set (c b)" using assms(2)
    by (auto simp: lookup_def dest: map_of_SomeD split: option.splits)
  then obtain us vs where c: "c b = us @ (x, t) # vs" by (meson split_list)
  moreover have "drop_key x c = c(b := us @ vs)"
  proof
    fix b'
    have d: "distinct (map fst (c b))" "set (map fst (c True)) \<inter> set (map fst (c False)) = {}"
      using assms(1) by (cases b; simp add: cache_ok_def)+
    have "x \<notin> fst ` set us" "x \<notin> fst ` set vs" using d(1) by (auto simp: c)
    moreover have "x \<notin> fst ` set (c b')" if "b' \<noteq> b"
      using d(2) m that by (cases b; cases b') force+
    ultimately
    show "drop_key x c b' = (c(b := us @ vs)) b'"
      by (cases "b' = b") (simp_all add: drop_key_def c filter_key_absent)
  qed
  ultimately show ?thesis by (rule that)
qed

lemma cache_ok_drop: "cache_ok c \<Longrightarrow> cache_ok (drop_key x c)"
  by (auto simp: cache_ok_def drop_key_def distinct_map_filter)

lemma cache_ok_push: "cache_ok c \<Longrightarrow> x \<notin> keys c \<Longrightarrow> cache_ok (push_key x t b c)"
  by (cases b) (auto simp: cache_ok_def push_key_def keys_def)

lemma keys_drop: "keys (drop_key x c) = keys c - {x}"
  by (auto simp: keys_def drop_key_def)

lemma keys_push: "keys (push_key x t b c) = insert x (keys c)"
  by (cases b) (auto simp: keys_def push_key_def)

lemma map_of_drop: "map_of (filter (\<lambda>p. fst p \<noteq> x) l) y = (if y = x then None else map_of l y)"
  by (induction l) auto

lemma lookup_drop: "lookup (drop_key x c) = (lookup c)(x := None)"
  by (rule ext) (simp add: lookup_def drop_key_def map_of_drop split: option.split)

lemma lookup_push: "x \<notin> keys c \<Longrightarrow> lookup (push_key x t b c) = (lookup c)(x \<mapsto> (t, b))"
  by (rule ext, cases b)
    (auto simp: lookup_def push_key_def not_keys_iff split: option.split)

lemma drop_key_absent: "x \<notin> keys c \<Longrightarrow> drop_key x c = c"
proof
  fix b
  assume "x \<notin> keys c"
  then show "drop_key x c b = c b" by (cases b) (simp_all add: drop_key_def keys_def image_Un filter_key_absent)
qed

subsection \<open>Taking an address off its lists and putting it back\<close>

lemma staged_detach:
  assumes "refines d sc c" and "lookup c x = Some (t, b)"
  shows "staged (unlink_route x (nt_route t) (unlink_global x d)) sc (lookup c) (drop_key x c)"
proof -
  have ok: "cache_ok c" and h: "holds d sc (lookup c)" and g: "globals d (glist c)" and r: "route_lists d (rlist c)"
    using assms(1) by (simp_all add: refines_def staged_def)
  obtain us vs where s: "c b = us @ (x, t) # vs" "drop_key x c = c(b := us @ vs)"
    using lookup_split [OF ok assms(2)] .
  have gl: "glist c b = map fst us @ x # map fst vs"
    and rl: "rlist c (nt_route t) b = map fst (filter (on_route (nt_route t)) us) @ x # map fst (filter (on_route (nt_route t)) vs)"
    by (simp_all add: glist_def rlist_def s on_route_def)
  have gd: "glist (drop_key x c) = (glist c)(b := map fst us @ map fst vs)"
    by (rule ext) (simp add: glist_def s)
  have rd: "rlist (drop_key x c) = (rlist c)(nt_route t := (rlist c (nt_route t))
      (b := map fst (filter (on_route (nt_route t)) us) @ map fst (filter (on_route (nt_route t)) vs)))"
  proof (intro ext)
    fix r b'
    show "rlist (drop_key x c) r b' = ((rlist c)(nt_route t := (rlist c (nt_route t))
        (b := map fst (filter (on_route (nt_route t)) us) @ map fst (filter (on_route (nt_route t)) vs)))) r b'"
      by (cases "b' = b"; cases "r = nt_route t") (simp_all add: rlist_def s on_route_def)
  qed
  note u = unlink_global_rep [OF h g r assms(2) gl]
  show ?thesis unfolding staged_def gd rd
    using cache_ok_drop [OF ok] unlink_route_rep [OF u assms(2) rl] by simp
qed

lemma staged_attach:
  assumes "staged d sc E c" and "E x \<noteq> None" and "x \<notin> keys c"
  shows "staged (link_route_front x (nt_route t) b (link_global_front x b d)) sc E (push_key x t b c)"
proof -
  have h: "holds d sc E" and g: "globals d (glist c)" and r: "route_lists d (rlist c)"
    using assms(1) by (simp_all add: staged_def)
  have nl: "\<And>b. x \<notin> set (glist c b)" "\<And>r b. x \<notin> set (rlist c r b)"
    using glist_keys [OF assms(3)] rlist_glist by fast+
  have gd: "glist (push_key x t b c) = (glist c)(b := x # glist c b)"
    by (rule ext) (simp add: glist_def push_key_def)
  have rd: "rlist (push_key x t b c) = (rlist c)(nt_route t := (rlist c (nt_route t))(b := x # rlist c (nt_route t) b))"
    by (intro ext) (simp add: rlist_def push_key_def on_route_def)
  note u = link_global_front_rep [OF h g r assms(2) nl(1)]
  show ?thesis unfolding staged_def gd rd
    using cache_ok_push [OF _ assms(3)] link_route_front_rep [OF u assms(2) nl(2)] assms(1) by (simp add: staged_def)
qed

text \<open>An entry that is on no list can be changed freely.\<close>

lemma staged_change:
  assumes "staged d sc E c" and "x \<notin> keys c" and "hm_ok m"
    and "\<And>y. y \<noteq> x \<Longrightarrow> hm_get m y = hm_get (addr_map d) y"
  shows "staged (d\<lparr>addr_map := m\<rparr>) sc (E(x := eview m x)) c"
proof -
  have nl: "\<And>b. x \<notin> set (glist c b)" "\<And>r b. x \<notin> set (rlist c r b)"
    using glist_keys [OF assms(2)] rlist_glist by fast+
  have "view f m y = view f (addr_map d) y" if "y \<noteq> x" for f :: "'a CachedRoute \<Rightarrow> 'b" and y
    using assms(4) [OF that] by (simp add: view_def)
  then have v: "eview m y = eview (addr_map d) y" "gview m y = gview (addr_map d) y" "rview m y = rview (addr_map d) y"
    if "y \<noteq> x" for y using that by (simp_all add: view_def assms(4))
  have "links (gview m) (glist c b)" if "links (gview (addr_map d)) (glist c b)" for b
    using that by (rule links_frame) (use nl v in metis)
  moreover have "links (rview m) (rlist c r b)" if "links (rview (addr_map d)) (rlist c r b)" for r b
    using that by (rule links_frame) (use nl v in metis)
  ultimately show ?thesis
    using assms(1,3) v(1) by (auto simp: staged_def holds_def globals_def route_lists_def)
qed

subsection \<open>Refinement of the operations\<close>

definition spec_touch :: "'a \<Rightarrow> 'a cache \<Rightarrow> 'a cache" where
  "spec_touch x c = (case lookup c x of None \<Rightarrow> c | Some (t, b) \<Rightarrow> push_key x t b (drop_key x c))"

definition spec_evict :: "('a \<times> NodeTransportAddress \<Rightarrow> bool) \<Rightarrow> 'a cache \<Rightarrow> 'a cache" where
  "spec_evict P c = (case or_else (lasto (filter P (c False))) (lasto (filter P (c True))) of
     None \<Rightarrow> c | Some (x, t) \<Rightarrow> drop_key x c)"

definition cache_size :: "'a cache \<Rightarrow> nat" where
  "cache_size c = length (c True) + length (c False)"

definition route_size :: "ClientRoute \<Rightarrow> 'a cache \<Rightarrow> nat" where
  "route_size r c = length (filter (on_route r) (c True)) + length (filter (on_route r) (c False))"

definition spec_admit :: "'a \<Rightarrow> NodeTransportAddress \<Rightarrow> 'a cache \<Rightarrow> 'a cache" where
  "spec_admit x t c =
     (let c = (if cache_size c \<ge> MAX_ADDR_ENTRIES then spec_evict (\<lambda>_. True) c else c);
          c = (if route_size (nt_route t) c \<ge> MAX_ADDRS_PER_ROUTE then spec_evict (on_route (nt_route t)) c else c)
      in push_key x t False c)"

definition cache_bounded :: "'a cache \<Rightarrow> bool" where
  "cache_bounded c \<longleftrightarrow> cache_size c \<le> MAX_ADDR_ENTRIES \<and> (\<forall>r. route_size r c \<le> MAX_ADDRS_PER_ROUTE)"

lemma refines_get:
  assumes "refines d sc c"
  shows "map_option (\<lambda>e. (cr_address e, cr_authenticated e)) (hm_get (addr_map d) x) = lookup c x"
proof -
  have "eview (addr_map d) = lookup c" using assms by (simp add: refines_def staged_def holds_def)
  then show ?thesis by (metis view_def)
qed

lemma refines_get_cases:
  assumes "refines d sc c"
  obtains (absent) "hm_get (addr_map d) x = None" "lookup c x = None" "x \<notin> keys c"
  | (present) e t b where "hm_get (addr_map d) x = Some e" "lookup c x = Some (t, b)" "x \<in> keys c"
      "cr_address e = t" "cr_authenticated e = b"
  using refines_get [OF assms, of x, symmetric] lookup_None [of c x]
  by (cases "hm_get (addr_map d) x") auto

lemma lookup_absent [simp]: "x \<notin> keys c \<Longrightarrow> lookup c x = None"
  by simp

lemma drop_not_key [simp]: "x \<notin> keys (drop_key x c)"
  by (simp add: keys_drop)

lemma lookup_push_drop: "lookup (push_key x t b (drop_key x c)) = (lookup c)(x \<mapsto> (t, b))"
  by (simp add: lookup_push lookup_drop)

text \<open>Taking an address off and putting it back with a changed entry.\<close>

lemma relink_refines:
  assumes "refines d sc c" and "lookup c x = Some (t, b)" and "nt_route t' = nt_route t"
    and "\<And>e. cr_address e = t \<Longrightarrow> cr_authenticated e = b \<Longrightarrow> cr_address (f e) = t' \<and> cr_authenticated (f e) = b'"
  defines "d1 \<equiv> unlink_route x (nt_route t) (unlink_global x d)"
  shows "refines (link_route_front x (nt_route t') b' (link_global_front x b' (d1\<lparr>addr_map := hm_modify x f (addr_map d1)\<rparr>)))
     sc (push_key x t' b' (drop_key x c))"
proof -
  have s: "staged d1 sc (lookup c) (drop_key x c)"
    unfolding d1_def by (rule staged_detach [OF assms(1,2)])
  then obtain e where e: "hm_get (addr_map d1) x = Some e" "cr_address e = t" "cr_authenticated e = b"
    using assms(2) holds_entry by (metis staged_def)
  have "staged (d1\<lparr>addr_map := hm_modify x f (addr_map d1)\<rparr>) sc
      ((lookup c)(x := eview (hm_modify x f (addr_map d1)) x)) (drop_key x c)"
    using s by (intro staged_change) (auto simp: staged_def holds_def hm_get_modify)
  moreover have "eview (hm_modify x f (addr_map d1)) x = Some (t', b')"
    using e assms(4) by (simp add: view_def hm_get_modify)
  ultimately have "staged (d1\<lparr>addr_map := hm_modify x f (addr_map d1)\<rparr>) sc
      ((lookup c)(x \<mapsto> (t', b'))) (drop_key x c)" by simp
  from staged_attach [OF this, of x t' b'] show ?thesis by (simp add: refines_def lookup_push_drop)
qed

lemma touch_refines:
  assumes "refines d sc c"
  shows "refines (touch x d) sc (spec_touch x c)"
  using assms
proof (cases rule: refines_get_cases [where x = x])
  case absent
  then show ?thesis using assms by (simp add: touch_def spec_touch_def)
next
  case (present e t b)
  have "staged (touch x d) sc (lookup c) (push_key x t b (drop_key x c))"
    using staged_attach [OF staged_detach [OF assms present(2)], of x t b] present by (simp add: touch_def Let_def)
  moreover have "(lookup c)(x \<mapsto> (t, b)) = lookup c" using present(2) by (simp add: fun_upd_idem)
  ultimately show ?thesis using present(2) by (simp add: spec_touch_def refines_def lookup_push_drop)
qed

lemma remove_entry_refines:
  assumes "refines d sc c"
  shows "refines (snd (remove_entry x d)) sc (drop_key x c)"
  using assms
proof (cases rule: refines_get_cases [where x = x])
  case absent
  then show ?thesis using assms by (simp add: remove_entry_def drop_key_absent)
next
  case (present e t b)
  define d1 where "d1 = unlink_route x (nt_route t) (unlink_global x d)"
  have s: "staged d1 sc (lookup c) (drop_key x c)"
    unfolding d1_def by (rule staged_detach [OF assms present(2)])
  have "staged (d1\<lparr>addr_map := hm_remove x (addr_map d1)\<rparr>) sc
      ((lookup c)(x := eview (hm_remove x (addr_map d1)) x)) (drop_key x c)"
    using s by (intro staged_change) (auto simp: staged_def holds_def hm_get_remove hm_ok_remove)
  moreover have "snd (remove_entry x d) = d1\<lparr>addr_map := hm_remove x (addr_map d1)\<rparr>"
    using present by (simp add: remove_entry_def Let_def d1_def)
  ultimately show ?thesis by (simp add: refines_def lookup_drop view_def hm_get_remove)
qed

lemma refines_lists:
  assumes "refines d sc c"
  shows "lru_tail (dm_unauthenticated d) = map_option fst (lasto (c False))"
    and "lru_tail (dm_authenticated d) = map_option fst (lasto (c True))"
    and "hm_get (route_addrs d) r = lists_of (rlist c r)"
proof -
  have "list_get b d = lru_of (glist c b)" for b using assms by (simp add: refines_def staged_def globals_def)
  from this [of True] this [of False]
  show "lru_tail (dm_unauthenticated d) = map_option fst (lasto (c False))"
    "lru_tail (dm_authenticated d) = map_option fst (lasto (c True))"
    by (simp_all add: list_get_def glist_def lasto_def last_map)
  show "hm_get (route_addrs d) r = lists_of (rlist c r)"
    using assms by (simp add: refines_def staged_def route_lists_def)
qed

lemma lasto_map: "lasto (map f xs) = map_option f (lasto xs)"
  by (simp add: lasto_def last_map)

lemma heado_map: "heado (map f xs) = map_option f (heado xs)"
  by (cases xs) simp_all

lemma or_else_map: "or_else (map_option f x) (map_option f y) = map_option f (or_else x y)"
  by (cases x) (simp_all add: or_else_def)

lemma evict_global_refines:
  assumes "refines d sc c"
  shows "refines (evict_global d) sc (spec_evict (\<lambda>_. True) c)"
  using assms remove_entry_refines [OF assms]
  by (auto simp: evict_global_def spec_evict_def refines_lists [OF assms] or_else_map split: option.split)

lemma route_ends:
  assumes "refines d sc c"
  shows "Option.bind (hm_get (route_addrs d) r) (\<lambda>ls. or_else (lru_tail (rls_unauthenticated ls)) (lru_tail (rls_authenticated ls))) =
      map_option fst (or_else (lasto (filter (on_route r) (c False))) (lasto (filter (on_route r) (c True))))"
    and "Option.bind (hm_get (route_addrs d) r) (\<lambda>ls. or_else (lru_head (rls_unauthenticated ls)) (lru_head (rls_authenticated ls))) =
      map_option fst (or_else (heado (filter (on_route r) (c False))) (heado (filter (on_route r) (c True))))"
  by (auto simp: refines_lists(3) [OF assms] lists_of_rl or_else_def rlist_def lasto_map heado_map split: option.split)

lemma evict_route_refines:
  assumes "refines d sc c"
  shows "refines (evict_route r d) sc (spec_evict (on_route r) c)"
  using assms remove_entry_refines [OF assms]
  by (auto simp: evict_route_def spec_evict_def route_ends [OF assms] split: option.split)

lemma route_len_refines: "refines d sc c \<Longrightarrow> route_len r d = route_size r c"
  by (auto simp: route_len_def refines_lists(3) lists_of_rl rlist_def route_size_def)

lemma addr_map_length:
  assumes "refines d sc c"
  shows "length (addr_map d) = cache_size c"
proof -
  have ok: "hm_ok (addr_map d)" "cache_ok c" using assms by (simp_all add: refines_def staged_def holds_def)
  have "x \<in> fst ` set (addr_map d) \<longleftrightarrow> x \<in> keys c" for x
    using refines_get [OF assms, of x] lookup_None [of c x] by (metis hm_get_def map_of_eq_None_iff option.map_disc_iff)
  then have "fst ` set (addr_map d) = keys c" by blast
  moreover have "card (fst ` set (addr_map d)) = length (addr_map d)"
    using ok(1) distinct_card [of "map fst (addr_map d)"] by (simp add: hm_ok_def)
  moreover have "card (keys c) = cache_size c"
    using ok(2) distinct_card [of "map fst (c True @ c False)"] by (simp add: cache_ok_def keys_def cache_size_def image_Un)
  ultimately show ?thesis by simp
qed

subsection \<open>The bounds of the cache\<close>

definition psize :: "('a \<times> NodeTransportAddress \<Rightarrow> bool) \<Rightarrow> 'a cache \<Rightarrow> nat" where
  "psize P c = length (filter P (c True)) + length (filter P (c False))"

lemma psize_sizes: "cache_size c = psize (\<lambda>_. True) c" "route_size r c = psize (on_route r) c"
  by (simp_all add: psize_def cache_size_def route_size_def)

lemma psize_push: "psize P (push_key x t b c) = psize P c + (if P (x, t) then 1 else 0)"
  by (cases b) (simp_all add: psize_def push_key_def)

lemma filter_drop: "filter P (drop_key x c b) = filter (\<lambda>p. fst p \<noteq> x) (filter P (c b))"
  by (simp add: drop_key_def conj_commute)

lemma psize_drop_le: "psize P (drop_key x c) \<le> psize P c"
  by (auto simp: psize_def filter_drop simp del: filter_filter intro!: add_mono)

lemma psize_drop_less:
  assumes "(x, t) \<in> set (c b)" and "P (x, t)"
  shows "psize P (drop_key x c) < psize P c"
proof -
  have "length (filter P (drop_key x c b)) < length (filter P (c b))"
    unfolding filter_drop by (rule length_filter_less [of "(x, t)"]) (use assms in auto)
  moreover have "length (filter P (drop_key x c b')) \<le> length (filter P (c b'))" for b'
    unfolding filter_drop by (rule length_filter_le)
  from this [of True] this [of False] calculation show ?thesis by (cases b) (auto simp: psize_def)
qed

lemma spec_evict_le: "psize Q (spec_evict P c) \<le> psize Q c"
  by (auto simp: spec_evict_def psize_drop_le split: option.split)

lemma spec_evict_keys: "keys (spec_evict P c) \<subseteq> keys c"
  by (auto simp: spec_evict_def keys_drop split: option.split)

lemma spec_evict_less:
  assumes "psize P c > 0"
  shows "psize P (spec_evict P c) < psize P c"
proof -
  have "or_else (lasto (filter P (c False))) (lasto (filter P (c True))) \<noteq> None"
    using assms by (auto simp: or_else_def psize_def lasto_def split: option.splits if_splits)
  then obtain x t where v: "or_else (lasto (filter P (c False))) (lasto (filter P (c True))) = Some (x, t)" by auto
  then obtain b where "lasto (filter P (c b)) = Some (x, t)"
    by (auto simp: or_else_def split: option.splits)
  then have "(x, t) \<in> set (c b)" "P (x, t)" by (auto dest: lasto_in)
  then show ?thesis using psize_drop_less v by (simp add: spec_evict_def)
qed

lemma cache_bounded_psize: "cache_bounded c \<longleftrightarrow>
    psize (\<lambda>_. True) c \<le> MAX_ADDR_ENTRIES \<and> (\<forall>r. psize (on_route r) c \<le> MAX_ADDRS_PER_ROUTE)"
  by (simp add: cache_bounded_def psize_sizes)

lemma MAX_pos: "0 < MAX_ADDR_ENTRIES" "0 < MAX_ADDRS_PER_ROUTE"
  by (simp_all add: MAX_ADDR_ENTRIES_def MAX_ADDRS_PER_ROUTE_def)

lemma bounded_drop: "cache_bounded c \<Longrightarrow> cache_bounded (drop_key x c)"
  unfolding cache_bounded_psize by (meson order_trans psize_drop_le)

lemma bounded_relink:
  assumes "cache_bounded c" and "cache_ok c" and "lookup c x = Some (t, b)" and "nt_route t' = nt_route t"
  shows "cache_bounded (push_key x t' b' (drop_key x c))"
proof -
  have m: "(x, t) \<in> set (c b)" using lookup_split [OF assms(2,3)] by (metis in_set_conv_decomp)
  have "psize Q (push_key x t' b' (drop_key x c)) \<le> psize Q c" if "Q (x, t') = Q (x, t)" for Q
    using psize_drop_less [of x t c b Q] psize_drop_le [of Q x c] m that by (cases "Q (x, t)") (auto simp: psize_push)
  from this [of "\<lambda>_. True"] this [of "on_route r" for r] show ?thesis
    using assms(1,4) unfolding cache_bounded_psize by (force simp: on_route_def intro: order_trans)
qed

lemma bounded_admit:
  assumes "cache_bounded c"
  shows "cache_bounded (spec_admit x t c)"
proof -
  define c1 where "c1 = (if cache_size c \<ge> MAX_ADDR_ENTRIES then spec_evict (\<lambda>_. True) c else c)"
  define c2 where "c2 = (if route_size (nt_route t) c1 \<ge> MAX_ADDRS_PER_ROUTE then spec_evict (on_route (nt_route t)) c1 else c1)"
  have le: "psize Q c1 \<le> psize Q c" "psize Q c2 \<le> psize Q c1" for Q
    by (simp_all add: c1_def c2_def spec_evict_le)
  have "psize (\<lambda>_. True) c1 < MAX_ADDR_ENTRIES"
    using assms spec_evict_less [of "\<lambda>_. True" c] MAX_pos(1) unfolding cache_bounded_psize
    by (auto simp: c1_def psize_sizes)
  then have "psize (\<lambda>_. True) c2 < MAX_ADDR_ENTRIES" using le(2) [of "\<lambda>_. True"] by simp
  moreover have "psize (on_route (nt_route t)) c1 \<le> MAX_ADDRS_PER_ROUTE"
    using assms le(1) [of "on_route (nt_route t)"] unfolding cache_bounded_psize by (meson order_trans)
  then have "psize (on_route (nt_route t)) c2 < MAX_ADDRS_PER_ROUTE"
    using spec_evict_less [of "on_route (nt_route t)" c1] MAX_pos(2) by (auto simp: c2_def psize_sizes)
  moreover have "psize (on_route r) c2 \<le> MAX_ADDRS_PER_ROUTE" for r
    using assms le [of "on_route r"] unfolding cache_bounded_psize by (meson order_trans)
  ultimately show ?thesis
    by (auto simp: spec_admit_def c1_def [symmetric] c2_def [symmetric] Let_def cache_bounded_psize psize_push on_route_def)
qed

lemma admit_refines:
  assumes "refines d sc c" and "cache_bounded c" and "x \<notin> keys c"
  shows "refines (admit x t False d) sc (spec_admit x t c)"
proof -
  define c1 where "c1 = (if cache_size c \<ge> MAX_ADDR_ENTRIES then spec_evict (\<lambda>_. True) c else c)"
  define c2 where "c2 = (if route_size (nt_route t) c1 \<ge> MAX_ADDRS_PER_ROUTE then spec_evict (on_route (nt_route t)) c1 else c1)"
  define d1 where "d1 = (if length (addr_map d) \<ge> MAX_ADDR_ENTRIES then evict_global d else d)"
  define d2 where "d2 = (if route_len (nt_route t) d1 \<ge> MAX_ADDRS_PER_ROUTE then evict_route (nt_route t) d1 else d1)"
  have r1: "refines d1 sc c1"
    using assms(1) evict_global_refines [OF assms(1)] by (simp add: d1_def c1_def addr_map_length)
  then have r2: "refines d2 sc c2"
    using evict_route_refines [OF r1] by (simp add: d2_def c2_def route_len_refines [OF r1])
  have sa: "spec_admit x t c = push_key x t False c2"
    unfolding spec_admit_def Let_def c1_def [symmetric] c2_def [symmetric] ..
  have "cache_bounded (push_key x t False c2)"
    using bounded_admit [OF assms(2), of x t] by (simp only: sa)
  then have room: "\<not> route_len (nt_route t) d2 \<ge> MAX_ADDRS_PER_ROUTE"
    using route_len_refines [OF r2]
    by (auto simp: cache_bounded_psize psize_push psize_sizes on_route_def Suc_le_eq not_le dest: spec [of _ "nt_route t"])
  have "keys c1 \<subseteq> keys c" "keys c2 \<subseteq> keys c1" by (simp_all add: c1_def c2_def spec_evict_keys)
  then have nk: "x \<notin> keys c2" using assms(3) by blast
  define e where "e = \<lparr>cr_address = t, cr_authenticated = False, global_prev = None, global_next = None,
      route_prev = None, route_next = None :: 'a option\<rparr>"
  have "staged (d2\<lparr>addr_map := hm_insert x e (addr_map d2)\<rparr>) sc
      ((lookup c2)(x := eview (hm_insert x e (addr_map d2)) x)) c2"
    using r2 nk by (intro staged_change) (auto simp: refines_def staged_def holds_def hm_get_insert hm_ok_insert)
  then have s: "staged (d2\<lparr>addr_map := hm_insert x e (addr_map d2)\<rparr>) sc ((lookup c2)(x \<mapsto> (t, False))) c2"
    by (simp add: view_def hm_get_insert e_def)
  have "refines (link_route_front x (nt_route t) False (link_global_front x False
      (d2\<lparr>addr_map := hm_insert x e (addr_map d2)\<rparr>))) sc (push_key x t False c2)"
    using staged_attach [OF s _ nk, where t = t and b = False] nk
    by (simp add: refines_def lookup_push)
  moreover have "admit x t False d = link_route_front x (nt_route t) False (link_global_front x False
      (d2\<lparr>addr_map := hm_insert x e (addr_map d2)\<rparr>))"
    unfolding admit_def Let_def d1_def [symmetric] d2_def [symmetric] using room by (simp add: e_def)
  ultimately show ?thesis by (simp add: sa)
qed

subsection \<open>The public operations\<close>

definition spec_learn :: "'a \<Rightarrow> NodeTransportAddress \<Rightarrow> 'a cache \<Rightarrow> 'a cache" where
  "spec_learn x t c = (case lookup c x of
     Some (t0, b) \<Rightarrow> if nt_route t0 = nt_route t then push_key x t (b \<and> nt_epoch t0 = nt_epoch t) (drop_key x c)
                     else spec_admit x t (drop_key x c)
   | None \<Rightarrow> spec_admit x t c)"

definition spec_authenticate :: "'a \<Rightarrow> NodeTransportAddress \<Rightarrow> 'a cache \<Rightarrow> 'a cache" where
  "spec_authenticate x t c =
     (if map_option fst (lookup c x) = Some t then push_key x t True (drop_key x c) else c)"

definition spec_unregister :: "ClientRoute \<Rightarrow> 'a cache \<Rightarrow> 'a list \<times> 'a cache" where
  "spec_unregister r c = (rlist c r False @ rlist c r True, \<lambda>b. filter (\<lambda>p. \<not> on_route r p) (c b))"

text \<open>The route a packet names, if it is a bootstrap packet for this node.\<close>

definition hint :: "NodeScope \<Rightarrow> u8 list \<Rightarrow> NodeTransportAddress option" where
  "hint sc data = (case classify_bootstrap data sc of
     Route shard slot epoch \<Rightarrow>
       map_option (\<lambda>p. \<lparr>nt_route = ClientRoute p, nt_epoch = epoch\<rparr>) (packed_new (unat shard) slot)
   | NotStun \<Rightarrow> None | Reject _ \<Rightarrow> None)"

definition spec_demux :: "NodeScope \<Rightarrow> 'a \<Rightarrow> u8 list \<Rightarrow> 'a cache \<Rightarrow> NodeTransportAddress option \<times> 'a cache" where
  "spec_demux sc x data c = (case hint sc data of
     None \<Rightarrow> (map_option fst (lookup c x), spec_touch x c)
   | Some t \<Rightarrow> (Some t, if map_option fst (lookup c x) = Some t then spec_touch x c
                        else spec_admit x t (drop_key x c)))"

lemma learn_refines:
  assumes "refines d sc c" and "cache_bounded c"
  shows "refines (learn x t d) sc (spec_learn x t c)"
  using assms(1)
proof (cases rule: refines_get_cases [where x = x])
  case absent
  then show ?thesis using admit_refines [OF assms] by (simp add: learn_def spec_learn_def)
next
  case (present e t0 b)
  show ?thesis
  proof (cases "nt_route t0 = nt_route t")
    case True
    show ?thesis
      using relink_refines [OF assms(1) present(2), of t "\<lambda>e. e\<lparr>cr_address := t, cr_authenticated := b \<and> nt_epoch t0 = nt_epoch t\<rparr>"
          "b \<and> nt_epoch t0 = nt_epoch t"] True present
      by (simp add: learn_def spec_learn_def Let_def)
  next
    case False
    then show ?thesis
      using admit_refines [OF remove_entry_refines [OF assms(1), of x] bounded_drop [OF assms(2)]] present
      by (simp add: learn_def spec_learn_def forget_def)
  qed
qed

lemma authenticate_refines:
  assumes "refines d sc c"
  shows "refines (authenticate x t d) sc (spec_authenticate x t c)"
  using assms(1)
proof (cases rule: refines_get_cases [where x = x])
  case absent
  then show ?thesis using assms by (simp add: authenticate_def spec_authenticate_def)
next
  case (present e t0 b)
  show ?thesis
  proof (cases "t0 = t \<and> \<not> b")
    case True
    show ?thesis
      using relink_refines [OF assms(1) present(2), of t "\<lambda>e. e\<lparr>cr_authenticated := True\<rparr>" True] True present
      by (simp add: authenticate_def spec_authenticate_def Let_def)
  next
    case False
    then show ?thesis
      using touch_refines [OF assms, of x] present assms
      by (auto simp: authenticate_def spec_authenticate_def spec_touch_def)
  qed
qed

declare unregister_loop.simps [simp del]

lemma unregister_loop_refines:
  assumes "refines d sc c" and "length freed + route_size r c \<le> MAX_ADDRS_PER_ROUTE"
  shows "\<exists>d'. unregister_loop r freed d = Some (freed @ fst (spec_unregister r c), d') \<and>
     refines d' sc (snd (spec_unregister r c))"
  using assms
proof (induction "route_size r c" arbitrary: freed d c rule: less_induct)
  case less
  define vs where "vs = filter (on_route r) (c False) @ filter (on_route r) (c True)"
  have free: "fst (spec_unregister r c) = map fst vs" by (simp add: spec_unregister_def rlist_def vs_def)
  have next_addr: "Option.bind (hm_get (route_addrs d) r)
      (\<lambda>ls. or_else (lru_head (rls_unauthenticated ls)) (lru_head (rls_authenticated ls))) = map_option fst (heado vs)"
    unfolding route_ends(2) [OF less.prems(1)] by (auto simp: vs_def heado_append or_else_def split: option.split)
  have size: "route_size r c = length vs" by (simp add: route_size_def vs_def)
  show ?case
  proof (cases vs)
    case Nil
    then have "filter (\<lambda>p. \<not> on_route r p) (c b) = c b" for b
      by (cases b) (auto simp: vs_def filter_empty_conv filter_id_conv)
    then have "snd (spec_unregister r c) = c" by (simp add: spec_unregister_def)
    then show ?thesis using Nil less.prems(1)
      by (subst unregister_loop.simps) (simp add: next_addr free)
  next
    case (Cons p rest)
    obtain x t where p: "p = (x, t)" by (cases p)
    have "p \<in> set vs" using Cons by simp
    then obtain b where b: "(x, t) \<in> set (c b)" "on_route r (x, t)" using p by (auto simp: vs_def)
    have ok: "cache_ok c" using less.prems(1) by (simp add: refines_def staged_def)
    have only: "t' = t" if "(x, t') \<in> set (c b')" for t' b'
    proof -
      have "(x, t) \<in> set (c True @ c False)" "(x, t') \<in> set (c True @ c False)"
        using b(1) that by (cases b, simp_all) (cases b', simp_all)
      then show ?thesis using ok eq_key_imp_eq_value unfolding cache_ok_def by metis
    qed
    have "distinct (map fst vs)" using ok
      by (auto simp: vs_def cache_ok_def distinct_map_filter)
    then have nx: "x \<notin> fst ` set rest" by (simp add: Cons p)
    have "filter (on_route r) (drop_key x c False) @ filter (on_route r) (drop_key x c True) =
        filter (\<lambda>p. fst p \<noteq> x) vs"
      by (simp only: filter_drop vs_def filter_append)
    then have rest: "filter (on_route r) (drop_key x c False) @ filter (on_route r) (drop_key x c True) = rest"
      using nx by (simp add: Cons p filter_key_absent)
    then have free': "fst (spec_unregister r (drop_key x c)) = map fst rest"
      by (simp only: spec_unregister_def rlist_def fst_conv map_append [symmetric])
    have "filter (\<lambda>p. \<not> on_route r p) (drop_key x c b') = filter (\<lambda>p. \<not> on_route r p) (c b')" for b'
      unfolding filter_drop by (rule filter_key_absent) (use only b(2) in auto)
    then have keep: "snd (spec_unregister r (drop_key x c)) = snd (spec_unregister r c)"
      by (simp add: spec_unregister_def)
    have size': "route_size r (drop_key x c) = length rest"
      using rest [THEN arg_cong, of length] by (simp add: route_size_def)
    have "length freed < MAX_ADDRS_PER_ROUTE" using less.prems(2) by (simp add: size Cons)
    then have step: "unregister_loop r freed d = unregister_loop r (freed @ [x]) (snd (remove_entry x d))"
      by (subst unregister_loop.simps) (simp add: next_addr Cons p Let_def)
    have "\<exists>d'. unregister_loop r (freed @ [x]) (snd (remove_entry x d)) =
        Some ((freed @ [x]) @ fst (spec_unregister r (drop_key x c)), d') \<and>
        refines d' sc (snd (spec_unregister r (drop_key x c)))"
      using less.prems by (intro less.hyps remove_entry_refines) (simp_all add: size size' Cons)
    then show ?thesis by (simp add: step free free' keep Cons p)
  qed
qed

lemma packed_of_transport: "packed_new (unat (route_shard r)) (route_slot r) = Some (PackedRoute (route_get r))"
proof -
  have "unat (route_shard r) = unat (drop_bit 20 (route_get r))"
  proof -
    have "unat (drop_bit 20 (route_get r)) < 2 ^ 16"
      using unat_bounds(3) [of "route_get r"] by (simp add: unat_drop_bit)
    then show ?thesis by (simp add: route_shard_def ROUTE_SLOT_BITS_def unsigned_ucast_eq take_bit_nat_eq_self)
  qed
  then show ?thesis
    by (simp add: packed_new_iff packed_shard_def packed_slot_def route_slot_bits PACKED_SLOT_BITS_def packed_masks
        take_bit_eq_mask)
qed

lemma classify_packs:
  assumes "classify_bootstrap data sc = Route shard slot epoch"
  obtains p where "packed_new (unat shard) slot = Some p"
proof -
  obtain u where "shard = route_shard u" "slot = route_slot u"
    using assms by (auto simp: classify_bootstrap_def split: if_splits option.splits sum.splits)
  then show ?thesis using that packed_of_transport by blast
qed

lemma cached_refines:
  assumes "refines d sc c"
  shows "fst (cached x d) = map_option fst (lookup c x) \<and> refines (snd (cached x d)) sc (spec_touch x c)"
  using assms
proof (cases rule: refines_get_cases [where x = x])
  case absent
  then show ?thesis using assms by (simp add: cached_def spec_touch_def)
next
  case (present e t b)
  then show ?thesis using touch_refines [OF assms, of x] by (simp add: cached_def)
qed

lemma demux_refines:
  assumes "refines d sc c" and "cache_bounded c"
  shows "\<exists>d'. demux x data d = Some (fst (spec_demux sc x data c), d') \<and> refines d' sc (snd (spec_demux sc x data c))"
proof -
  have sc: "\<lparr>ns_cluster_id = dm_cluster_id d, ns_node_id = dm_node_id d, ns_shard_count = dm_shard_count d\<rparr> = sc"
    using assms(1) by (simp add: refines_def staged_def holds_def scope_of_def)
  have get: "map_option cr_address (hm_get (addr_map d) x) = map_option fst (lookup c x)"
    using refines_get [OF assms(1), of x, symmetric] by (simp add: option.map_comp o_def)
  have admit: "refines (admit x t False (forget x d)) sc (spec_admit x t (drop_key x c))" for t
    unfolding forget_def
    by (rule admit_refines [OF remove_entry_refines [OF assms(1)] bounded_drop [OF assms(2)] drop_not_key])
  show ?thesis
  proof (cases "hint sc data")
    case None
    then have "demux x data d = Some (cached x d)"
      by (auto simp: demux_def hint_def sc split: Bootstrap.splits elim: classify_packs)
    then show ?thesis using cached_refines [OF assms(1), of x] None
      by (cases "cached x d") (simp add: spec_demux_def)
  next
    case (Some t)
    then obtain shard slot epoch p where b: "classify_bootstrap data sc = Route shard slot epoch"
      "packed_new (unat shard) slot = Some p" "t = \<lparr>nt_route = ClientRoute p, nt_epoch = epoch\<rparr>"
      by (auto simp: hint_def split: Bootstrap.splits)
    then have "is_stun data" by (auto simp: classify_bootstrap_def split: if_splits)
    then have "demux x data d = Some (Some t, if map_option fst (lookup c x) = Some t then touch x d
        else admit x t False (forget x d))"
      using b by (simp add: demux_def sc get Let_def)
    then show ?thesis using Some admit touch_refines [OF assms(1), of x] by (simp add: spec_demux_def)
  qed
qed

lemma bounded_touch: "cache_bounded c \<Longrightarrow> cache_ok c \<Longrightarrow> cache_bounded (spec_touch x c)"
  by (auto simp: spec_touch_def bounded_relink split: option.split)

lemma refines_ok: "refines d sc c \<Longrightarrow> cache_ok c"
  by (simp add: refines_def staged_def)

lemma unregister_sizes: "psize (Q :: 'a \<times> NodeTransportAddress \<Rightarrow> bool) (snd (spec_unregister r c)) \<le> psize Q c"
proof -
  have "length (filter Q (filter P xs)) \<le> length (filter Q xs)" for P :: "'a \<times> NodeTransportAddress \<Rightarrow> bool" and xs
    by (induction xs) auto
  then show ?thesis unfolding psize_def spec_unregister_def snd_conv by (intro add_mono)
qed

subsection \<open>Runs\<close>

text \<open>The calls of the shard and what each returns.\<close>

datatype 'a demux_call = Packet 'a "u8 list" | Learned 'a NodeTransportAddress
  | Authenticated 'a NodeTransportAddress | Unregistered ClientRoute

datatype 'a demux_result = Routed "NodeTransportAddress option" | Freed "'a list" | Done

fun demux_step :: "'a demux_call \<Rightarrow> 'a Demuxer \<Rightarrow> ('a demux_result \<times> 'a Demuxer) option" where
  "demux_step (Packet x data) d = map_option (\<lambda>(t, d). (Routed t, d)) (demux x data d)"
| "demux_step (Learned x t) d = Some (Done, learn x t d)"
| "demux_step (Authenticated x t) d = Some (Done, authenticate x t d)"
| "demux_step (Unregistered r) d = map_option (\<lambda>(freed, d). (Freed freed, d)) (unregister r d)"

fun demux_run :: "'a demux_call list \<Rightarrow> 'a Demuxer \<Rightarrow> ('a demux_result list \<times> 'a Demuxer) option" where
  "demux_run [] d = Some ([], d)"
| "demux_run (op # ops) d = Option.bind (demux_step op d)
     (\<lambda>(out, d). map_option (\<lambda>(outs, d). (out # outs, d)) (demux_run ops d))"

fun spec_step :: "NodeScope \<Rightarrow> 'a demux_call \<Rightarrow> 'a cache \<Rightarrow> 'a demux_result \<times> 'a cache" where
  "spec_step sc (Packet x data) c = map_prod Routed id (spec_demux sc x data c)"
| "spec_step sc (Learned x t) c = (Done, spec_learn x t c)"
| "spec_step sc (Authenticated x t) c = (Done, spec_authenticate x t c)"
| "spec_step sc (Unregistered r) c = map_prod Freed id (spec_unregister r c)"

fun spec_run :: "NodeScope \<Rightarrow> 'a demux_call list \<Rightarrow> 'a cache \<Rightarrow> 'a demux_result list \<times> 'a cache" where
  "spec_run sc [] c = ([], c)"
| "spec_run sc (op # ops) c =
     (let (out, c) = spec_step sc op c; (outs, c) = spec_run sc ops c in (out # outs, c))"

lemma spec_step_bounded:
  assumes "cache_bounded c" and "cache_ok c"
  shows "cache_bounded (snd (spec_step sc op c))"
proof (cases op)
  case (Packet x data)
  then show ?thesis using assms
    by (auto simp: spec_demux_def bounded_touch bounded_admit bounded_drop split: option.split)
next
  case (Learned x t)
  then show ?thesis using assms
    by (auto simp: spec_learn_def bounded_admit bounded_drop bounded_relink split: option.split)
next
  case (Authenticated x t)
  then show ?thesis using assms by (auto simp: spec_authenticate_def bounded_relink)
next
  case (Unregistered r)
  then show ?thesis using assms(1) unfolding cache_bounded_psize
    by (auto intro: order_trans [OF unregister_sizes])
qed

lemma demux_step_refines:
  assumes "refines d sc c" and "cache_bounded c"
  shows "\<exists>d'. demux_step op d = Some (fst (spec_step sc op c), d') \<and> refines d' sc (snd (spec_step sc op c))"
proof (cases op)
  case (Packet x data)
  then show ?thesis using demux_refines [OF assms, of x data] by auto
next
  case (Learned x t)
  then show ?thesis using learn_refines [OF assms] by simp
next
  case (Authenticated x t)
  then show ?thesis using authenticate_refines [OF assms(1)] by simp
next
  case (Unregistered r)
  then show ?thesis using unregister_loop_refines [OF assms(1), of "[]" r] assms(2)
    by (auto simp: unregister_def cache_bounded_def)
qed

lemma demux_run_refines:
  assumes "refines d sc c" and "cache_bounded c"
  shows "\<exists>d'. demux_run ops d = Some (fst (spec_run sc ops c), d') \<and>
     refines d' sc (snd (spec_run sc ops c)) \<and> cache_bounded (snd (spec_run sc ops c))"
  using assms
proof (induction ops arbitrary: d c)
  case Nil
  then show ?case by simp
next
  case (Cons op ops)
  obtain d1 where d1: "demux_step op d = Some (fst (spec_step sc op c), d1)" "refines d1 sc (snd (spec_step sc op c))"
    using demux_step_refines [OF Cons.prems] by blast
  have "cache_bounded (snd (spec_step sc op c))"
    using Cons.prems refines_ok by (blast intro: spec_step_bounded)
  from Cons.IH [OF d1(2) this] obtain d2 where
    "demux_run ops d1 = Some (fst (spec_run sc ops (snd (spec_step sc op c))), d2)"
    "refines d2 sc (snd (spec_run sc ops (snd (spec_step sc op c))))"
    "cache_bounded (snd (spec_run sc ops (snd (spec_step sc op c))))" by blast
  then show ?case using d1(1) by (simp add: case_prod_unfold Let_def)
qed

lemma for_node_refines:
  "refines (for_node cluster node shards) \<lparr>ns_cluster_id = cluster, ns_node_id = node, ns_shard_count = shards\<rparr> (\<lambda>_. [])"
  by (auto simp: refines_def staged_def cache_ok_def holds_def globals_def route_lists_def for_node_def scope_of_def
      hm_ok_def view_def hm_get_def lookup_def glist_def rlist_def list_get_def lru_default_of lists_of_def fun_eq_iff)

lemma empty_bounded: "cache_bounded (\<lambda>_. [])"
  by (simp add: cache_bounded_def cache_size_def route_size_def)

lemma lookup_mem:
  assumes "cache_ok c"
  shows "lookup c x = Some (t, b) \<longleftrightarrow> (x, t) \<in> set (c b)"
proof
  show "(x, t) \<in> set (c b)" if "lookup c x = Some (t, b)"
    using lookup_split [OF assms that] by (metis in_set_conv_decomp)
  have d: "distinct (map fst (c True))" "distinct (map fst (c False))" "fst ` set (c True) \<inter> fst ` set (c False) = {}"
    using assms by (simp_all add: cache_ok_def)
  assume m: "(x, t) \<in> set (c b)"
  show "lookup c x = Some (t, b)"
  proof (cases b)
    case True
    then show ?thesis using m d(1) by (simp add: lookup_def)
  next
    case False
    then have "map_of (c True) x = None" using m d(3) by (force simp: map_of_eq_None_iff)
    then show ?thesis using m d(2) False by (simp add: lookup_def)
  qed
qed

lemma run_state:
  assumes "demux_run ops (for_node cluster node shards) = Some (outs, d)"
  obtains sc c where "refines d sc c" "cache_bounded c" "cache_ok c"
proof -
  obtain d' sc c where "demux_run ops (for_node cluster node shards) = Some (outs, d) \<longrightarrow> d = d'"
      "refines d' sc c" "cache_bounded c"
    using demux_run_refines [OF for_node_refines [of cluster node shards] empty_bounded, of ops]
    by (metis Pair_inject option.inject)
  then show ?thesis using that assms refines_ok by blast
qed

lemma cache_ok_unregister: "cache_ok c \<Longrightarrow> cache_ok (snd (spec_unregister r c))"
  by (auto simp: cache_ok_def spec_unregister_def distinct_map_filter)

lemma evicted_from:
  assumes "cache_ok c" and "(x, t) \<in> set (c b)" and "(x, t) \<notin> set (spec_evict P c b)"
  shows "spec_evict P c = drop_key x c" and "P (x, t)" and "b \<longrightarrow> filter P (c False) = []"
proof -
  obtain y u where v: "or_else (lasto (filter P (c False))) (lasto (filter P (c True))) = Some (y, u)"
    using assms(2,3) by (fastforce simp: spec_evict_def split: option.splits)
  then have e: "spec_evict P c = drop_key y c" by (simp add: spec_evict_def)
  then have "x = y" using assms(2,3) by (auto simp: drop_key_def)
  moreover obtain b' where b': "lasto (filter P (c b')) = Some (y, u)" "b' \<longrightarrow> filter P (c False) = []"
    using v by (auto simp: or_else_def split: option.splits)
  then have "(y, u) \<in> set (c b')" "P (y, u)" by (auto dest: lasto_in)
  ultimately have "lookup c x = Some (u, b')" "lookup c x = Some (t, b)" using lookup_mem [OF assms(1)] assms(2) by auto
  then show "spec_evict P c = drop_key x c" "P (x, t)" "b \<longrightarrow> filter P (c False) = []"
    using e \<open>x = y\<close> b' \<open>P (y, u)\<close> by auto
qed

subsection \<open>What the shard relies on\<close>

text \<open>
  C18. For every sequence of calls on a fresh demultiplexer of a node, no call panics, and every call
  returns what the specification by two plain lists returns: the intrusive lists threaded through the
  hash map always represent those lists, globally and per route.
\<close>

theorem demux_simulates:
  "\<exists>d. demux_run ops (for_node cluster node shards) =
      Some (fst (spec_run \<lparr>ns_cluster_id = cluster, ns_node_id = node, ns_shard_count = shards\<rparr> ops (\<lambda>_. [])), d) \<and>
    refines d \<lparr>ns_cluster_id = cluster, ns_node_id = node, ns_shard_count = shards\<rparr>
      (snd (spec_run \<lparr>ns_cluster_id = cluster, ns_node_id = node, ns_shard_count = shards\<rparr> ops (\<lambda>_. [])))"
  using demux_run_refines [OF for_node_refines empty_bounded] by blast

text \<open>
  C21. After any sequence of calls the cache holds at most 65536 addresses and at most 16 for a route,
  and its count of a route is the number of addresses cached for it.
\<close>

theorem demux_bounds:
  assumes "demux_run ops (for_node cluster node shards) = Some (outs, d)"
  shows "length (addr_map d) \<le> 65536 \<and> route_len r d \<le> 16 \<and>
    route_len r d = length (filter (\<lambda>(x, e). nt_route (cr_address e) = r) (addr_map d))"
proof -
  obtain sc c where r: "refines d sc c" "cache_bounded c" "cache_ok c" using run_state [OF assms] .
  have bounds: "length (addr_map d) \<le> 65536" "route_len r d \<le> 16"
    using r(2) route_len_refines [OF r(1), of r] addr_map_length [OF r(1)]
    by (simp_all add: cache_bounded_def MAX_ADDR_ENTRIES_def MAX_ADDRS_PER_ROUTE_def)
  have ok: "distinct (map fst (addr_map d))" using r(1) by (simp add: refines_def staged_def holds_def hm_ok_def)
  let ?f = "filter (\<lambda>(x, e). nt_route (cr_address e) = r) (addr_map d)"
  have "x \<in> fst ` set ?f \<longleftrightarrow> x \<in> set (rlist c r True @ rlist c r False)" for x
  proof -
    have "x \<in> fst ` set ?f \<longleftrightarrow> (\<exists>e. hm_get (addr_map d) x = Some e \<and> nt_route (cr_address e) = r)"
      using ok by (force simp: hm_get_def image_iff)
    also have "\<dots> \<longleftrightarrow> (\<exists>t b. lookup c x = Some (t, b) \<and> nt_route t = r)"
      unfolding refines_get [OF r(1), of x, symmetric] by (auto simp: map_option_case split: option.splits)
    also have "\<dots> \<longleftrightarrow> x \<in> set (rlist c r True @ rlist c r False)"
      using lookup_mem [OF r(3)] by (auto simp: rlist_def on_route_def image_iff) (metis (full_types))+
    finally show ?thesis .
  qed
  then have "fst ` set ?f = set (rlist c r True @ rlist c r False)" by blast
  moreover have "card (fst ` set ?f) = length ?f"
    using distinct_card [of "map fst ?f"] ok by (simp add: distinct_map_filter)
  moreover have "distinct (rlist c r True @ rlist c r False)"
    using r(3) by (auto simp: rlist_def cache_ok_def distinct_map_filter)
  ultimately have "length ?f = length (rlist c r True @ rlist c r False)" by (metis distinct_card)
  then show ?thesis using bounds route_len_refines [OF r(1), of r] by (simp add: route_size_def rlist_def)
qed

theorem demux_bounds_witness:
  "\<exists>outs d. demux_run [Learned (1 :: nat) \<lparr>nt_route = ClientRoute (PackedRoute 7), nt_epoch = 0\<rparr>,
        Learned 2 \<lparr>nt_route = ClientRoute (PackedRoute 7), nt_epoch = 0\<rparr>] (for_node 5 9 4) = Some (outs, d) \<and>
      route_len (ClientRoute (PackedRoute 7)) d = 2 \<and> length (addr_map d) \<le> 65536 \<and>
      length (filter (\<lambda>(x, e). nt_route (cr_address e) = ClientRoute (PackedRoute 7)) (addr_map d)) = 2"
proof -
  let ?ops = "[Learned (1 :: nat) \<lparr>nt_route = ClientRoute (PackedRoute 7), nt_epoch = 0\<rparr>,
        Learned 2 \<lparr>nt_route = ClientRoute (PackedRoute 7), nt_epoch = 0\<rparr>]"
  have "case demux_run ?ops (for_node 5 9 4) of Some (outs, d) \<Rightarrow> route_len (ClientRoute (PackedRoute 7)) d = 2 | None \<Rightarrow> False"
    by code_simp
  then obtain outs d where "demux_run ?ops (for_node 5 9 4) = Some (outs, d)" "route_len (ClientRoute (PackedRoute 7)) d = 2"
    by (auto split: option.splits)
  with demux_bounds [OF this(1), of "ClientRoute (PackedRoute 7)"] show ?thesis by auto
qed

text \<open>
  C20. Unregistering a route in any reachable state returns, without a panic, exactly the addresses
  cached for the route, each once, forgets them, and keeps every other address with its route.
\<close>

theorem unregister_exact:
  assumes "demux_run ops (for_node cluster node shards) = Some (outs, d)"
  shows "\<exists>freed d'. unregister r d = Some (freed, d') \<and> distinct freed \<and>
    (\<forall>x. x \<in> set freed \<longleftrightarrow> (\<exists>e. hm_get (addr_map d) x = Some e \<and> nt_route (cr_address e) = r)) \<and>
    (\<forall>x. map_option cr_address (hm_get (addr_map d') x) =
       (if x \<in> set freed then None else map_option cr_address (hm_get (addr_map d) x)))"
proof -
  obtain sc c where r: "refines d sc c" "cache_bounded c" "cache_ok c" using run_state [OF assms] .
  obtain d' where d': "unregister r d = Some (fst (spec_unregister r c), d')" "refines d' sc (snd (spec_unregister r c))"
    using unregister_loop_refines [OF r(1), of "[]" r] r(2) by (auto simp: unregister_def cache_bounded_def)
  have addr: "map_option cr_address (hm_get (addr_map d) x) = map_option fst (lookup c x)"
    if "refines d sc c" for d c x
    using refines_get [OF that, of x, symmetric] by (simp add: option.map_comp o_def)
  have mem: "x \<in> set (fst (spec_unregister r c)) \<longleftrightarrow> (\<exists>t. map_option fst (lookup c x) = Some t \<and> nt_route t = r)" for x
    using lookup_mem [OF r(3)]
    by (auto simp: spec_unregister_def rlist_def on_route_def image_iff) (metis (full_types))+
  have left: "lookup (snd (spec_unregister r c)) x =
      (if x \<in> set (fst (spec_unregister r c)) then None else lookup c x)" for x
  proof (cases "lookup (snd (spec_unregister r c)) x")
    case None
    then have "(x, t) \<notin> set (snd (spec_unregister r c) b)" for t b
      using lookup_mem [OF cache_ok_unregister [OF r(3)]] by (metis option.distinct(1))
    then have "lookup c x = Some (t, b) \<Longrightarrow> nt_route t = r" for t b
      using lookup_mem [OF r(3)] by (auto simp: spec_unregister_def on_route_def)
    then show ?thesis using None mem by (cases "lookup c x") auto
  next
    case (Some p)
    then obtain t b where "p = (t, b)" "(x, t) \<in> set (snd (spec_unregister r c) b)"
      using lookup_mem [OF cache_ok_unregister [OF r(3)]] by (cases p) auto
    then have "lookup c x = Some p" "nt_route t \<noteq> r" "p = (t, b)"
      using lookup_mem [OF r(3)] by (auto simp: spec_unregister_def on_route_def)
    then show ?thesis using Some mem by auto
  qed
  have "distinct (fst (spec_unregister r c))"
    using r(3) by (auto simp: spec_unregister_def rlist_def cache_ok_def distinct_map_filter)
  moreover have "x \<in> set (fst (spec_unregister r c)) \<longleftrightarrow>
      (\<exists>e. hm_get (addr_map d) x = Some e \<and> nt_route (cr_address e) = r)" for x
    unfolding mem addr [OF r(1), symmetric] by auto
  moreover have "map_option cr_address (hm_get (addr_map d') x) =
      (if x \<in> set (fst (spec_unregister r c)) then None else map_option cr_address (hm_get (addr_map d) x))" for x
    by (simp only: addr [OF d'(2)] addr [OF r(1)] left) simp
  ultimately show ?thesis using d'(1) by blast
qed

theorem unregister_exact_witness:
  "\<exists>outs d d'. demux_run [Learned (1 :: nat) \<lparr>nt_route = ClientRoute (PackedRoute 7), nt_epoch = 0\<rparr>,
        Learned 2 \<lparr>nt_route = ClientRoute (PackedRoute 8), nt_epoch = 0\<rparr>] (for_node 5 9 4) = Some (outs, d) \<and>
      unregister (ClientRoute (PackedRoute 7)) d = Some ([1], d') \<and> hm_get (addr_map d') 1 = None \<and>
      map_option cr_address (hm_get (addr_map d') 2) = Some \<lparr>nt_route = ClientRoute (PackedRoute 8), nt_epoch = 0\<rparr>"
proof -
  let ?ops = "[Learned (1 :: nat) \<lparr>nt_route = ClientRoute (PackedRoute 7), nt_epoch = 0\<rparr>,
        Learned 2 \<lparr>nt_route = ClientRoute (PackedRoute 8), nt_epoch = 0\<rparr>]"
  have "case demux_run ?ops (for_node 5 9 4) of Some (outs, d) \<Rightarrow>
      map_option fst (unregister (ClientRoute (PackedRoute 7)) d) = Some [1] \<and>
      map_option cr_address (hm_get (addr_map d) 2) = Some \<lparr>nt_route = ClientRoute (PackedRoute 8), nt_epoch = 0\<rparr>
    | None \<Rightarrow> False"
    by code_simp
  then obtain outs d where d: "demux_run ?ops (for_node 5 9 4) = Some (outs, d)"
    "map_option fst (unregister (ClientRoute (PackedRoute 7)) d) = Some [1]"
    "map_option cr_address (hm_get (addr_map d) 2) = Some \<lparr>nt_route = ClientRoute (PackedRoute 8), nt_epoch = 0\<rparr>"
    by (auto split: option.splits)
  obtain freed d' where "unregister (ClientRoute (PackedRoute 7)) d = Some (freed, d')"
    "\<forall>x. map_option cr_address (hm_get (addr_map d') x) =
       (if x \<in> set freed then None else map_option cr_address (hm_get (addr_map d) x))"
    using unregister_exact [OF d(1), of "ClientRoute (PackedRoute 7)"] by auto
  then show ?thesis using d by (auto dest: spec [of _ 1] spec [of _ 2])
qed

lemma cache_ok_evict: "cache_ok c \<Longrightarrow> cache_ok (spec_evict P c)"
  by (auto simp: spec_evict_def cache_ok_drop split: option.split)

lemma lookup_in_keys: "lookup c x = Some p \<Longrightarrow> x \<in> keys c"
  by (metis lookup_None option.distinct(1))

lemma mem_in_keys: "(x, u) \<in> set (c b) \<Longrightarrow> x \<in> keys c"
  by (cases b) (force simp: keys_def)+

lemma keys_touch: "keys (spec_touch x c) = keys c"
  by (auto simp: spec_touch_def keys_push keys_drop lookup_in_keys split: option.splits)

lemma evicted_by_admit:
  assumes "refines d sc c" and "cache_bounded c" and "demux y data d = Some (out, d')"
    and "hm_get (addr_map d') x = None" and "x \<in> keys c"
  obtains t where "x \<notin> keys (spec_admit y t (drop_key y c))"
proof -
  have "refines d' sc (snd (spec_demux sc y data c))"
    using demux_refines [OF assms(1,2), of y data] assms(3) by auto
  from refines_get [OF this, of x] have "x \<notin> keys (snd (spec_demux sc y data c))"
    using assms(4) by (metis lookup_None option.simps(8))
  then show ?thesis
    using that assms(5) by (auto simp: spec_demux_def keys_touch split: option.splits if_splits)
qed

lemma admit_evicts_last:
  fixes c :: "'a cache"
  assumes ok: "cache_ok c" and bound: "cache_bounded c" and x: "(x, u) \<in> set (c True)"
    and gone: "x \<notin> keys (spec_admit y t c)"
  shows "(psize (\<lambda>_. True) c = 65536 \<or> psize (on_route (nt_route u)) c = 16) \<and>
    (\<forall>(z, s)\<in>set (c False). nt_route s \<noteq> nt_route u)"
proof -
  define P :: "'a \<times> NodeTransportAddress \<Rightarrow> bool" where "P = on_route (nt_route t)"
  define c1 where "c1 = (if cache_size c \<ge> MAX_ADDR_ENTRIES then spec_evict (\<lambda>_. True) c else c)"
  define c2 where "c2 = (if route_size (nt_route t) c1 \<ge> MAX_ADDRS_PER_ROUTE then spec_evict P c1 else c1)"
  have "spec_admit y t c = push_key y t False c2"
    unfolding spec_admit_def Let_def c1_def [symmetric] c2_def [symmetric] P_def [symmetric] ..
  then have x2: "(x, v) \<notin> set (c2 b)" for v b
    using gone mem_in_keys [of x v c2 b] by (auto simp: keys_push)
  have cap: "psize P c \<le> 16" "psize (\<lambda>_. True) c \<le> 65536"
    using bound by (simp_all add: cache_bounded_psize MAX_ADDR_ENTRIES_def MAX_ADDRS_PER_ROUTE_def P_def)
  show ?thesis
  proof (cases "(x, u) \<in> set (c1 True)")
    case False
    then have full: "cache_size c \<ge> MAX_ADDR_ENTRIES" and c1: "c1 = spec_evict (\<lambda>_. True) c"
      using x by (auto simp: c1_def split: if_splits)
    have "c False = []"
      using evicted_from(3) [where P = "\<lambda>_. True" and b = True, OF ok x] False c1 by simp
    then show ?thesis
      using full cap(2) by (simp add: psize_sizes MAX_ADDR_ENTRIES_def MAX_ADDRS_PER_ROUTE_def)
  next
    case True
    then have full: "psize P c1 \<ge> 16" and c2: "c2 = spec_evict P c1"
      using x2 [of u True] by (auto simp: c2_def psize_sizes P_def MAX_ADDRS_PER_ROUTE_def split: if_splits)
    have ok1: "cache_ok c1" using ok by (simp add: c1_def cache_ok_evict)
    have P: "P (x, u)" "filter P (c1 False) = []"
      using evicted_from(2,3) [where P = P and b = True, OF ok1 True] x2 c2 by auto
    have "psize P c1 \<le> psize P c" by (simp add: c1_def spec_evict_le)
    then have eq: "psize P c = 16" "psize P c1 = 16" using full cap(1) by auto
    have "\<not> P (z, s)" if z: "(z, s) \<in> set (c False)" for z s
    proof
      assume p: "P (z, s)"
      then have out: "(z, s) \<notin> set (c1 False)" using P(2) by (auto simp: filter_empty_conv)
      then have "c1 = spec_evict (\<lambda>_. True) c" using z by (auto simp: c1_def split: if_splits)
      then have "c1 = drop_key z c" using evicted_from(1) [OF ok z] out by simp
      then show False using psize_drop_less [of z s c False P] z p eq by simp
    qed
    then show ?thesis using P(1) eq(1) by (fastforce simp: P_def on_route_def)
  qed
qed

text \<open>
  C19. An authenticated address loses its cache entry to another source's packet only when the cache
  or its route is full and no other address of its route is cached without being authenticated: an
  attacker that forges bootstrap packets displaces unauthenticated addresses first.
\<close>

theorem authenticated_evicted_last:
  fixes x :: 'a
  assumes "demux_run ops (for_node cluster node shards) = Some (outs, d)"
    and "hm_get (addr_map d) x = Some e" and "cr_authenticated e" and "x \<noteq> y"
    and "demux y data d = Some (out, d')" and "hm_get (addr_map d') x = None"
  shows "(length (addr_map d) = 65536 \<or> route_len (nt_route (cr_address e)) d = 16) \<and>
    (\<forall>z f. z \<noteq> y \<and> hm_get (addr_map d) z = Some f \<and> \<not> cr_authenticated f \<longrightarrow>
       nt_route (cr_address f) \<noteq> nt_route (cr_address e))"
proof -
  obtain sc c where r: "refines d sc c" "cache_bounded c" "cache_ok c" using run_state [OF assms(1)] .
  have get: "hm_get (addr_map d) z = Some f \<Longrightarrow> (z, cr_address f) \<in> set (c (cr_authenticated f))" for z f
    using refines_get [OF r(1), of z] lookup_mem [OF r(3)] by (metis option.simps(9))
  have in0: "(z, cr_address f) \<in> set (drop_key y c (cr_authenticated f))"
    if "hm_get (addr_map d) z = Some f" "z \<noteq> y" for z f
    using get [OF that(1)] that(2) by (simp add: drop_key_def)
  have xk: "x \<in> keys c" using get [OF assms(2)] assms(3) by (force simp: keys_def)
  obtain t where gone: "x \<notin> keys (spec_admit y t (drop_key y c))"
    using evicted_by_admit [OF r(1,2) assms(5,6) xk] by blast
  have "(x, cr_address e) \<in> set (drop_key y c True)" using in0 [OF assms(2)] assms(3,4) by simp
  note last = admit_evicts_last [OF cache_ok_drop [OF r(3)] bounded_drop [OF r(2)] this gone]
  have "length (addr_map d) = psize (\<lambda>_. True) c" "route_len r' d = psize (on_route r') c" for r'
    using addr_map_length [OF r(1)] route_len_refines [OF r(1)] by (simp_all add: psize_sizes)
  moreover have "psize (on_route r') c \<le> 16" "psize (\<lambda>_. True) c \<le> 65536" for r'
    using r(2) by (simp_all add: cache_bounded_psize MAX_ADDR_ENTRIES_def MAX_ADDRS_PER_ROUTE_def)
  ultimately have "length (addr_map d) = 65536 \<or> route_len (nt_route (cr_address e)) d = 16"
    using last psize_drop_le [of "\<lambda>_. True" y c] psize_drop_le [of "on_route (nt_route (cr_address e))" y c]
    by (metis le_antisym)
  moreover have "nt_route (cr_address f) \<noteq> nt_route (cr_address e)"
    if "z \<noteq> y \<and> hm_get (addr_map d) z = Some f \<and> \<not> cr_authenticated f" for z f
    using in0 [of z f] that last by auto
  ultimately show ?thesis by blast
qed

lemma spec_run_append: "snd (spec_run sc (xs @ ys) c) = snd (spec_run sc ys (snd (spec_run sc xs c)))"
  by (induction xs arbitrary: c) (simp_all add: case_prod_unfold Let_def)

text \<open>A route filled with authenticated addresses.\<close>

definition filled :: "NodeTransportAddress \<Rightarrow> nat \<Rightarrow> nat cache" where
  "filled t n = (\<lambda>b. if b then map (\<lambda>i. (i, t)) (rev [0..<n]) else [])"

lemma run_filled:
  "n \<le> 16 \<Longrightarrow> snd (spec_run sc (concat (map (\<lambda>n. [Learned n t, Authenticated n t]) [0..<n])) (\<lambda>_. [])) = filled t n"
proof (induction n)
  case 0
  then show ?case by (simp add: filled_def fun_eq_iff)
next
  case (Suc n)
  have nk: "n \<notin> keys (filled t n)" by (auto simp: filled_def keys_def)
  have "cache_size (filled t n) = n" "route_size (nt_route t) (filled t n) = n"
    by (simp_all add: cache_size_def route_size_def filled_def on_route_def filter_map o_def)
  then have l: "spec_learn n t (filled t n) = push_key n t False (filled t n)"
    using nk Suc.prems
    by (simp add: spec_learn_def spec_admit_def MAX_ADDRS_PER_ROUTE_def MAX_ADDR_ENTRIES_def)
  have "drop_key n (push_key n t False (filled t n)) = filled t n"
    using drop_key_absent [OF nk] by (auto simp: drop_key_def push_key_def fun_eq_iff)
  then have "spec_authenticate n t (push_key n t False (filled t n)) = filled t (Suc n)"
    using nk by (auto simp: spec_authenticate_def lookup_push) (auto simp: push_key_def filled_def)
  then show ?case using Suc l by (simp add: spec_run_append Let_def)
qed

theorem authenticated_evicted_last_witness:
  "\<exists>outs d out d'. demux_run (concat (map (\<lambda>n. [Learned n \<lparr>nt_route = ClientRoute (PackedRoute 0x00300007), nt_epoch = 2\<rparr>,
        Authenticated n \<lparr>nt_route = ClientRoute (PackedRoute 0x00300007), nt_epoch = 2\<rparr>]) [0 :: nat..<16]))
        (for_node 5 9 4) = Some (outs, d) \<and>
      demux 99 ([0, 1, 0, 24, 0x21, 0x12, 0xA4, 0x42] @ replicate 12 7 @ [0, 6, 0, 18] @
        bytes ''002G02806000E002:A'' @ [0, 0]) d = Some (out, d') \<and>
      hm_get (addr_map d') 0 = None \<and> route_len (ClientRoute (PackedRoute 0x00300007)) d = 16"
proof -
  let ?t = "\<lparr>nt_route = ClientRoute (PackedRoute 0x00300007), nt_epoch = 2\<rparr>"
  let ?ops = "concat (map (\<lambda>n. [Learned n ?t, Authenticated n ?t]) [0 :: nat..<16])"
  let ?data = "[0, 1, 0, 24, 0x21, 0x12, 0xA4, 0x42] @ replicate 12 7 @ [0, 6, 0, 18] @
        bytes ''002G02806000E002:A'' @ [0, 0]"
  let ?sc = "\<lparr>ns_cluster_id = 5, ns_node_id = 9, ns_shard_count = 4\<rparr>"
  obtain outs d where d: "demux_run ?ops (for_node 5 9 4) = Some (outs, d)" "refines d ?sc (filled ?t 16)"
    "cache_bounded (filled ?t 16)"
    using demux_run_refines [OF for_node_refines [of 5 9 4] empty_bounded, of ?ops] run_filled [of 16 ?sc ?t] by auto
  obtain out d' where d': "demux 99 ?data d = Some (out, d')" "refines d' ?sc (snd (spec_demux ?sc 99 ?data (filled ?t 16)))"
    using demux_refines [OF d(2,3), of 99 ?data] by auto
  have hint: "hint ?sc ?data = Some ?t" by code_simp
  have nk: "99 \<notin> keys (filled ?t 16)" by (auto simp: filled_def keys_def)
  have "0 \<notin> keys (snd (spec_demux ?sc 99 ?data (filled ?t 16)))"
    unfolding spec_demux_def hint using nk
    by (simp add: drop_key_absent) code_simp
  then have "hm_get (addr_map d') 0 = None" using refines_get [OF d'(2), of 0] by simp
  moreover have "lookup (filled ?t 16) 0 = Some (?t, True)" by code_simp
  then obtain e where e: "hm_get (addr_map d) 0 = Some e" "cr_authenticated e" "cr_address e = ?t"
    using refines_get [OF d(2), of 0] by auto
  moreover have "length (addr_map d) = 16" using addr_map_length [OF d(2)] by (simp add: cache_size_def filled_def)
  ultimately have "route_len (ClientRoute (PackedRoute 0x00300007)) d = 16"
    using authenticated_evicted_last [OF d(1) e(1,2) _ d'(1)] by simp
  with d(1) d'(1) \<open>hm_get (addr_map d') 0 = None\<close> show ?thesis by blast
qed

end
