(* ===== verification/Timer.thy ===== *)
theory Timer
  imports Prelude Collections Threaded "HOL-Library.Code_Target_Nat"
begin

text \<open>
  The timer wheel of a shard, \<open>crates/pulsebeam/src/shard/timer.rs\<close>: 256 slots of doubly linked timers,
  a list of timers that are already due, and a bit per slot that says whether it is occupied.  Instants
  are integers of nanoseconds; the epoch, which the code reads from the clock, is an argument.  The
  debug assertions are not modelled.  The callback of \<open>drain_expired\<close> becomes the list of the keys
  it is called with, in order.
\<close>

unbundle bit_operations_syntax

subsection \<open>Data\<close>

definition SLOT_COUNT :: nat where "SLOT_COUNT = 256"
definition OCCUPANCY_WORDS :: nat where "OCCUPANCY_WORDS = SLOT_COUNT div 64"
definition DUE_LOCATION :: nat where "DUE_LOCATION = SLOT_COUNT"
definition DISARMED_LOCATION :: nat where "DISARMED_LOCATION = DUE_LOCATION + 1"
definition SHARD_TIMER_QUANTUM :: nat where "SHARD_TIMER_QUANTUM = 1000000"

text \<open>Counts of 64 bits are natural numbers, with their saturation written out.\<close>

definition U64_MAX :: nat where "U64_MAX = 2 ^ 64 - 1"

definition sat64 :: "nat \<Rightarrow> nat" where "sat64 n = min n U64_MAX"

definition slot_of :: "nat \<Rightarrow> nat" where "slot_of tick = tick AND 255"

text \<open>A duration of \<open>ticks\<close> quanta, in nanoseconds.\<close>

definition duration_for_ticks :: "nat \<Rightarrow> nat" where
  "duration_for_ticks ticks = sat64 (ticks * sat64 SHARD_TIMER_QUANTUM)"

record 'k TimerNode =
  tn_deadline_tick :: nat
  tn_prev :: "'k option"
  tn_next :: "'k option"
  tn_location :: nat

definition node_new :: "'k TimerNode" where
  "node_new = \<lparr>tn_deadline_tick = 0, tn_prev = None, tn_next = None, tn_location = DISARMED_LOCATION\<rparr>"

definition is_armed :: "'k TimerNode \<Rightarrow> bool" where
  "is_armed node \<longleftrightarrow> tn_location node \<noteq> DISARMED_LOCATION"

text \<open>
  The nodes live in a \<open>SecondaryMap\<close> of the crate \<open>slotmap\<close>.  Its operations are an argument of the
  model; what the shard may rely on is in the theory Handles.
\<close>

record ('m, 'k) node_map =
  nm_empty :: 'm
  nm_get :: "'m \<Rightarrow> 'k \<Rightarrow> 'k TimerNode option"
  nm_insert :: "'k \<Rightarrow> 'k TimerNode \<Rightarrow> 'm \<Rightarrow> 'm"
  nm_remove :: "'k \<Rightarrow> 'm \<Rightarrow> 'm"

record ('m, 'k) TimerWheel =
  tw_epoch :: int
  tw_last_now :: int
  tw_current_tick :: nat
  tw_heads :: "'k option list"
  tw_due_head :: "'k option"
  tw_occupied :: "u64 list"
  tw_nodes :: 'm

definition wheel_new :: "('m, 'k) node_map \<Rightarrow> int \<Rightarrow> ('m, 'k) TimerWheel" where
  "wheel_new S epoch =
     \<lparr>tw_epoch = epoch, tw_last_now = epoch, tw_current_tick = 0, tw_heads = replicate SLOT_COUNT None,
      tw_due_head = None, tw_occupied = replicate OCCUPANCY_WORDS 0, tw_nodes = nm_empty S\<rparr>"

subsection \<open>The occupancy words\<close>

definition set_occupied :: "nat \<Rightarrow> u64 list \<Rightarrow> u64 list" where
  "set_occupied slot ws = (if slot div 64 < length ws
     then ws[slot div 64 := ws ! (slot div 64) OR push_bit (slot mod 64) 1] else ws)"

definition clear_occupied :: "nat \<Rightarrow> u64 list \<Rightarrow> u64 list" where
  "clear_occupied slot ws = (if slot div 64 < length ws
     then ws[slot div 64 := ws ! (slot div 64) AND NOT (push_bit (slot mod 64) 1)] else ws)"

definition word_at :: "u64 list \<Rightarrow> nat \<Rightarrow> u64" where
  "word_at ws i = (if i < length ws then ws ! i else 0)"

definition rotated_word :: "u64 list \<Rightarrow> nat \<Rightarrow> u64" where
  "rotated_word ws base =
     (let base = base mod SLOT_COUNT;
          word_idx = base div 64;
          nbit = base mod 64;
          lo = word_at ws word_idx;
          hi = word_at ws ((word_idx + 1) mod OCCUPANCY_WORDS)
      in if nbit = 0 then lo else drop_bit nbit lo OR push_bit (64 - nbit) hi)"

text \<open>The number of zero bits below the lowest set bit; 64 for zero.\<close>

definition trailing_zeros :: "u64 \<Rightarrow> nat" where
  "trailing_zeros w = length (takeWhile (\<lambda>n. \<not> bit w n) [0..<64])"

fun next_occupied_loop :: "u64 list \<Rightarrow> nat \<Rightarrow> nat list \<Rightarrow> nat option" where
  "next_occupied_loop ws start [] = None"
| "next_occupied_loop ws start (step # steps) =
     (let w = rotated_word ws (start + step * 64);
          distance = step * 64 + trailing_zeros w
      in if w \<noteq> 0 \<and> distance < SLOT_COUNT then Some distance else next_occupied_loop ws start steps)"

definition next_occupied_from :: "u64 list \<Rightarrow> nat \<Rightarrow> nat option" where
  "next_occupied_from ws start = next_occupied_loop ws start [0..<OCCUPANCY_WORDS + 1]"

subsection \<open>Linking\<close>

text \<open>A call of \<open>fatal!\<close> is the result \<open>None\<close>.\<close>

definition head_at :: "nat \<Rightarrow> ('m, 'k) TimerWheel \<Rightarrow> 'k option" where
  "head_at location w = (if location = DUE_LOCATION then tw_due_head w
     else if location < length (tw_heads w) then tw_heads w ! location else None)"

definition node_modify :: "('m, 'k) node_map \<Rightarrow> 'k \<Rightarrow> ('k TimerNode \<Rightarrow> 'k TimerNode)
    \<Rightarrow> ('m, 'k) TimerWheel \<Rightarrow> ('m, 'k) TimerWheel option" where
  "node_modify S k f w = (case nm_get S (tw_nodes w) k of
     None \<Rightarrow> None
   | Some node \<Rightarrow> Some (w\<lparr>tw_nodes := nm_insert S k (f node) (tw_nodes w)\<rparr>))"

definition wheel_link :: "('m, 'k) node_map \<Rightarrow> 'k \<Rightarrow> nat \<Rightarrow> nat \<Rightarrow> ('m, 'k) TimerWheel \<Rightarrow> ('m, 'k) TimerWheel option" where
  "wheel_link S nid location deadline_tick w =
     (let old_head = head_at location w in
      Option.bind (node_modify S nid (\<lambda>node. node\<lparr>tn_deadline_tick := deadline_tick, tn_prev := None,
          tn_next := old_head, tn_location := location\<rparr>) w) (\<lambda>w.
      Option.bind (case old_head of
          Some h \<Rightarrow> node_modify S h (\<lambda>head. head\<lparr>tn_prev := Some nid\<rparr>) w
        | None \<Rightarrow> Some w) (\<lambda>w.
      Some (if location = DUE_LOCATION then w\<lparr>tw_due_head := Some nid\<rparr>
        else if location < length (tw_heads w)
        then w\<lparr>tw_heads := (tw_heads w)[location := Some nid], tw_occupied := set_occupied location (tw_occupied w)\<rparr>
        else w))))"

definition wheel_unlink :: "('m, 'k) node_map \<Rightarrow> 'k \<Rightarrow> ('m, 'k) TimerWheel \<Rightarrow> ('m, 'k) TimerWheel option" where
  "wheel_unlink S nid w = (case nm_get S (tw_nodes w) nid of
     None \<Rightarrow> None
   | Some node \<Rightarrow>
       Option.bind (case tn_prev node of
           Some prev \<Rightarrow> node_modify S prev (\<lambda>p. p\<lparr>tn_next := tn_next node\<rparr>) w
         | None \<Rightarrow> Some (if tn_location node = DUE_LOCATION then w\<lparr>tw_due_head := tn_next node\<rparr>
             else if tn_location node < length (tw_heads w)
             then w\<lparr>tw_heads := (tw_heads w)[tn_location node := tn_next node]\<rparr> else w)) (\<lambda>w.
       Option.bind (case tn_next node of
           Some nxt \<Rightarrow> node_modify S nxt (\<lambda>n. n\<lparr>tn_prev := tn_prev node\<rparr>) w
         | None \<Rightarrow> Some w) (\<lambda>w.
       let w = (if tn_location node \<noteq> DUE_LOCATION \<and> head_at (tn_location node) w = None
                then w\<lparr>tw_occupied := clear_occupied (tn_location node) (tw_occupied w)\<rparr> else w)
       in node_modify S nid (\<lambda>n. n\<lparr>tn_prev := None, tn_next := None, tn_location := DISARMED_LOCATION\<rparr>) w)))"

subsection \<open>The operations\<close>

definition deadline_tick :: "int \<Rightarrow> ('m, 'k) TimerWheel \<Rightarrow> nat" where
  "deadline_tick deadline w =
     (let elapsed = nat (deadline - tw_epoch w)
      in sat64 ((elapsed + SHARD_TIMER_QUANTUM - 1) div SHARD_TIMER_QUANTUM))"

definition elapsed_ticks :: "int \<Rightarrow> ('m, 'k) TimerWheel \<Rightarrow> nat" where
  "elapsed_ticks now w = sat64 (nat (now - tw_epoch w) div SHARD_TIMER_QUANTUM)"

definition schedule :: "('m, 'k) node_map \<Rightarrow> 'k \<Rightarrow> int \<Rightarrow> ('m, 'k) TimerWheel \<Rightarrow> ('m, 'k) TimerWheel option" where
  "schedule S key deadline w =
     (let (location, tick) =
        (if deadline \<le> tw_last_now w then (DUE_LOCATION, tw_current_tick w)
         else let tick = min (deadline_tick deadline w) (sat64 (tw_current_tick w + (SLOT_COUNT - 1)))
              in (slot_of tick, tick))
      in case nm_get S (tw_nodes w) key of
        Some node \<Rightarrow>
          if tn_location node = location \<and> tn_deadline_tick node = tick then Some w
          else Option.bind (if is_armed node then wheel_unlink S key w else Some w)
            (\<lambda>w. wheel_link S key location tick w)
      | None \<Rightarrow> wheel_link S key location tick (w\<lparr>tw_nodes := nm_insert S key node_new (tw_nodes w)\<rparr>))"

definition cancel :: "('m, 'k) node_map \<Rightarrow> 'k \<Rightarrow> ('m, 'k) TimerWheel \<Rightarrow> ('m, 'k) TimerWheel option" where
  "cancel S key w = (case nm_get S (tw_nodes w) key of
     None \<Rightarrow> Some w
   | Some node \<Rightarrow> map_option (\<lambda>w. w\<lparr>tw_nodes := nm_remove S key (tw_nodes w)\<rparr>)
       (if is_armed node then wheel_unlink S key w else Some w))"

text \<open>
  \<open>checked_add\<close> fails only beyond the range of the host clock, which the integers do not bound.
\<close>

definition next_deadline :: "('m, 'k) TimerWheel \<Rightarrow> int option" where
  "next_deadline w =
     (if tw_due_head w \<noteq> None then Some (tw_last_now w)
      else let start = slot_of (sat64 (tw_current_tick w + 1))
           in map_option (\<lambda>offset. tw_epoch w + int (duration_for_ticks (sat64 (sat64 (tw_current_tick w + 1) + offset))))
                (next_occupied_from (tw_occupied w) start))"

partial_function (option) drain_location :: "('m, 'k) node_map \<Rightarrow> nat \<Rightarrow> ('m, 'k) TimerWheel \<Rightarrow> 'k list
    \<Rightarrow> (('m, 'k) TimerWheel \<times> 'k list) option" where
  "drain_location S location w fired = (case head_at location w of
     None \<Rightarrow> Some (w, fired)
   | Some nid \<Rightarrow> (case nm_get S (tw_nodes w) nid of
       None \<Rightarrow> None
     | Some _ \<Rightarrow> Option.bind (wheel_unlink S nid w) (\<lambda>w. drain_location S location w (fired @ [nid]))))"

declare drain_location.simps [code]

fun drain_slots :: "('m, 'k) node_map \<Rightarrow> nat list \<Rightarrow> ('m, 'k) TimerWheel \<Rightarrow> 'k list
    \<Rightarrow> (('m, 'k) TimerWheel \<times> 'k list) option" where
  "drain_slots S [] w fired = Some (w, fired)"
| "drain_slots S (slot # slots) w fired =
     Option.bind (drain_location S slot w fired) (\<lambda>(w, fired). drain_slots S slots w fired)"

function drain_ticks :: "('m, 'k) node_map \<Rightarrow> nat \<Rightarrow> nat \<Rightarrow> ('m, 'k) TimerWheel \<Rightarrow> 'k list
    \<Rightarrow> (('m, 'k) TimerWheel \<times> 'k list) option" where
  "drain_ticks S tick target w fired =
     (if tick < target
      then Option.bind (drain_location S (slot_of (tick + 1)) (w\<lparr>tw_current_tick := tick + 1\<rparr>) fired)
             (\<lambda>(w, fired). drain_ticks S (tick + 1) target w fired)
      else Some (w, fired))"
  by pat_completeness auto

termination
  by (relation "measure (\<lambda>(S, tick, target, w, fired). target - tick)") auto

definition drain_expired :: "('m, 'k) node_map \<Rightarrow> int \<Rightarrow> ('m, 'k) TimerWheel
    \<Rightarrow> (('m, 'k) TimerWheel \<times> 'k list) option" where
  "drain_expired S now w =
     Option.bind (drain_location S DUE_LOCATION w []) (\<lambda>(w, fired).
     let target = elapsed_ticks now w in
     map_option (\<lambda>(w, fired). (w\<lparr>tw_last_now := now\<rparr>, fired))
       (if target - tw_current_tick w \<ge> SLOT_COUNT
        then drain_slots S [0..<SLOT_COUNT] (w\<lparr>tw_current_tick := target\<rparr>) fired
        else drain_ticks S (tw_current_tick w) target w fired))"

subsection \<open>Occupancy bits\<close>

definition occupied_at :: "u64 list \<Rightarrow> nat \<Rightarrow> bool" where
  "occupied_at ws s \<longleftrightarrow> bit (word_at ws (s div 64)) (s mod 64)"

lemmas wheel_consts = SLOT_COUNT_def OCCUPANCY_WORDS_def DUE_LOCATION_def DISARMED_LOCATION_def

lemma div_mod_64_eq: "s div 64 = s' div 64 \<and> s mod 64 = s' mod 64 \<longleftrightarrow> s = s'" for s s' :: nat
  by (metis div_mult_mod_eq)

lemma occupied_at_set:
  assumes "s < 64 * length ws"
  shows "occupied_at (set_occupied s ws) s' \<longleftrightarrow> s' = s \<or> occupied_at ws s'"
proof -
  have "s div 64 < length ws" using assms by (simp add: less_mult_imp_div_less mult.commute)
  then show ?thesis using div_mod_64_eq [of s s']
    by (auto simp: occupied_at_def set_occupied_def word_at_def nth_list_update bit_or_iff bit_exp_iff possible_bit_word)
qed

lemma occupied_at_clear:
  assumes "s < 64 * length ws"
  shows "occupied_at (clear_occupied s ws) s' \<longleftrightarrow> s' \<noteq> s \<and> occupied_at ws s'"
proof -
  have "s div 64 < length ws" using assms by (simp add: less_mult_imp_div_less mult.commute)
  then show ?thesis using div_mod_64_eq [of s s']
    by (auto simp: occupied_at_def clear_occupied_def word_at_def nth_list_update bit_and_iff bit_not_iff
        bit_exp_iff possible_bit_word)
qed

lemma length_occupied [simp]: "length (set_occupied s ws) = length ws" "length (clear_occupied s ws) = length ws"
  by (simp_all add: set_occupied_def clear_occupied_def)

lemma bit_rotated:
  assumes "length ws = OCCUPANCY_WORDS" and "i < 64"
  shows "bit (rotated_word ws base) i \<longleftrightarrow> occupied_at ws ((base + i) mod 256)"
proof -
  define b where "b = base mod 256"
  have "(base + i) mod 256 = (b + i) mod 256" by (simp add: b_def mod_add_left_eq)
  have b: "b < 256" by (simp add: b_def)
  define q r where "q = b div 64" and "r = b mod 64"
  have qr: "b = 64 * q + r" "r < 64" "q < 4" using b by (auto simp: q_def r_def)
  have rot: "rotated_word ws base = (if r = 0 then word_at ws q else drop_bit r (word_at ws q) OR push_bit (64 - r) (word_at ws ((q + 1) mod 4)))"
    by (simp add: rotated_word_def Let_def SLOT_COUNT_def OCCUPANCY_WORDS_def b_def [symmetric] q_def r_def)
  show ?thesis
  proof (cases "r + i < 64")
    case True
    have "(b + i) mod 256 = 64 * q + (r + i)" using qr True by simp
    then have "(b + i) mod 256 div 64 = q" "(b + i) mod 256 mod 64 = r + i" using True by simp_all
    then show ?thesis using True assms(2) qr \<open>(base + i) mod 256 = (b + i) mod 256\<close>
      by (auto simp: rot occupied_at_def bit_or_iff bit_drop_bit_eq bit_push_bit_iff add.commute)
  next
    case False
    then have r: "r \<noteq> 0" using assms(2) by simp
    have s: "b + i = 64 * (q + 1) + (r + i - 64)" using qr False by simp
    have "r + i - 64 < 64" using qr(2) assms(2) by simp
    moreover have "(64 * (q + 1) + k) mod 256 = 64 * ((q + 1) mod 4) + k" if "k < 64" for k
    proof -
      consider "q = 0" | "q = 1" | "q = 2" | "q = 3" using qr(3) by linarith
      then show ?thesis using that by cases simp_all
    qed
    ultimately have "(b + i) mod 256 div 64 = (q + 1) mod 4" "(b + i) mod 256 mod 64 = r + i - 64"
      unfolding s by simp_all
    moreover have "\<not> bit (word_at ws q) (r + i)" using False by (auto dest: bit_imp_le_length)
    moreover have "i - (64 - r) = r + i - 64" using qr(2) by simp
    ultimately show ?thesis using False r assms(2) qr \<open>(base + i) mod 256 = (b + i) mod 256\<close>
      by (auto simp: rot occupied_at_def bit_or_iff bit_drop_bit_eq bit_push_bit_iff add.commute)
  qed
qed

lemma trailing_zeros_least:
  assumes "w \<noteq> 0"
  shows "trailing_zeros w < 64" and "bit w (trailing_zeros w)" and "i < trailing_zeros w \<Longrightarrow> \<not> bit w i"
proof -
  let ?n = "trailing_zeros w"
  have le: "?n \<le> 64" unfolding trailing_zeros_def using length_takeWhile_le [of _ "[0..<64]"] by (metis diff_zero length_upt)
  have below: "\<not> bit w i" if "i < ?n" for i
    using that le nth_mem [of i "takeWhile (\<lambda>n. \<not> bit w n) [0..<64]"] takeWhile_nth [of i "\<lambda>n. \<not> bit w n" "[0..<64]"]
    by (auto simp: trailing_zeros_def dest!: set_takeWhileD)
  then show "i < ?n \<Longrightarrow> \<not> bit w i" by blast
  have "?n \<noteq> 64"
  proof
    assume "?n = 64"
    then have "\<not> bit w i" for i using below [of i] by (cases "i < 64") (auto dest: bit_imp_le_length)
    then show False using assms by (simp add: bit_eq_iff)
  qed
  then show lt: "?n < 64" using le by simp
  then show "bit w ?n"
    using nth_length_takeWhile [of "\<lambda>n. \<not> bit w n" "[0..<64]"] by (simp add: trailing_zeros_def)
qed

text \<open>The scan over whole words finds the nearest occupied slot, going around the wheel.\<close>

lemma next_occupied_nearest:
  assumes "length ws = OCCUPANCY_WORDS"
  shows "next_occupied_from ws start = (if \<exists>k<256. occupied_at ws ((start + k) mod 256)
     then Some (LEAST k. occupied_at ws ((start + k) mod 256)) else None)"
proof -
  define P where "P k = occupied_at ws ((start + k) mod 256)" for k
  have word: "bit (rotated_word ws (start + st * 64)) i \<longleftrightarrow> P (st * 64 + i)" if "i < 64" for st i
    using bit_rotated [OF assms that] by (simp add: P_def add.assoc)
  have loop: "next_occupied_loop ws start [st..<5] =
      (if \<exists>k<256. P k then Some (LEAST k. P k) else None)"
    if "\<forall>k. k < st * 64 \<longrightarrow> \<not> P k" "st \<le> 5" for st
    using that
  proof (induction "5 - st" arbitrary: st)
    case 0
    then show ?case by auto
  next
    case (Suc n)
    then have st: "st < 5" and up: "[st..<5] = st # [Suc st..<5]" by (auto simp: upt_conv_Cons)
    let ?w = "rotated_word ws (start + st * 64)"
    show ?case
    proof (cases "?w = 0")
      case True
      then have "\<not> P k" if "k < Suc st * 64" for k
        using that Suc.prems(1) word [of "k - st * 64" st] by (cases "k < st * 64") auto
      then show ?thesis using Suc.hyps(1) [of "Suc st"] Suc.hyps(2) st True by (simp add: up)
    next
      case False
      note tz = trailing_zeros_least [OF False]
      let ?d = "st * 64 + trailing_zeros ?w"
      have Pd: "P ?d" using tz(1,2) word by blast
      have less: "\<not> P k" if "k < ?d" for k
        using that Suc.prems(1) word [of "k - st * 64" st] tz by (cases "k < st * 64") auto
      have least: "(LEAST k. P k) = ?d" using Pd less by (metis Least_equality not_less)
      show ?thesis
      proof (cases "?d < 256")
        case True
        then show ?thesis using False Pd least by (auto simp: up Let_def SLOT_COUNT_def)
      next
        case far: False
        then have no: "\<not> P k" if "k < 256" for k using less that by simp
        obtain e where e: "?d = e + 256" using far by (metis le_add_diff_inverse2 not_less)
        have "P e" using Pd unfolding e P_def by (simp add: add.assoc [symmetric] del: add.assoc)
        moreover have "e < 256" using tz(1) st e by simp
        ultimately show ?thesis using no by blast
      qed
    qed
  qed
  show ?thesis using loop [of 0] by (simp add: next_occupied_from_def OCCUPANCY_WORDS_def SLOT_COUNT_def P_def [abs_def])
qed

subsection \<open>The representation\<close>

definition tlinks :: "('m, 'k) node_map \<Rightarrow> 'm \<Rightarrow> 'k \<Rightarrow> ('k option \<times> 'k option) option" where
  "tlinks S m k = map_option (\<lambda>n. (tn_prev n, tn_next n)) (nm_get S m k)"

text \<open>What a node says besides its links: its tick and where it is.\<close>

definition nview :: "('m, 'k) node_map \<Rightarrow> 'm \<Rightarrow> 'k \<Rightarrow> (nat \<times> nat) option" where
  "nview S m k = map_option (\<lambda>n. (tn_deadline_tick n, tn_location n)) (nm_get S m k)"

text \<open>The wheel holds the list \<open>L l\<close> at each location \<open>l\<close>.\<close>

definition wheel_rep :: "('m, 'k) node_map \<Rightarrow> ('m, 'k) TimerWheel \<Rightarrow> (nat \<Rightarrow> 'k list) \<Rightarrow> bool" where
  "wheel_rep S w L \<longleftrightarrow> length (tw_heads w) = SLOT_COUNT \<and> length (tw_occupied w) = OCCUPANCY_WORDS \<and>
     (\<forall>l. DUE_LOCATION < l \<longrightarrow> L l = []) \<and>
     (\<forall>l. links (tlinks S (tw_nodes w)) (L l)) \<and>
     (\<forall>l\<le>DUE_LOCATION. head_at l w = heado (L l)) \<and>
     (\<forall>k t l. nview S (tw_nodes w) k = Some (t, l) \<longrightarrow>
        (\<forall>l'. k \<in> set (L l') \<longleftrightarrow> l' = l \<and> l \<noteq> DISARMED_LOCATION)) \<and>
     (\<forall>s<SLOT_COUNT. occupied_at (tw_occupied w) s \<longleftrightarrow> L s \<noteq> [])"

definition clock_of :: "('m, 'k) TimerWheel \<Rightarrow> int \<times> int \<times> nat" where
  "clock_of w = (tw_epoch w, tw_last_now w, tw_current_tick w)"

lemma head_at_keeps [simp]: "head_at l (w\<lparr>tw_nodes := m\<rparr>) = head_at l w" "head_at l (w\<lparr>tw_occupied := ws\<rparr>) = head_at l w"
  "head_at l (w\<lparr>tw_current_tick := n\<rparr>) = head_at l w" "head_at l (w\<lparr>tw_last_now := t\<rparr>) = head_at l w"
  by (simp_all add: head_at_def)

lemma wheel_repD:
  assumes "wheel_rep S w L"
  shows "length (tw_heads w) = 256" "length (tw_occupied w) = 4"
    "256 < l \<Longrightarrow> L l = []" "links (tlinks S (tw_nodes w)) (L l)" "l \<le> 256 \<Longrightarrow> head_at l w = heado (L l)"
    "nview S (tw_nodes w) k = Some (t, l) \<Longrightarrow> k \<in> set (L l') \<longleftrightarrow> l' = l \<and> l \<noteq> 257"
    "s < 256 \<Longrightarrow> occupied_at (tw_occupied w) s \<longleftrightarrow> L s \<noteq> []"
  using assms by (simp_all add: wheel_rep_def wheel_consts)

lemma nview_links: "nview S m k = None \<longleftrightarrow> tlinks S m k = None"
  by (simp add: nview_def tlinks_def)

lemma wheel_rep_node:
  assumes "wheel_rep S w L" and "k \<in> set (L l)"
  obtains t where "nview S (tw_nodes w) k = Some (t, l)" "l \<le> 256"
proof -
  have "tlinks S (tw_nodes w) k \<noteq> None" using links_dom wheel_repD(4) [OF assms(1)] assms(2) by metis
  then obtain t l' where n: "nview S (tw_nodes w) k = Some (t, l')" using nview_links by (metis not_None_eq surj_pair)
  then have "l' = l" using wheel_repD(6) [OF assms(1) n, of l] assms(2) by simp
  moreover have "l \<le> 256" using wheel_repD(3) [OF assms(1), of l] assms(2) by (cases "256 < l") auto
  ultimately show ?thesis using that n by blast
qed

text \<open>The interface of the map of nodes.\<close>

locale node_store =
  fixes S :: "('m, 'k) node_map"
  assumes get_empty: "nm_get S (nm_empty S) k = None"
    and get_insert: "nm_get S (nm_insert S k v m) j = (if j = k then Some v else nm_get S m j)"
    and get_remove: "nm_get S (nm_remove S k m) j = (if j = k then None else nm_get S m j)"
begin

lemma node_modify_Some:
  assumes "nm_get S (tw_nodes w) k = Some n"
  shows "node_modify S k f w = Some (w\<lparr>tw_nodes := nm_insert S k (f n) (tw_nodes w)\<rparr>)"
  by (simp add: node_modify_def assms)

lemma tlinks_insert: "tlinks S (nm_insert S k n m) = (tlinks S m)(k \<mapsto> (tn_prev n, tn_next n))"
  by (simp add: tlinks_def fun_eq_iff get_insert)

lemma nview_insert: "nview S (nm_insert S k n m) = (nview S m)(k \<mapsto> (tn_deadline_tick n, tn_location n))"
  by (simp add: nview_def fun_eq_iff get_insert)

lemma nview_Some: "nview S m k = Some (t, l) \<longleftrightarrow>
    (\<exists>n. nm_get S m k = Some n \<and> tn_deadline_tick n = t \<and> tn_location n = l)"
  by (auto simp: nview_def)

lemma rep_linked:
  assumes rep: "wheel_rep S w L" and k: "\<And>l'. k \<notin> set (L l')" and l: "l \<le> 256"
    and links: "tlinks S (tw_nodes w') = linked k (heado (L l)) (tlinks S (tw_nodes w))"
    and nodes: "nview S (tw_nodes w') = (nview S (tw_nodes w))(k \<mapsto> (t, l))"
    and lens: "length (tw_heads w') = 256" "length (tw_occupied w') = 4"
    and heads: "\<And>l'. l' \<le> 256 \<Longrightarrow> head_at l' w' = (if l' = l then Some k else head_at l' w)"
    and occ: "\<And>s. s < 256 \<Longrightarrow> occupied_at (tw_occupied w') s \<longleftrightarrow> s = l \<or> occupied_at (tw_occupied w) s"
  shows "wheel_rep S w' (L(l := k # L l))"
proof -
  have "links (tlinks S (tw_nodes w')) ((L(l := k # L l)) l')" for l'
  proof (cases "l' = l")
    case True
    then show ?thesis using links_linked [OF wheel_repD(4) [OF rep] k] by (simp add: links)
  next
    case False
    have "set_option (heado (L l)) \<inter> set (L l') = {}"
    proof -
      have "x \<notin> set (L l')" if "x \<in> set (L l)" for x
        using wheel_rep_node [OF rep that] wheel_repD(6) [OF rep] False by metis
      then show ?thesis by (auto dest: heado_in)
    qed
    then show ?thesis using False links_linked_other [OF wheel_repD(4) [OF rep] k] by (simp add: links)
  qed
  moreover have "k' \<in> set ((L(l := k # L l)) l') \<longleftrightarrow> l' = l1 \<and> l1 \<noteq> 257"
    if "nview S (tw_nodes w') k' = Some (t1, l1)" for k' t1 l1 l'
    using that k l wheel_repD(6) [OF rep, of k' t1 l1 l'] by (cases "k' = k") (auto simp: nodes)
  ultimately show ?thesis
    using lens heads occ l wheel_repD(3,5,7) [OF rep] by (auto simp: wheel_rep_def wheel_consts)
qed

lemma link_rep:
  assumes rep: "wheel_rep S w L" and n: "nview S (tw_nodes w) k = Some (t0, DISARMED_LOCATION)" and l: "l \<le> DUE_LOCATION"
  shows "\<exists>w'. wheel_link S k l t w = Some w' \<and> wheel_rep S w' (L(l := k # L l)) \<and>
     nview S (tw_nodes w') = (nview S (tw_nodes w))(k \<mapsto> (t, l)) \<and> clock_of w' = clock_of w"
proof -
  have l': "l \<le> 256" using l by (simp add: wheel_consts)
  have kL: "k \<notin> set (L l')" for l' using wheel_repD(6) [OF rep n] by (simp add: wheel_consts)
  have h: "head_at l w = heado (L l)" using wheel_repD(5) [OF rep l'] .
  obtain nk where nk: "nm_get S (tw_nodes w) k = Some nk" using n by (auto simp: nview_Some)
  define m1 where "m1 = nm_insert S k (nk\<lparr>tn_deadline_tick := t, tn_prev := None, tn_next := heado (L l), tn_location := l\<rparr>) (tw_nodes w)"
  have "\<exists>m2. (case heado (L l) of Some h \<Rightarrow> node_modify S h (\<lambda>head. head\<lparr>tn_prev := Some k\<rparr>) (w\<lparr>tw_nodes := m1\<rparr>)
        | None \<Rightarrow> Some (w\<lparr>tw_nodes := m1\<rparr>)) = Some (w\<lparr>tw_nodes := m2\<rparr>) \<and>
      tlinks S m2 = linked k (heado (L l)) (tlinks S (tw_nodes w)) \<and> nview S m2 = (nview S (tw_nodes w))(k \<mapsto> (t, l))"
  proof (cases "heado (L l)")
    case None
    then show ?thesis
      by (auto intro!: exI [of _ m1] simp: m1_def tlinks_insert nview_insert linked_def fun_eq_iff option.map_ident id_def)
  next
    case (Some x)
    then have x: "x \<in> set (L l)" "x \<noteq> k" using kL heado_in by (metis, metis heado_in)
    then obtain nx where nx: "nm_get S (tw_nodes w) x = Some nx"
      using wheel_rep_node [OF rep x(1)] by (metis nview_Some)
    then have nx1: "nm_get S m1 x = Some nx" using x(2) by (simp add: m1_def get_insert)
    show ?thesis
      using nx x(2) Some
      by (auto intro!: exI [of _ "nm_insert S x (nx\<lparr>tn_prev := Some k\<rparr>) m1"]
          simp: node_modify_Some nx1 tlinks_insert nview_insert fun_eq_iff)
        (auto simp: m1_def tlinks_insert nview_insert linked_def tlinks_def nview_def get_insert option.map_id)
  qed
  then obtain m2 where m2: "(case heado (L l) of Some h \<Rightarrow> node_modify S h (\<lambda>head. head\<lparr>tn_prev := Some k\<rparr>) (w\<lparr>tw_nodes := m1\<rparr>)
        | None \<Rightarrow> Some (w\<lparr>tw_nodes := m1\<rparr>)) = Some (w\<lparr>tw_nodes := m2\<rparr>)"
      "tlinks S m2 = linked k (heado (L l)) (tlinks S (tw_nodes w))" "nview S m2 = (nview S (tw_nodes w))(k \<mapsto> (t, l))"
    by blast
  define w' where "w' = (if l = DUE_LOCATION then w\<lparr>tw_nodes := m2, tw_due_head := Some k\<rparr>
      else w\<lparr>tw_nodes := m2, tw_heads := (tw_heads w)[l := Some k], tw_occupied := set_occupied l (tw_occupied w)\<rparr>)"
  have "wheel_link S k l t w = Some w'"
    unfolding wheel_link_def Let_def h node_modify_Some [OF nk] m1_def [symmetric] bind.bind_lunit m2(1)
    using l' wheel_repD(1) [OF rep] by (simp add: w'_def wheel_consts)
  moreover have "wheel_rep S w' (L(l := k # L l))"
    using wheel_repD(1,2) [OF rep] l'
    by (intro rep_linked [OF rep kL l', where t = t])
      (auto simp: w'_def m2 head_at_def wheel_consts occupied_at_set)
  moreover have "nview S (tw_nodes w') = (nview S (tw_nodes w))(k \<mapsto> (t, l))" "clock_of w' = clock_of w"
    by (simp_all add: w'_def m2 clock_of_def)
  ultimately show ?thesis by blast
qed

lemma rep_unlinked:
  assumes rep: "wheel_rep S w L" and L: "L l = as @ k # bs"
    and links: "tlinks S (tw_nodes w') = unlinked k (lasto as) (heado bs) (tlinks S (tw_nodes w))"
    and nodes: "nview S (tw_nodes w') = (nview S (tw_nodes w))(k \<mapsto> (t, DISARMED_LOCATION))"
    and lens: "length (tw_heads w') = 256" "length (tw_occupied w') = 4"
    and heads: "\<And>l'. l' \<le> 256 \<Longrightarrow> head_at l' w' = (if l' = l then heado (as @ bs) else head_at l' w)"
    and occ: "\<And>s. s < 256 \<Longrightarrow> occupied_at (tw_occupied w') s \<longleftrightarrow> (if s = l then as @ bs \<noteq> [] else occupied_at (tw_occupied w) s)"
  shows "wheel_rep S w' (L(l := as @ bs))"
proof -
  have dist: "distinct (as @ k # bs)" using links_distinct [OF wheel_repD(4) [OF rep, of l]] L by simp
  have other: "x \<notin> set (L l')" if "x \<in> set (L l)" "l' \<noteq> l" for x l'
    using wheel_rep_node [OF rep that(1)] wheel_repD(6) [OF rep] that(2) by metis
  have "links (tlinks S (tw_nodes w')) ((L(l := as @ bs)) l')" for l'
  proof (cases "l' = l")
    case True
    then show ?thesis using links_unlinked wheel_repD(4) [OF rep, of l] by (simp add: links L)
  next
    case False
    then have "k \<notin> set (L l')" "set_option (lasto as) \<inter> set (L l') = {}" "set_option (heado bs) \<inter> set (L l') = {}"
      using other by (auto simp: L dest!: lasto_in heado_in)
    then show ?thesis using False links_unlinked_other [OF wheel_repD(4) [OF rep]] by (simp add: links)
  qed
  moreover have "k' \<in> set ((L(l := as @ bs)) l') \<longleftrightarrow> l' = l1 \<and> l1 \<noteq> 257"
    if n: "nview S (tw_nodes w') k' = Some (t1, l1)" for k' t1 l1 l'
  proof (cases "k' = k")
    case True
    then show ?thesis using n dist other [of k l'] by (auto simp: nodes L wheel_consts)
  next
    case False
    then show ?thesis using n wheel_repD(6) [OF rep, of k' t1 l1 l'] L by (cases "l' = l") (auto simp: nodes)
  qed
  ultimately show ?thesis
    using lens heads occ L wheel_repD(3,5,7) [OF rep] by (auto simp: wheel_rep_def wheel_consts)
qed

lemma unlink_rep:
  assumes rep: "wheel_rep S w L" and L: "L l = as @ k # bs"
  obtains w' t where "wheel_unlink S k w = Some w'" "wheel_rep S w' (L(l := as @ bs))"
    "nview S (tw_nodes w) k = Some (t, l)" "nview S (tw_nodes w') = (nview S (tw_nodes w))(k \<mapsto> (t, DISARMED_LOCATION))"
    "clock_of w' = clock_of w"
proof -
  obtain t where nv: "nview S (tw_nodes w) k = Some (t, l)" and l: "l \<le> 256"
    using wheel_rep_node [OF rep, of k l] L by auto
  obtain n where n: "nm_get S (tw_nodes w) k = Some n" "tn_location n = l" "tn_deadline_tick n = t"
    using nv by (auto simp: nview_Some)
  have lk: "links (tlinks S (tw_nodes w)) (as @ k # bs)" using wheel_repD(4) [OF rep, of l] L by simp
  then have pn: "tn_prev n = lasto as" "tn_next n = heado bs"
    using links_at [OF lk] n(1) by (simp_all add: tlinks_def)
  have dist: "distinct (as @ k # bs)" using lk by (rule links_distinct)
  have get: "\<exists>nx. nm_get S (tw_nodes w) x = Some nx" if "x \<in> set (as @ bs)" for x
    using wheel_rep_node [OF rep, of x l] that L by (auto simp: nview_Some)
  define w1 where "w1 = (if as = [] then (if l = DUE_LOCATION then w\<lparr>tw_due_head := heado bs\<rparr>
      else w\<lparr>tw_heads := (tw_heads w)[l := heado bs]\<rparr>) else w)"
  have w1n: "tw_nodes w1 = tw_nodes w" "tw_occupied w1 = tw_occupied w" "clock_of w1 = clock_of w"
      "length (tw_heads w1) = 256"
    using wheel_repD(1) [OF rep] by (simp_all add: w1_def clock_of_def)
  have heads: "head_at l' w1 = (if l' = l then heado (as @ bs) else head_at l' w)" if "l' \<le> 256" for l'
  proof (cases "as = []")
    case True
    then show ?thesis using that l wheel_repD(1) [OF rep] by (auto simp: w1_def head_at_def wheel_consts)
  next
    case False
    then show ?thesis using wheel_repD(5) [OF rep that] by (cases as) (auto simp: w1_def L)
  qed
  obtain m1 where m1: "(case tn_prev n of Some prev \<Rightarrow> node_modify S prev (\<lambda>p. p\<lparr>tn_next := tn_next n\<rparr>) w
         | None \<Rightarrow> Some (if tn_location n = DUE_LOCATION then w\<lparr>tw_due_head := tn_next n\<rparr>
             else if tn_location n < length (tw_heads w)
             then w\<lparr>tw_heads := (tw_heads w)[tn_location n := tn_next n]\<rparr> else w)) = Some (w1\<lparr>tw_nodes := m1\<rparr>)"
      "\<And>x. nm_get S m1 x = (if lasto as = Some x then map_option (tn_next_update (\<lambda>_. heado bs)) (nm_get S (tw_nodes w) x)
         else nm_get S (tw_nodes w) x)"
  proof (cases "as = []")
    case True
    show ?thesis
      by (rule that [of "tw_nodes w"])
        (use True l wheel_repD(1) [OF rep] in \<open>auto simp: pn n(2) w1_def wheel_consts\<close>)
  next
    case False
    obtain nx where nx: "nm_get S (tw_nodes w) (last as) = Some nx" using get [of "last as"] False by auto
    have p: "lasto as = Some (last as)" using False by (simp add: lasto_def)
    show ?thesis
      by (rule that [of "nm_insert S (last as) (nx\<lparr>tn_next := heado bs\<rparr>) (tw_nodes w)"])
        (auto simp: pn p node_modify_Some [OF nx] w1_def False get_insert nx)
  qed
  obtain m2 where m2: "(case tn_next n of Some nxt \<Rightarrow> node_modify S nxt (\<lambda>n'. n'\<lparr>tn_prev := tn_prev n\<rparr>) (w1\<lparr>tw_nodes := m1\<rparr>)
         | None \<Rightarrow> Some (w1\<lparr>tw_nodes := m1\<rparr>)) = Some (w1\<lparr>tw_nodes := m2\<rparr>)"
      "\<And>x. nm_get S m2 x = (if heado bs = Some x then map_option (tn_prev_update (\<lambda>_. lasto as)) (nm_get S m1 x)
         else nm_get S m1 x)"
  proof (cases bs)
    case Nil
    show ?thesis by (rule that [of m1]) (simp_all add: pn Nil)
  next
    case (Cons x cs)
    have "nm_get S m1 x \<noteq> None" using get [of x] Cons by (auto simp: m1(2))
    then obtain nx where nx: "nm_get S m1 x = Some nx" by blast
    show ?thesis
      by (rule that [of "nm_insert S x (nx\<lparr>tn_prev := lasto as\<rparr>) m1"])
        (auto simp: pn Cons node_modify_def nx get_insert)
  qed
  have nk: "nm_get S m2 k = Some n"
    using dist n(1) by (auto simp: m1(2) m2(2) dest!: lasto_in heado_in)
  define ws where "ws = (if l \<noteq> DUE_LOCATION \<and> as @ bs = [] then clear_occupied l (tw_occupied w) else tw_occupied w)"
  define w' where "w' = w1\<lparr>tw_occupied := ws, tw_nodes := nm_insert S k
      (n\<lparr>tn_prev := None, tn_next := None, tn_location := DISARMED_LOCATION\<rparr>) m2\<rparr>"
  have hd: "head_at l (w1\<lparr>tw_nodes := m2\<rparr>) = heado (as @ bs)" using heads [OF l] by simp
  have "wheel_unlink S k w = Some w'"
    unfolding wheel_unlink_def n(1) option.case m1(1) m2(1) bind.bind_lunit Let_def
    using hd nk by (simp add: n(2) w'_def ws_def node_modify_def w1n)
  moreover have "wheel_rep S w' (L(l := as @ bs))"
  proof (rule rep_unlinked [OF rep L, where t = t])
    show "tlinks S (tw_nodes w') = unlinked k (lasto as) (heado bs) (tlinks S (tw_nodes w))"
      by (auto simp: w'_def fun_eq_iff tlinks_def get_insert unlinked_def m1(2) m2(2) option.map_comp o_def)
    show "nview S (tw_nodes w') = (nview S (tw_nodes w))(k \<mapsto> (t, DISARMED_LOCATION))"
      by (auto simp: w'_def fun_eq_iff nview_def get_insert m1(2) m2(2) option.map_comp o_def n(3))
    show "length (tw_heads w') = 256" "length (tw_occupied w') = 4"
      using wheel_repD(2) [OF rep] by (simp_all add: w'_def w1n ws_def)
    show "head_at l' w' = (if l' = l then heado (as @ bs) else head_at l' w)" if "l' \<le> 256" for l'
      using heads [OF that] by (simp add: w'_def)
    show "occupied_at (tw_occupied w') s \<longleftrightarrow> (if s = l then as @ bs \<noteq> [] else occupied_at (tw_occupied w) s)"
      if "s < 256" for s
      using wheel_repD(2) [OF rep] wheel_repD(7) [OF rep that] that l
      by (auto simp: w'_def ws_def L wheel_consts occupied_at_clear)
  qed
  moreover have "nview S (tw_nodes w') = (nview S (tw_nodes w))(k \<mapsto> (t, DISARMED_LOCATION))"
    by (auto simp: w'_def fun_eq_iff nview_def get_insert m1(2) m2(2) option.map_comp o_def n(3))
  moreover have "clock_of w' = clock_of w" using w1n(3) by (simp add: w'_def clock_of_def)
  ultimately show ?thesis using that nv by blast
qed

end

subsection \<open>Draining\<close>

lemma slot_of_mod: "slot_of t = t mod 256"
  using take_bit_eq_mask [of 8 t] by (simp add: slot_of_def mask_eq_exp_minus_1 take_bit_eq_mod)

lemma slot_of_window:
  assumes "slot_of a = slot_of b" and "a < b + 256" and "b < a + 256"
  shows "a = b"
proof -
  have "int a mod 256 = int b mod 256" using assms(1) unfolding slot_of_mod by (metis of_nat_mod of_nat_numeral)
  then obtain q where "int a - int b = 256 * q" by (auto simp: mod_eq_dvd_iff dvd_def)
  moreover from this have "256 * q < 256" "- 256 < 256 * q" using assms(2,3) by linarith+
  then have "q = 0" by simp
  ultimately show ?thesis by simp
qed

definition disarmed :: "'k list \<Rightarrow> ('k \<Rightarrow> (nat \<times> nat) option) \<Rightarrow> 'k \<Rightarrow> (nat \<times> nat) option" where
  "disarmed ks v k = (if k \<in> set ks then map_option (\<lambda>(t, l). (t, DISARMED_LOCATION)) (v k) else v k)"

lemma disarmed_append: "disarmed ys (disarmed xs v) = disarmed (xs @ ys) v"
  by (auto simp: disarmed_def fun_eq_iff option.map_comp o_def case_prod_unfold)

lemma disarmed_Nil [simp]: "disarmed [] v = v"
  by (simp add: disarmed_def fun_eq_iff)

definition emptied :: "nat set \<Rightarrow> (nat \<Rightarrow> 'k list) \<Rightarrow> nat \<Rightarrow> 'k list" where
  "emptied A L l = (if l \<in> A then [] else L l)"

lemma emptied_compose: "emptied A (emptied B L) = emptied (A \<union> B) L"
  by (auto simp: emptied_def fun_eq_iff)

lemma emptied_none [simp]: "emptied {} L = L"
  by (simp add: emptied_def fun_eq_iff)

lemma emptied_other: "l \<notin> A \<Longrightarrow> emptied A L l = L l"
  by (simp add: emptied_def)

context node_store
begin

lemma drain_location_rep:
  assumes "wheel_rep S w L" and "l \<le> 256"
  shows "\<exists>w'. drain_location S l w fired = Some (w', fired @ L l) \<and> wheel_rep S w' (emptied {l} L) \<and>
     nview S (tw_nodes w') = disarmed (L l) (nview S (tw_nodes w)) \<and> clock_of w' = clock_of w"
  using assms(1)
proof (induction "L l" arbitrary: w L fired)
  case Nil
  have Ll: "L l = []" using Nil.hyps by simp
  have "emptied {l} L = L" by (auto simp: emptied_def fun_eq_iff Ll)
  moreover have "head_at l w = None" using wheel_repD(5) [OF Nil.prems assms(2)] by (simp add: Ll)
  ultimately show ?case using Nil.prems by (subst drain_location.simps) (simp add: Ll)
next
  case (Cons k ks)
  have Ll: "L l = k # ks" using Cons.hyps(2) by simp
  have h: "head_at l w = Some k" using wheel_repD(5) [OF Cons.prems assms(2)] by (simp add: Ll)
  obtain w1 t where w1: "wheel_unlink S k w = Some w1" "wheel_rep S w1 (L(l := [] @ ks))"
      "nview S (tw_nodes w) k = Some (t, l)" "nview S (tw_nodes w1) = (nview S (tw_nodes w))(k \<mapsto> (t, DISARMED_LOCATION))"
      "clock_of w1 = clock_of w"
    using unlink_rep [OF Cons.prems, of l "[]" k ks] Ll by auto
  have "nm_get S (tw_nodes w) k \<noteq> None" using w1(3) by (auto simp: nview_def)
  then have step: "drain_location S l w fired = drain_location S l w1 (fired @ [k])"
    by (subst drain_location.simps) (auto simp: h w1(1))
  have "(L(l := [] @ ks)) l = ks" by simp
  from Cons.hyps(1) [OF this [symmetric] w1(2), of "fired @ [k]"]
  obtain w' where w': "drain_location S l w1 (fired @ [k]) = Some (w', (fired @ [k]) @ ks)"
      "wheel_rep S w' (emptied {l} (L(l := [] @ ks)))" "nview S (tw_nodes w') = disarmed ks (nview S (tw_nodes w1))"
      "clock_of w' = clock_of w1" by auto
  have "emptied {l} (L(l := [] @ ks)) = emptied {l} L" by (auto simp: emptied_def fun_eq_iff)
  moreover have "disarmed ks (nview S (tw_nodes w1)) = disarmed (L l) (nview S (tw_nodes w))"
    unfolding Ll w1(4) using w1(3) by (auto simp: disarmed_def fun_eq_iff)
  ultimately show ?case using w' w1(5) by (simp add: step Ll)
qed

lemma drain_slots_rep:
  assumes "wheel_rep S w L" and "distinct slots" and "\<forall>l\<in>set slots. l \<le> 256"
  shows "\<exists>w'. drain_slots S slots w fired = Some (w', fired @ concat (map L slots)) \<and>
     wheel_rep S w' (emptied (set slots) L) \<and>
     nview S (tw_nodes w') = disarmed (concat (map L slots)) (nview S (tw_nodes w)) \<and> clock_of w' = clock_of w"
  using assms
proof (induction slots arbitrary: w L fired)
  case Nil
  then show ?case by simp
next
  case (Cons l slots)
  obtain w1 where w1: "drain_location S l w fired = Some (w1, fired @ L l)" "wheel_rep S w1 (emptied {l} L)"
      "nview S (tw_nodes w1) = disarmed (L l) (nview S (tw_nodes w))" "clock_of w1 = clock_of w"
    using drain_location_rep [OF Cons.prems(1), of l fired] Cons.prems(3) by auto
  have same: "map (emptied {l} L) slots = map L slots"
    using Cons.prems(2) by (intro map_cong refl emptied_other) auto
  obtain w' where "drain_slots S slots w1 (fired @ L l) = Some (w', (fired @ L l) @ concat (map (emptied {l} L) slots))"
      "wheel_rep S w' (emptied (set slots) (emptied {l} L))"
      "nview S (tw_nodes w') = disarmed (concat (map (emptied {l} L) slots)) (nview S (tw_nodes w1))" "clock_of w' = clock_of w1"
    using Cons.IH [OF w1(2), of "fired @ L l"] Cons.prems(2,3) by auto
  then show ?case using w1 by (simp add: same emptied_compose disarmed_append insert_is_Un [symmetric] Un_commute)
qed

lemma wheel_rep_tick: "wheel_rep S (w\<lparr>tw_current_tick := n\<rparr>) L = wheel_rep S w L"
  "wheel_rep S (w\<lparr>tw_last_now := t\<rparr>) L = wheel_rep S w L"
  by (simp_all add: wheel_rep_def)

end

declare drain_ticks.simps [simp del]

context node_store
begin

lemma drain_ticks_rep:
  assumes "wheel_rep S w L" and "tick \<le> target" and "target < tick + 256" and "tw_current_tick w = tick"
  shows "\<exists>w'. drain_ticks S tick target w fired = Some (w', fired @ concat (map (\<lambda>t. L (slot_of t)) [Suc tick..<Suc target])) \<and>
     wheel_rep S w' (emptied (slot_of ` {tick<..target}) L) \<and>
     nview S (tw_nodes w') = disarmed (concat (map (\<lambda>t. L (slot_of t)) [Suc tick..<Suc target])) (nview S (tw_nodes w)) \<and>
     clock_of w' = (tw_epoch w, tw_last_now w, target)"
  using assms
proof (induction "target - tick" arbitrary: tick w L fired)
  case 0
  then have "target = tick" by simp
  then show ?case using 0 by (subst drain_ticks.simps) (auto simp: clock_of_def)
next
  case (Suc n)
  have lt: "tick < target" using Suc.hyps(2) by simp
  let ?l = "slot_of (Suc tick)"
  have l: "?l \<le> 256" by (simp add: slot_of_mod less_imp_le)
  have "wheel_rep S (w\<lparr>tw_current_tick := Suc tick\<rparr>) L" using Suc.prems(1) by (simp add: wheel_rep_tick)
  from drain_location_rep [OF this l, of fired]
  obtain w1 where w1: "drain_location S ?l (w\<lparr>tw_current_tick := Suc tick\<rparr>) fired = Some (w1, fired @ L ?l)"
      "wheel_rep S w1 (emptied {?l} L)" "nview S (tw_nodes w1) = disarmed (L ?l) (nview S (tw_nodes w))"
      "clock_of w1 = (tw_epoch w, tw_last_now w, Suc tick)" by (auto simp: clock_of_def)
  have other: "emptied {?l} L (slot_of t) = L (slot_of t)" if "t \<in> {Suc tick<..target}" for t
    using that Suc.prems(3) slot_of_window [of t "Suc tick"] by (intro emptied_other) auto
  then have same: "map (\<lambda>t. emptied {?l} L (slot_of t)) [Suc (Suc tick)..<Suc target] =
      map (\<lambda>t. L (slot_of t)) [Suc (Suc tick)..<Suc target]" by auto
  have "n = target - Suc tick" "Suc tick \<le> target" "target < Suc tick + 256" "tw_current_tick w1 = Suc tick"
    using Suc.hyps(2) Suc.prems(3) lt w1(4) by (auto simp: clock_of_def)
  from Suc.hyps(1) [OF this(1) w1(2) this(2-4), of "fired @ L ?l"] 
  obtain w' where w': "drain_ticks S (Suc tick) target w1 (fired @ L ?l) =
        Some (w', (fired @ L ?l) @ concat (map (\<lambda>t. L (slot_of t)) [Suc (Suc tick)..<Suc target]))"
      "wheel_rep S w' (emptied (slot_of ` {Suc tick<..target}) (emptied {?l} L))"
      "nview S (tw_nodes w') = disarmed (concat (map (\<lambda>t. L (slot_of t)) [Suc (Suc tick)..<Suc target])) (nview S (tw_nodes w1))"
      "clock_of w' = (tw_epoch w1, tw_last_now w1, target)" unfolding same by blast
  have "{tick<..target} = insert (Suc tick) {Suc tick<..target}" using lt by auto
  then have "emptied (slot_of ` {Suc tick<..target}) (emptied {?l} L) = emptied (slot_of ` {tick<..target}) L"
    by (simp add: emptied_compose)
  moreover have "[Suc tick..<Suc target] = Suc tick # [Suc (Suc tick)..<Suc target]" using lt by (simp add: upt_conv_Cons)
  moreover have "drain_ticks S tick target w fired = drain_ticks S (Suc tick) target w1 (fired @ L ?l)"
    using lt w1(1) by (subst drain_ticks.simps) simp
  ultimately show ?case using w' w1(3,4) by (simp add: disarmed_append clock_of_def del: upt_Suc)
qed

end

subsection \<open>Timers\<close>

text \<open>The tick at which each armed timer is to fire.\<close>

definition timers :: "('m, 'k) node_map \<Rightarrow> ('m, 'k) TimerWheel \<Rightarrow> 'k \<Rightarrow> nat option" where
  "timers S w k = (case nview S (tw_nodes w) k of
     Some (t, l) \<Rightarrow> if l = DISARMED_LOCATION then None else Some t | None \<Rightarrow> None)"

definition clock_ok :: "('m, 'k) TimerWheel \<Rightarrow> bool" where
  "clock_ok w \<longleftrightarrow> tw_epoch w \<le> tw_last_now w \<and>
     tw_current_tick w = nat (tw_last_now w - tw_epoch w) div SHARD_TIMER_QUANTUM \<and>
     (tw_current_tick w + 256) * SHARD_TIMER_QUANTUM \<le> U64_MAX"

definition wheel_ok :: "('m, 'k) node_map \<Rightarrow> ('m, 'k) TimerWheel \<Rightarrow> bool" where
  "wheel_ok S w \<longleftrightarrow> (\<exists>L. wheel_rep S w L) \<and> clock_ok w \<and>
     (\<forall>k t l. nview S (tw_nodes w) k = Some (t, l) \<longrightarrow>
        (l = DUE_LOCATION \<longrightarrow> t \<le> tw_current_tick w) \<and>
        (l < SLOT_COUNT \<longrightarrow> l = slot_of t \<and> tw_current_tick w < t \<and> t < tw_current_tick w + 256))"

text \<open>The tick a deadline is assigned.\<close>

definition assigned_tick :: "int \<Rightarrow> ('m, 'k) TimerWheel \<Rightarrow> nat" where
  "assigned_tick deadline w = (if deadline \<le> tw_last_now w then tw_current_tick w
     else min ((nat (deadline - tw_epoch w) + (SHARD_TIMER_QUANTUM - 1)) div SHARD_TIMER_QUANTUM) (tw_current_tick w + 255))"

lemma clock_of_ok: "clock_of w' = clock_of w \<Longrightarrow> clock_ok w \<Longrightarrow> clock_ok w'"
  by (auto simp: clock_of_def clock_ok_def)

lemma assigned_tick_later:
  assumes "clock_ok w" and "\<not> deadline \<le> tw_last_now w"
  shows "tw_current_tick w < assigned_tick deadline w" and "assigned_tick deadline w < tw_current_tick w + 256"
    and "min (deadline_tick deadline w) (sat64 (tw_current_tick w + (SLOT_COUNT - 1))) = assigned_tick deadline w"
proof -
  let ?q = "SHARD_TIMER_QUANTUM"
  have c: "tw_current_tick w = nat (tw_last_now w - tw_epoch w) div ?q" "tw_current_tick w + 256 \<le> U64_MAX"
      "tw_epoch w \<le> tw_last_now w" using assms(1) by (simp_all add: clock_ok_def SHARD_TIMER_QUANTUM_def)
  have q: "0 < ?q" by (simp add: SHARD_TIMER_QUANTUM_def)
  have "nat (tw_last_now w - tw_epoch w) < nat (deadline - tw_epoch w)" using assms(2) c(3) by simp
  then have "tw_current_tick w * ?q < nat (deadline - tw_epoch w)"
    using c(1) by (metis div_times_less_eq_dividend le_less_trans)
  then have "Suc (tw_current_tick w) * ?q \<le> nat (deadline - tw_epoch w) + (?q - 1)" using q by simp
  then have "Suc (tw_current_tick w) \<le> (nat (deadline - tw_epoch w) + (?q - 1)) div ?q"
    using q by (simp add: less_eq_div_iff_mult_less_eq)
  then show "tw_current_tick w < assigned_tick deadline w" using assms(2) by (simp add: assigned_tick_def)
  show "assigned_tick deadline w < tw_current_tick w + 256" using assms(2) by (simp add: assigned_tick_def)
  show "min (deadline_tick deadline w) (sat64 (tw_current_tick w + (SLOT_COUNT - 1))) = assigned_tick deadline w"
    using assms(2) c(2) q
    by (auto simp: assigned_tick_def deadline_tick_def sat64_def SLOT_COUNT_def Let_def min_def Nat.add_diff_assoc)
qed

definition place_ok :: "nat \<Rightarrow> nat \<Rightarrow> nat \<Rightarrow> bool" where
  "place_ok now t l \<longleftrightarrow> (l = DUE_LOCATION \<longrightarrow> t \<le> now) \<and>
     (l < SLOT_COUNT \<longrightarrow> l = slot_of t \<and> now < t \<and> t < now + 256)"

lemma wheel_ok_places: "wheel_ok S w \<longleftrightarrow> (\<exists>L. wheel_rep S w L) \<and> clock_ok w \<and>
    (\<forall>k t l. nview S (tw_nodes w) k = Some (t, l) \<longrightarrow> place_ok (tw_current_tick w) t l)"
  by (simp add: wheel_ok_def place_ok_def)

lemma place_ok_disarmed [simp]: "place_ok now t DISARMED_LOCATION"
  by (simp add: place_ok_def wheel_consts)

lemma timers_upd:
  assumes "nview S (tw_nodes w') = (nview S (tw_nodes w))(k := p)"
  shows "timers S w' = (timers S w)(k := (case p of Some (t, l) \<Rightarrow> if l = DISARMED_LOCATION then None else Some t | None \<Rightarrow> None))"
  by (simp add: timers_def fun_eq_iff assms)

lemma wheel_ok_upd:
  assumes "wheel_ok S w" and "wheel_rep S w' L" and "clock_of w' = clock_of w"
    and "nview S (tw_nodes w') = (nview S (tw_nodes w))(k := p)"
    and "\<And>t l. p = Some (t, l) \<Longrightarrow> place_ok (tw_current_tick w) t l"
  shows "wheel_ok S w'"
proof -
  have "tw_current_tick w' = tw_current_tick w" "clock_ok w'"
    using assms(1,3) clock_of_ok by (auto simp: clock_of_def wheel_ok_def)
  then show ?thesis using assms unfolding wheel_ok_places by auto
qed

lemma rep_nodes:
  assumes "wheel_rep S w L" and "\<And>l. k \<notin> set (L l)" and "\<And>j. j \<noteq> k \<Longrightarrow> nm_get S m j = nm_get S (tw_nodes w) j"
    and "\<And>t l. nview S m k = Some (t, l) \<Longrightarrow> l = DISARMED_LOCATION"
  shows "wheel_rep S (w\<lparr>tw_nodes := m\<rparr>) L"
proof -
  have other: "nview S m j = nview S (tw_nodes w) j" "tlinks S m j = tlinks S (tw_nodes w) j" if "j \<noteq> k" for j
    using assms(3) [OF that] by (simp_all add: nview_def tlinks_def)
  have "links (tlinks S m) (L l)" for l
    using wheel_repD(4) [OF assms(1)] by (rule links_frame) (use other assms(2) in metis)
  moreover have "j \<in> set (L l') \<longleftrightarrow> l' = l \<and> l \<noteq> 257" if "nview S m j = Some (t, l)" for j t l l'
    using that assms(2,4) other(1) wheel_repD(6) [OF assms(1), of j t l l'] by (cases "j = k") (auto simp: wheel_consts)
  ultimately show ?thesis using wheel_repD [OF assms(1)] by (simp add: wheel_rep_def wheel_consts)
qed

lemma rep_unlisted:
  assumes "wheel_rep S w L" and "nview S (tw_nodes w) k = None \<or> nview S (tw_nodes w) k = Some (t, DISARMED_LOCATION)"
  shows "k \<notin> set (L l)"
proof
  assume "k \<in> set (L l)"
  then obtain t' where "nview S (tw_nodes w) k = Some (t', l)" "l \<le> 256" using wheel_rep_node [OF assms(1)] by metis
  then show False using assms(2) by (simp add: wheel_consts)
qed

context node_store
begin

text \<open>Linking a timer that is not armed.\<close>

lemma link_ok:
  assumes "wheel_ok S w" and "nview S (tw_nodes w) k = Some (t0, DISARMED_LOCATION)" and "l \<le> DUE_LOCATION"
    and "place_ok (tw_current_tick w) t l"
  shows "\<exists>w'. wheel_link S k l t w = Some w' \<and> wheel_ok S w' \<and> timers S w' = (timers S w)(k \<mapsto> t) \<and> clock_of w' = clock_of w"
proof -
  obtain L where rep: "wheel_rep S w L" using assms(1) by (auto simp: wheel_ok_def)
  obtain w' where w': "wheel_link S k l t w = Some w'" "wheel_rep S w' (L(l := k # L l))"
      "nview S (tw_nodes w') = (nview S (tw_nodes w))(k \<mapsto> (t, l))" "clock_of w' = clock_of w"
    using link_rep [OF rep assms(2,3), of t] by blast
  moreover have "wheel_ok S w'" using wheel_ok_upd [OF assms(1) w'(2,4,3)] assms(4) by simp
  moreover have "timers S w' = (timers S w)(k \<mapsto> t)"
    using timers_upd [OF w'(3)] assms(3) by (simp add: wheel_consts)
  ultimately show ?thesis by blast
qed

text \<open>Disarming a timer.\<close>

lemma disarm_ok:
  assumes "wheel_ok S w" and "nview S (tw_nodes w) k = Some (t, l)"
  shows "\<exists>w'. (if l \<noteq> DISARMED_LOCATION then wheel_unlink S k w else Some w) = Some w' \<and> wheel_ok S w' \<and>
     nview S (tw_nodes w') = (nview S (tw_nodes w))(k \<mapsto> (t, DISARMED_LOCATION)) \<and> clock_of w' = clock_of w"
proof (cases "l = DISARMED_LOCATION")
  case True
  then show ?thesis using assms by (auto simp: fun_upd_idem)
next
  case False
  obtain L where rep: "wheel_rep S w L" using assms(1) by (auto simp: wheel_ok_def)
  have "k \<in> set (L l)" using wheel_repD(6) [OF rep assms(2)] False by (simp add: wheel_consts)
  then obtain as bs where "L l = as @ k # bs" by (meson split_list)
  from unlink_rep [OF rep this] obtain w' t' where w': "wheel_unlink S k w = Some w'" "wheel_rep S w' (L(l := as @ bs))"
      "nview S (tw_nodes w) k = Some (t', l)" "nview S (tw_nodes w') = (nview S (tw_nodes w))(k \<mapsto> (t', DISARMED_LOCATION))"
      "clock_of w' = clock_of w" by metis
  then show ?thesis using wheel_ok_upd [OF assms(1) w'(2,5,4)] assms(2) False by auto
qed

lemma nview_remove: "nview S (nm_remove S k m) = (nview S m)(k := None)"
  by (simp add: nview_def fun_eq_iff get_remove)

lemma schedule_ok:
  assumes "wheel_ok S w"
  shows "\<exists>w'. schedule S k deadline w = Some w' \<and> wheel_ok S w' \<and>
     timers S w' = (timers S w)(k \<mapsto> assigned_tick deadline w) \<and> clock_of w' = clock_of w"
proof -
  define t where "t = assigned_tick deadline w"
  define l where "l = (if deadline \<le> tw_last_now w then DUE_LOCATION else slot_of t)"
  have clock: "clock_ok w" using assms by (simp add: wheel_ok_def)
  have lt: "(if deadline \<le> tw_last_now w then (DUE_LOCATION, tw_current_tick w)
      else let tick = min (deadline_tick deadline w) (sat64 (tw_current_tick w + (SLOT_COUNT - 1)))
              in (slot_of tick, tick)) = (l, t)"
  proof (cases "deadline \<le> tw_last_now w")
    case True
    then show ?thesis by (simp add: l_def t_def assigned_tick_def)
  next
    case False
    then show ?thesis using assigned_tick_later(3) [OF clock False] by (simp add: l_def t_def Let_def)
  qed
  have place: "place_ok (tw_current_tick w) t l" "l \<le> DUE_LOCATION"
    using assigned_tick_later(1,2) [OF clock]
    by (auto simp: place_ok_def l_def t_def wheel_consts slot_of_mod assigned_tick_def less_imp_le)
  show ?thesis
  proof (cases "nm_get S (tw_nodes w) k")
    case None
    obtain L where rep: "wheel_rep S w L" using assms by (auto simp: wheel_ok_def)
    have nv: "nview S (tw_nodes w) k = None" using None by (simp add: nview_def)
    let ?w = "w\<lparr>tw_nodes := nm_insert S k node_new (tw_nodes w)\<rparr>"
    have n1: "nview S (tw_nodes ?w) = (nview S (tw_nodes w))(k \<mapsto> (0, DISARMED_LOCATION))"
      by (simp add: nview_insert node_new_def)
    have "wheel_rep S ?w L"
      using rep_unlisted [OF rep, of k] nv by (intro rep_nodes [OF rep]) (auto simp: get_insert nview_insert node_new_def)
    then have ok: "wheel_ok S ?w" using wheel_ok_upd [OF assms _ _ n1] by (simp add: clock_of_def)
    have "timers S ?w = timers S w" using timers_upd [OF n1] nv by (simp add: fun_eq_iff timers_def)
    moreover have "clock_of ?w = clock_of w" by (simp add: clock_of_def)
    ultimately show ?thesis
      using link_ok [OF ok _ place(2), of k 0 t] place(1) n1 None by (simp add: schedule_def lt t_def [symmetric])
  next
    case (Some n)
    then have nv: "nview S (tw_nodes w) k = Some (tn_deadline_tick n, tn_location n)" by (simp add: nview_def)
    show ?thesis
    proof (cases "tn_location n = l \<and> tn_deadline_tick n = t")
      case True
      then have "(timers S w) k = Some t" using nv place(2) by (simp add: timers_def wheel_consts)
      then show ?thesis using True Some assms by (simp add: schedule_def lt t_def [symmetric] fun_upd_idem)
    next
      case False
      obtain w1 where w1: "(if tn_location n \<noteq> DISARMED_LOCATION then wheel_unlink S k w else Some w) = Some w1" "wheel_ok S w1"
          "nview S (tw_nodes w1) = (nview S (tw_nodes w))(k \<mapsto> (tn_deadline_tick n, DISARMED_LOCATION))" "clock_of w1 = clock_of w"
        using disarm_ok [OF assms nv] by blast
      then have "nview S (tw_nodes w1) k = Some (tn_deadline_tick n, DISARMED_LOCATION)"
          "place_ok (tw_current_tick w1) t l" using place(1) by (auto simp: clock_of_def)
      from link_ok [OF w1(2) this(1) place(2) this(2)] show ?thesis
        using timers_upd [OF w1(3)] w1(1,4) Some False
        by (auto simp: schedule_def lt t_def [symmetric] is_armed_def)
    qed
  qed
qed

lemma cancel_ok:
  assumes "wheel_ok S w"
  shows "\<exists>w'. cancel S k w = Some w' \<and> wheel_ok S w' \<and> timers S w' = (timers S w)(k := None) \<and> clock_of w' = clock_of w"
proof (cases "nm_get S (tw_nodes w) k")
  case None
  then have "timers S w k = None" by (simp add: timers_def nview_def)
  then show ?thesis using None assms by (simp add: cancel_def fun_upd_idem)
next
  case (Some n)
  then have nv: "nview S (tw_nodes w) k = Some (tn_deadline_tick n, tn_location n)" by (simp add: nview_def)
  obtain w1 where w1: "(if tn_location n \<noteq> DISARMED_LOCATION then wheel_unlink S k w else Some w) = Some w1" "wheel_ok S w1"
      "nview S (tw_nodes w1) = (nview S (tw_nodes w))(k \<mapsto> (tn_deadline_tick n, DISARMED_LOCATION))" "clock_of w1 = clock_of w"
    using disarm_ok [OF assms nv] by blast
  obtain L where rep: "wheel_rep S w1 L" using w1(2) by (auto simp: wheel_ok_def)
  let ?w = "w1\<lparr>tw_nodes := nm_remove S k (tw_nodes w1)\<rparr>"
  have n1: "nview S (tw_nodes ?w) = (nview S (tw_nodes w1))(k := None)"
    by (simp add: nview_remove)
  have "wheel_rep S ?w L"
    using rep_unlisted [OF rep, of k] w1(3) by (intro rep_nodes [OF rep]) (auto simp: get_remove nview_remove)
  then have "wheel_ok S ?w" using wheel_ok_upd [OF w1(2) _ _ n1] by (simp add: clock_of_def)
  moreover have "timers S ?w = (timers S w)(k := None)"
    using timers_upd [OF n1] timers_upd [OF w1(3)] by simp
  moreover have "clock_of ?w = clock_of w" using w1(4) by (simp add: clock_of_def)
  moreover have "cancel S k w = Some ?w" using Some w1(1) by (simp add: cancel_def is_armed_def)
  ultimately show ?thesis by blast
qed

end

lemma distinct_concat_map:
  assumes "distinct ls" and "\<And>l. l \<in> set ls \<Longrightarrow> distinct (f l)"
    and "\<And>l l'. l \<in> set ls \<Longrightarrow> l' \<in> set ls \<Longrightarrow> l \<noteq> l' \<Longrightarrow> set (f l) \<inter> set (f l') = {}"
  shows "distinct (concat (map f ls))"
  using assms
proof (induction ls)
  case Nil
  then show ?case by simp
next
  case (Cons l ls)
  have "set (f l) \<inter> set (f l') = {}" if "l' \<in> set ls" for l'
    using Cons.prems(1,3) that by (metis distinct.simps(2) list.set_intros)
  then show ?case using Cons by auto
qed

lemma wheel_rep_disjoint:
  assumes "wheel_rep S w L"
  shows "distinct (L l)" and "l \<noteq> l' \<Longrightarrow> set (L l) \<inter> set (L l') = {}"
proof -
  show "distinct (L l)" using links_distinct [OF wheel_repD(4) [OF assms]] .
  show "set (L l) \<inter> set (L l') = {}" if "l \<noteq> l'"
    using that wheel_rep_node [OF assms] by (metis disjoint_iff option.inject prod.inject)
qed

text \<open>Where the armed timers are.\<close>

lemma timers_listed:
  assumes "wheel_ok S w" and "wheel_rep S w L"
  shows "timers S w k = Some t \<longleftrightarrow> (\<exists>l\<le>256. k \<in> set (L l) \<and> nview S (tw_nodes w) k = Some (t, l))"
proof
  assume "timers S w k = Some t"
  then obtain l where n: "nview S (tw_nodes w) k = Some (t, l)" "l \<noteq> DISARMED_LOCATION"
    by (auto simp: timers_def split: option.splits if_splits)
  then have "k \<in> set (L l)" using wheel_repD(6) [OF assms(2) n(1)] by (simp add: wheel_consts)
  then show "\<exists>l\<le>256. k \<in> set (L l) \<and> nview S (tw_nodes w) k = Some (t, l)"
    using wheel_rep_node [OF assms(2)] n(1) by metis
next
  assume "\<exists>l\<le>256. k \<in> set (L l) \<and> nview S (tw_nodes w) k = Some (t, l)"
  then show "timers S w k = Some t" by (auto simp: timers_def wheel_consts)
qed

lemma listed_place:
  assumes "wheel_ok S w" and "wheel_rep S w L" and "k \<in> set (L l)"
  obtains t where "timers S w k = Some t" "nview S (tw_nodes w) k = Some (t, l)"
    "l = 256 \<and> t \<le> tw_current_tick w \<or> l = slot_of t \<and> l < 256 \<and> tw_current_tick w < t \<and> t < tw_current_tick w + 256"
proof -
  obtain t where t: "nview S (tw_nodes w) k = Some (t, l)" "l \<le> 256" using wheel_rep_node [OF assms(2,3)] .
  then have "place_ok (tw_current_tick w) t l" using assms(1) by (simp add: wheel_ok_places)
  moreover have "timers S w k = Some t" using timers_listed [OF assms(1,2)] t assms(3) by blast
  ultimately show ?thesis using that [OF _ t(1)] t(2) by (auto simp: place_ok_def wheel_consts)
qed

text \<open>The timers a drain at tick \<open>target\<close> takes.\<close>

lemma timer_due_listed:
  assumes "wheel_ok S w" and "wheel_rep S w L" and "tw_current_tick w \<le> target"
  shows "(\<exists>t. timers S w k = Some t \<and> t \<le> target) \<longleftrightarrow>
     k \<in> set (L 256) \<or> (if target < tw_current_tick w + 256 then \<exists>t. tw_current_tick w < t \<and> t \<le> target \<and> k \<in> set (L (slot_of t))
       else \<exists>l<256. k \<in> set (L l))"
proof
  assume "\<exists>t. timers S w k = Some t \<and> t \<le> target"
  then obtain t l where t: "timers S w k = Some t" "t \<le> target" "k \<in> set (L l)"
    using timers_listed [OF assms(1,2)] by blast
  from listed_place [OF assms(1,2) t(3)] t(1) have
    "l = 256 \<and> t \<le> tw_current_tick w \<or> l = slot_of t \<and> l < 256 \<and> tw_current_tick w < t" by (metis option.inject)
  with t(2,3) show "k \<in> set (L 256) \<or> (if target < tw_current_tick w + 256 then \<exists>t. tw_current_tick w < t \<and> t \<le> target \<and> k \<in> set (L (slot_of t))
       else \<exists>l<256. k \<in> set (L l))"
    by auto
next
  assume r: "k \<in> set (L 256) \<or> (if target < tw_current_tick w + 256 then \<exists>t. tw_current_tick w < t \<and> t \<le> target \<and> k \<in> set (L (slot_of t))
       else \<exists>l<256. k \<in> set (L l))"
  then obtain l where kl: "k \<in> set (L l)" by (auto split: if_splits)
  from listed_place [OF assms(1,2) this] obtain t where t: "timers S w k = Some t" "nview S (tw_nodes w) k = Some (t, l)"
    "l = 256 \<and> t \<le> tw_current_tick w \<or> l = slot_of t \<and> l < 256 \<and> tw_current_tick w < t \<and> t < tw_current_tick w + 256" .
  have at: "l' = l" if "k \<in> set (L l')" for l' using that kl wheel_rep_disjoint(2) [OF assms(2)] by blast
  have "t \<le> target"
  proof (cases "k \<in> set (L 256)")
    case True
    then show ?thesis using at t(3) assms(3) by auto
  next
    case False
    show ?thesis
    proof (cases "target < tw_current_tick w + 256")
      case True
      then obtain t' where t': "tw_current_tick w < t'" "t' \<le> target" "k \<in> set (L (slot_of t'))" using r False by auto
      then have "slot_of t' = slot_of t" using at t(3) False kl by auto
      then have "t' = t" using slot_of_window [of t' t] t(3) t' True at [OF t'(3)] False kl by auto
      then show ?thesis using t'(2) by simp
    next
      case far: False
      then show ?thesis using t(3) assms(3) by auto
    qed
  qed
  then show "\<exists>t. timers S w k = Some t \<and> t \<le> target" using t(1) by blast
qed

text \<open>The host clock may not reach the end of the tick counter, in about 584 years.\<close>

definition in_range :: "int \<Rightarrow> ('m, 'k) TimerWheel \<Rightarrow> bool" where
  "in_range now w \<longleftrightarrow> tw_last_now w \<le> now \<and>
     (nat (now - tw_epoch w) div SHARD_TIMER_QUANTUM + 256) * SHARD_TIMER_QUANTUM \<le> U64_MAX"

definition tick_at :: "int \<Rightarrow> ('m, 'k) TimerWheel \<Rightarrow> nat" where
  "tick_at now w = nat (now - tw_epoch w) div SHARD_TIMER_QUANTUM"

lemma tick_at_later: "wheel_ok S w \<Longrightarrow> in_range now w \<Longrightarrow> tw_current_tick w \<le> tick_at now w"
  by (auto simp: wheel_ok_def clock_ok_def in_range_def tick_at_def intro!: div_le_mono)

lemma elapsed_ticks_exact: "in_range now w \<Longrightarrow> tw_epoch w' = tw_epoch w \<Longrightarrow> elapsed_ticks now w' = tick_at now w"
  by (auto simp: in_range_def tick_at_def elapsed_ticks_def sat64_def SHARD_TIMER_QUANTUM_def min_def)

context node_store
begin

lemma drain_expired_rep:
  assumes "wheel_ok S w" and "wheel_rep S w L" and "in_range now w"
  defines "slots \<equiv> (if tick_at now w < tw_current_tick w + 256
      then map slot_of [Suc (tw_current_tick w)..<Suc (tick_at now w)] else [0..<256])"
  shows "\<exists>w'. drain_expired S now w = Some (w', concat (map L (256 # slots))) \<and> wheel_rep S w' (emptied (set (256 # slots)) L) \<and>
     nview S (tw_nodes w') = disarmed (concat (map L (256 # slots))) (nview S (tw_nodes w)) \<and>
     clock_of w' = (tw_epoch w, now, tick_at now w) \<and> distinct (256 # slots)"
proof -
  let ?c = "tw_current_tick w" and ?t = "tick_at now w"
  have ct: "?c \<le> ?t" using tick_at_later [OF assms(1,3)] .
  obtain w1 where w1: "drain_location S DUE_LOCATION w [] = Some (w1, L 256)" "wheel_rep S w1 (emptied {256} L)"
      "nview S (tw_nodes w1) = disarmed (L 256) (nview S (tw_nodes w))" "clock_of w1 = clock_of w"
    using drain_location_rep [OF assms(2), of 256 "[]"] by (auto simp: wheel_consts)
  have e: "elapsed_ticks now w1 = ?t" "tw_current_tick w1 = ?c"
    using elapsed_ticks_exact [OF assms(3), of w1] w1(4) by (simp_all add: clock_of_def)
  have lt: "slot_of t < 256" for t by (simp add: slot_of_mod)
  show ?thesis
  proof (cases "?t < ?c + 256")
    case True
    have same: "map (\<lambda>t. emptied {256} L (slot_of t)) ts = map L (map slot_of ts)" for ts
      using lt by (auto simp: emptied_def) (metis less_irrefl)
    obtain w2 where w2: "drain_ticks S ?c ?t w1 (L 256) = Some (w2, L 256 @ concat (map L slots))"
        "wheel_rep S w2 (emptied (slot_of ` {?c<..?t}) (emptied {256} L))"
        "nview S (tw_nodes w2) = disarmed (concat (map L slots)) (nview S (tw_nodes w1))"
        "clock_of w2 = (tw_epoch w1, tw_last_now w1, ?t)"
      using drain_ticks_rep [OF w1(2) ct True e(2), of "L 256"] unfolding same slots_def using True by auto
    have "set slots = slot_of ` {?c<..?t}" using True by (auto simp: slots_def)
    then have rep: "wheel_rep S (w2\<lparr>tw_last_now := now\<rparr>) (emptied (set (256 # slots)) L)"
      using w2(2) by (simp add: wheel_rep_tick emptied_compose)
    have "inj_on slot_of (set [Suc ?c..<Suc ?t])"
      by (rule inj_onI) (use slot_of_window True in auto)
    moreover have "256 \<notin> set slots"
    proof
      assume "256 \<in> set slots"
      then obtain t where "256 = slot_of t" using True by (auto simp: slots_def)
      then show False using lt [of t] by simp
    qed
    ultimately have "distinct (256 # slots)" using True by (simp add: slots_def distinct_map)
    moreover have "\<not> 256 \<le> ?t - ?c" using True ct by simp
    then have "drain_expired S now w = Some (w2\<lparr>tw_last_now := now\<rparr>, concat (map L (256 # slots)))"
      using w2(1) by (simp add: drain_expired_def w1(1) e Let_def SLOT_COUNT_def)
    moreover have "clock_of (w2\<lparr>tw_last_now := now\<rparr>) = (tw_epoch w, now, ?t)"
      using w2(4) w1(4) by (simp add: clock_of_def)
    ultimately show ?thesis using rep w2(3) w1(3) by (auto simp: disarmed_append)
  next
    case False
    have same: "map (emptied {256} L) slots = map L slots"
      using False by (auto simp: slots_def emptied_def)
    have slots: "slots = [0..<256]" using False by (simp add: slots_def)
    have "wheel_rep S (w1\<lparr>tw_current_tick := ?t\<rparr>) (emptied {256} L)" using w1(2) by (simp add: wheel_rep_tick)
    from drain_slots_rep [OF this, of slots "L 256"]
    obtain w2 where w2: "drain_slots S slots (w1\<lparr>tw_current_tick := ?t\<rparr>) (L 256) = Some (w2, L 256 @ concat (map L slots))"
        "wheel_rep S w2 (emptied (set slots) (emptied {256} L))"
        "nview S (tw_nodes w2) = disarmed (concat (map L slots)) (nview S (tw_nodes w1))"
        "clock_of w2 = (tw_epoch w1, tw_last_now w1, ?t)"
      unfolding same by (auto simp: slots clock_of_def)
    have rep: "wheel_rep S (w2\<lparr>tw_last_now := now\<rparr>) (emptied (set (256 # slots)) L)"
      using w2(2) by (simp add: wheel_rep_tick emptied_compose Un_commute)
    moreover have "drain_expired S now w = Some (w2\<lparr>tw_last_now := now\<rparr>, concat (map L (256 # slots)))"
      using False w2(1) by (simp add: drain_expired_def w1(1) e Let_def SLOT_COUNT_def slots not_less le_diff_conv2 ct)
    moreover have "clock_of (w2\<lparr>tw_last_now := now\<rparr>) = (tw_epoch w, now, ?t)"
      using w2(4) w1(4) by (simp add: clock_of_def)
    ultimately show ?thesis using w2(3) w1(3) by (auto simp: disarmed_append slots)
  qed
qed

lemma drain_expired_ok:
  assumes "wheel_ok S w" and "in_range now w"
  shows "\<exists>w' fired. drain_expired S now w = Some (w', fired) \<and> wheel_ok S w' \<and> distinct fired \<and>
     (\<forall>k. k \<in> set fired \<longleftrightarrow> (\<exists>t. timers S w k = Some t \<and> t \<le> tick_at now w)) \<and>
     timers S w' = (\<lambda>k. if k \<in> set fired then None else timers S w k) \<and>
     clock_of w' = (tw_epoch w, now, tick_at now w)"
proof -
  obtain L where rep: "wheel_rep S w L" using assms(1) by (auto simp: wheel_ok_def)
  let ?c = "tw_current_tick w" and ?t = "tick_at now w"
  define slots where "slots = (if ?t < ?c + 256 then map slot_of [Suc ?c..<Suc ?t] else [0..<256])"
  define fired where "fired = concat (map L (256 # slots))"
  obtain w' where w': "drain_expired S now w = Some (w', fired)" "wheel_rep S w' (emptied (set (256 # slots)) L)"
      "nview S (tw_nodes w') = disarmed fired (nview S (tw_nodes w))" "clock_of w' = (tw_epoch w, now, ?t)" "distinct (256 # slots)"
    using drain_expired_rep [OF assms(1) rep assms(2)] unfolding slots_def [symmetric] fired_def by blast
  have "distinct fired" unfolding fired_def
    using w'(5) wheel_rep_disjoint [OF rep] by (intro distinct_concat_map) auto
  moreover have fired: "k \<in> set fired \<longleftrightarrow> (\<exists>t. timers S w k = Some t \<and> t \<le> ?t)" for k
    unfolding timer_due_listed [OF assms(1) rep tick_at_later [OF assms]]
    by (auto simp: fired_def slots_def Suc_le_eq less_Suc_eq_le)
  moreover have "timers S w' = (\<lambda>k. if k \<in> set fired then None else timers S w k)"
    by (auto simp: timers_def w'(3) disarmed_def fun_eq_iff split: option.split)
  moreover have "wheel_ok S w'"
    unfolding wheel_ok_places
  proof (intro conjI allI impI)
    show "\<exists>L. wheel_rep S w' L" using w'(2) by blast
    show "clock_ok w'" using assms w'(4) by (auto simp: clock_ok_def wheel_ok_def in_range_def clock_of_def tick_at_def)
    fix k t l
    assume n: "nview S (tw_nodes w') k = Some (t, l)"
    show "place_ok (tw_current_tick w') t l"
    proof (cases "l = DISARMED_LOCATION")
      case False
      then have n': "nview S (tw_nodes w) k = Some (t, l)" "k \<notin> set fired"
        using n by (auto simp: w'(3) disarmed_def split: if_splits)
      then have tk: "timers S w k = Some t" using False by (simp add: timers_def)
      then have "?t < t" using n'(2) fired by (metis not_less)
      moreover have "place_ok ?c t l" using assms(1) n'(1) by (simp add: wheel_ok_places)
      ultimately show ?thesis using tick_at_later [OF assms] w'(4) by (auto simp: place_ok_def clock_of_def)
    qed simp
  qed
  ultimately show ?thesis using w'(1,4) by blast
qed

end

subsection \<open>Runs\<close>

datatype 'k timer_call = Schedule 'k int | Cancel 'k | Drain int

fun wheel_step :: "('m, 'k) node_map \<Rightarrow> 'k timer_call \<Rightarrow> ('m, 'k) TimerWheel \<Rightarrow> (('m, 'k) TimerWheel \<times> 'k list) option" where
  "wheel_step S (Schedule k deadline) w = map_option (\<lambda>w. (w, [])) (schedule S k deadline w)"
| "wheel_step S (Cancel k) w = map_option (\<lambda>w. (w, [])) (cancel S k w)"
| "wheel_step S (Drain now) w = drain_expired S now w"

fun wheel_run :: "('m, 'k) node_map \<Rightarrow> 'k timer_call list \<Rightarrow> ('m, 'k) TimerWheel \<Rightarrow> (('m, 'k) TimerWheel \<times> 'k list list) option" where
  "wheel_run S [] w = Some (w, [])"
| "wheel_run S (call # calls) w = Option.bind (wheel_step S call w)
     (\<lambda>(w, fired). map_option (\<lambda>(w, outs). (w, fired # outs)) (wheel_run S calls w))"

text \<open>The drains of a run follow the clock, which stays below the end of the tick counter.\<close>

fun valid_calls :: "int \<Rightarrow> int \<Rightarrow> 'k timer_call list \<Rightarrow> bool" where
  "valid_calls epoch prior [] \<longleftrightarrow> True"
| "valid_calls epoch prior (Drain now # calls) \<longleftrightarrow> prior \<le> now \<and>
     (nat (now - epoch) div SHARD_TIMER_QUANTUM + 256) * SHARD_TIMER_QUANTUM \<le> U64_MAX \<and> valid_calls epoch now calls"
| "valid_calls epoch prior (_ # calls) \<longleftrightarrow> valid_calls epoch prior calls"

definition concerns :: "'k \<Rightarrow> 'k timer_call \<Rightarrow> bool" where
  "concerns k call \<longleftrightarrow> call = Cancel k \<or> (\<exists>d. call = Schedule k d)"

text \<open>
  The specification: each timer has a tick; a drain returns the timers whose tick the clock has
  reached.
\<close>

definition timer_spec_tick :: "int \<Rightarrow> int \<Rightarrow> int \<Rightarrow> nat" where
  "timer_spec_tick epoch prior deadline =
     (let now = nat (prior - epoch) div SHARD_TIMER_QUANTUM
      in if deadline \<le> prior then now
         else min ((nat (deadline - epoch) + (SHARD_TIMER_QUANTUM - 1)) div SHARD_TIMER_QUANTUM) (now + 255))"

definition timer_spec_due :: "int \<Rightarrow> int \<Rightarrow> ('k \<Rightarrow> nat option) \<Rightarrow> 'k set" where
  "timer_spec_due epoch now tm = {k. \<exists>t. tm k = Some t \<and> t \<le> nat (now - epoch) div SHARD_TIMER_QUANTUM}"

fun timer_spec_step :: "int \<Rightarrow> 'k timer_call \<Rightarrow> ('k \<Rightarrow> nat option) \<times> int \<Rightarrow> 'k set \<times> (('k \<Rightarrow> nat option) \<times> int)" where
  "timer_spec_step epoch (Schedule k deadline) (tm, prior) = ({}, (tm(k \<mapsto> timer_spec_tick epoch prior deadline), prior))"
| "timer_spec_step epoch (Cancel k) (tm, prior) = ({}, (tm(k := None), prior))"
| "timer_spec_step epoch (Drain now) (tm, prior) =
     (timer_spec_due epoch now tm, (\<lambda>k. if k \<in> timer_spec_due epoch now tm then None else tm k, now))"

fun timer_spec_run :: "int \<Rightarrow> 'k timer_call list \<Rightarrow> ('k \<Rightarrow> nat option) \<times> int \<Rightarrow> 'k set list \<times> (('k \<Rightarrow> nat option) \<times> int)" where
  "timer_spec_run epoch [] s = ([], s)"
| "timer_spec_run epoch (call # calls) s =
     (let (out, s) = timer_spec_step epoch call s; (outs, s) = timer_spec_run epoch calls s in (out # outs, s))"

lemma timer_spec_other:
  assumes "\<not> concerns k call" and "timer_spec_step epoch call (tm, prior) = (out, (tm', prior'))"
  shows "k \<in> out \<longleftrightarrow> (\<exists>now t. call = Drain now \<and> tm k = Some t \<and> t \<le> nat (now - epoch) div SHARD_TIMER_QUANTUM)"
    and "tm' k = (if k \<in> out then None else tm k)"
  using assms by (cases call; auto simp: timer_spec_due_def concerns_def)+

lemma count_distinct: "distinct xs \<Longrightarrow> count_list xs k = (if k \<in> set xs then 1 else 0)"
  by (induction xs) (auto simp: count_list_0_iff)

lemma valid_call_split: "valid_calls epoch prior (call # calls) \<Longrightarrow>
    valid_calls epoch (case call of Drain now \<Rightarrow> now | _ \<Rightarrow> prior) calls"
  by (cases call) auto

lemma valid_calls_append:
  "valid_calls epoch prior (xs @ ys) \<longleftrightarrow> valid_calls epoch prior xs \<and>
     valid_calls epoch (fold (\<lambda>call prior. case call of Drain now \<Rightarrow> now | _ \<Rightarrow> prior) xs prior) ys"
  by (induction epoch prior xs rule: valid_calls.induct) auto

context node_store
begin

text \<open>One call, on the timers.\<close>

lemma wheel_step_ok:
  assumes "wheel_ok S w" and "valid_calls (tw_epoch w) (tw_last_now w) [call]"
  shows "\<exists>w' fired. wheel_step S call w = Some (w', fired) \<and> wheel_ok S w' \<and> tw_epoch w' = tw_epoch w \<and>
     tw_last_now w' = (case call of Drain now \<Rightarrow> now | _ \<Rightarrow> tw_last_now w) \<and> distinct fired \<and>
     timer_spec_step (tw_epoch w) call (timers S w, tw_last_now w) = (set fired, (timers S w', tw_last_now w'))"
proof (cases call)
  case (Schedule k d)
  moreover have "timer_spec_tick (tw_epoch w) (tw_last_now w) d = assigned_tick d w"
    using assms(1) by (auto simp: timer_spec_tick_def assigned_tick_def wheel_ok_def clock_ok_def)
  ultimately show ?thesis using schedule_ok [OF assms(1), of k d] by (fastforce simp: clock_of_def)
next
  case (Cancel k)
  then show ?thesis using cancel_ok [OF assms(1), of k] by (fastforce simp: clock_of_def)
next
  case (Drain now)
  then have "in_range now w" using assms(2) by (simp add: in_range_def)
  from drain_expired_ok [OF assms(1) this] obtain w' fired where
    d: "drain_expired S now w = Some (w', fired)" "wheel_ok S w'" "distinct fired"
      "\<forall>k. k \<in> set fired \<longleftrightarrow> (\<exists>t. timers S w k = Some t \<and> t \<le> tick_at now w)"
      "timers S w' = (\<lambda>k. if k \<in> set fired then None else timers S w k)" "clock_of w' = (tw_epoch w, now, tick_at now w)"
    by blast
  then have "timer_spec_due (tw_epoch w) now (timers S w) = set fired"
    by (auto simp: timer_spec_due_def tick_at_def)
  then show ?thesis using d Drain by (auto simp: clock_of_def)
qed

lemma wheel_run_ok:
  assumes "wheel_ok S w" and "valid_calls (tw_epoch w) (tw_last_now w) calls"
  shows "\<exists>w' outs. wheel_run S calls w = Some (w', outs) \<and> wheel_ok S w' \<and> tw_epoch w' = tw_epoch w \<and>
     tw_last_now w' = fold (\<lambda>call prior. case call of Drain now \<Rightarrow> now | _ \<Rightarrow> prior) calls (tw_last_now w) \<and>
     (\<forall>fired\<in>set outs. distinct fired) \<and>
     timer_spec_run (tw_epoch w) calls (timers S w, tw_last_now w) = (map set outs, (timers S w', tw_last_now w'))"
  using assms
proof (induction calls arbitrary: w)
  case Nil
  then show ?case by simp
next
  case (Cons call calls)
  have v: "valid_calls (tw_epoch w) (tw_last_now w) [call]" using Cons.prems(2) by (cases call) auto
  obtain w1 fired where
    w1: "wheel_step S call w = Some (w1, fired)" "wheel_ok S w1" "tw_epoch w1 = tw_epoch w"
      "tw_last_now w1 = (case call of Drain now \<Rightarrow> now | _ \<Rightarrow> tw_last_now w)" "distinct fired"
      "timer_spec_step (tw_epoch w) call (timers S w, tw_last_now w) = (set fired, (timers S w1, tw_last_now w1))"
    using wheel_step_ok [OF Cons.prems(1) v] by blast
  have v1: "valid_calls (tw_epoch w1) (tw_last_now w1) calls"
    using valid_call_split [OF Cons.prems(2)] w1(3,4) by simp
  obtain w' outs where "wheel_run S calls w1 = Some (w', outs) \<and> wheel_ok S w' \<and> tw_epoch w' = tw_epoch w1 \<and>
     tw_last_now w' = fold (\<lambda>call prior. case call of Drain now \<Rightarrow> now | _ \<Rightarrow> prior) calls (tw_last_now w1) \<and>
     (\<forall>fired\<in>set outs. distinct fired) \<and>
     timer_spec_run (tw_epoch w1) calls (timers S w1, tw_last_now w1) = (map set outs, (timers S w', tw_last_now w'))"
    using Cons.IH [OF w1(2) v1] by blast
  then show ?case using w1 by simp
qed

text \<open>A timer that no call concerns fires once, at the first drain that reaches its tick.\<close>

lemma wheel_run_fires:
  assumes "wheel_ok S w" and "valid_calls (tw_epoch w) (tw_last_now w) calls" and "\<forall>call\<in>set calls. \<not> concerns k call"
    and "wheel_run S calls w = Some (w', outs)"
  shows "count_list (concat outs) k = (case timers S w k of None \<Rightarrow> 0
     | Some t \<Rightarrow> if \<exists>now. Drain now \<in> set calls \<and> t \<le> tick_at now w then 1 else 0)"
  using assms
proof (induction calls arbitrary: w outs)
  case Nil
  then show ?case by (simp split: option.split)
next
  case (Cons call calls)
  have v: "valid_calls (tw_epoch w) (tw_last_now w) [call]" using Cons.prems(2) by (cases call) auto
  obtain w1 f1 where
    w1: "wheel_step S call w = Some (w1, f1)" "wheel_ok S w1" "tw_epoch w1 = tw_epoch w"
      "tw_last_now w1 = (case call of Drain now \<Rightarrow> now | _ \<Rightarrow> tw_last_now w)" "distinct f1"
      "timer_spec_step (tw_epoch w) call (timers S w, tw_last_now w) = (set f1, (timers S w1, tw_last_now w1))"
    using wheel_step_ok [OF Cons.prems(1) v] by blast
  obtain outs' where o: "wheel_run S calls w1 = Some (w', outs')" "outs = f1 # outs'"
    using Cons.prems(4) w1(1) by (auto split: option.splits)
  have "count_list (concat outs') k = (case timers S w1 k of None \<Rightarrow> 0
     | Some t \<Rightarrow> if \<exists>now. Drain now \<in> set calls \<and> t \<le> tick_at now w1 then 1 else 0)"
    using Cons.IH [OF w1(2) _ _ o(1)] valid_call_split [OF Cons.prems(2)] w1(3,4) Cons.prems(3) by simp
  moreover have "tick_at now w1 = tick_at now w" for now by (simp add: tick_at_def w1(3))
  moreover have "k \<in> set f1 \<longleftrightarrow> (\<exists>now t. call = Drain now \<and> timers S w k = Some t \<and> t \<le> tick_at now w)"
      "timers S w1 k = (if k \<in> set f1 then None else timers S w k)"
    using timer_spec_other [OF _ w1(6), of k] Cons.prems(3) by (simp_all add: tick_at_def)
  moreover have "count_list f1 k = (if k \<in> set f1 then 1 else 0)" using count_distinct [OF w1(5)] .
  ultimately show ?case by (auto simp: o(2) split: option.split)
qed

lemma wheel_new_ok: "wheel_ok S (wheel_new S epoch)"
proof -
  have "wheel_rep S (wheel_new S epoch) (\<lambda>_. [])"
    by (auto simp: wheel_rep_def wheel_new_def head_at_def nview_def get_empty occupied_at_def word_at_def wheel_consts)
  then show ?thesis
    by (auto simp: wheel_ok_def clock_ok_def wheel_new_def nview_def get_empty SHARD_TIMER_QUANTUM_def U64_MAX_def)
qed

end

subsection \<open>The next deadline\<close>

lemma due_head_timers:
  assumes "wheel_ok S w"
  shows "tw_due_head w \<noteq> None \<longleftrightarrow> (\<exists>k t. timers S w k = Some t \<and> t \<le> tw_current_tick w)"
proof -
  obtain L where rep: "wheel_rep S w L" using assms by (auto simp: wheel_ok_def)
  have "tw_due_head w = heado (L 256)" using wheel_repD(5) [OF rep, of 256] by (simp add: head_at_def wheel_consts)
  then have "tw_due_head w \<noteq> None \<longleftrightarrow> (\<exists>k. k \<in> set (L 256))" by (cases "L 256") auto
  also have "\<dots> \<longleftrightarrow> (\<exists>k t. timers S w k = Some t \<and> t \<le> tw_current_tick w)"
    unfolding timer_due_listed [OF assms rep order_refl] by auto
  finally show ?thesis .
qed

text \<open>Slot by slot from the current tick on, the occupancy bits say which ticks have a timer.\<close>

lemma occupied_from_now:
  assumes "wheel_ok S w" and "i < 256"
  shows "occupied_at (tw_occupied w) ((slot_of (tw_current_tick w + 1) + i) mod 256) \<longleftrightarrow>
     (\<exists>k. timers S w k = Some (tw_current_tick w + 1 + i))"
proof -
  obtain L where rep: "wheel_rep S w L" using assms by (auto simp: wheel_ok_def)
  let ?t = "tw_current_tick w + 1 + i"
  have "(slot_of (tw_current_tick w + 1) + i) mod 256 = slot_of ?t" unfolding slot_of_mod by (simp add: mod_simps)
  then have "occupied_at (tw_occupied w) ((slot_of (tw_current_tick w + 1) + i) mod 256) \<longleftrightarrow> L (slot_of ?t) \<noteq> []"
    using wheel_repD(7) [OF rep, of "slot_of ?t"] by (simp add: slot_of_mod)
  also have "\<dots> \<longleftrightarrow> (\<exists>k. timers S w k = Some ?t)"
  proof
    assume "L (slot_of ?t) \<noteq> []"
    then obtain k where k: "k \<in> set (L (slot_of ?t))" by (meson list.set_sel(1))
    obtain t where t: "timers S w k = Some t" and
      "slot_of ?t = 256 \<and> t \<le> tw_current_tick w \<or>
       slot_of ?t = slot_of t \<and> slot_of ?t < 256 \<and> tw_current_tick w < t \<and> t < tw_current_tick w + 256"
      by (rule listed_place [OF assms(1) rep k]) blast
    then have "t = ?t" using slot_of_window [of ?t t] assms(2) slot_of_mod [of ?t] by auto
    then show "\<exists>k. timers S w k = Some ?t" using t by blast
  next
    assume "\<exists>k. timers S w k = Some ?t"
    then obtain k l where k: "k \<in> set (L l)" "timers S w k = Some ?t"
      using timers_listed [OF assms(1) rep] by blast
    obtain t where "timers S w k = Some t" "l = 256 \<and> t \<le> tw_current_tick w \<or> l = slot_of t"
      by (rule listed_place [OF assms(1) rep k(1)]) blast
    then have "l = slot_of ?t" using k(2) by auto
    then show "L (slot_of ?t) \<noteq> []" using k(1) by auto
  qed
  finally show ?thesis .
qed

lemma next_deadline_ok:
  assumes "wheel_ok S w"
  shows "next_deadline w = (if \<exists>k t. timers S w k = Some t \<and> t \<le> tw_current_tick w then Some (tw_last_now w)
     else if \<exists>k t. timers S w k = Some t
     then Some (tw_epoch w + int ((LEAST t. \<exists>k. timers S w k = Some t) * SHARD_TIMER_QUANTUM)) else None)"
proof (cases "tw_due_head w = None")
  case False
  then show ?thesis using due_head_timers [OF assms] by (simp add: next_deadline_def)
next
  case True
  let ?c = "tw_current_tick w"
  define P where "P i = occupied_at (tw_occupied w) ((slot_of (?c + 1) + i) mod 256)" for i
  obtain L where rep: "wheel_rep S w L" using assms by (auto simp: wheel_ok_def)
  have range: "(?c + 256) * SHARD_TIMER_QUANTUM \<le> U64_MAX" using assms by (auto simp: wheel_ok_def clock_ok_def)
  have P: "P i \<longleftrightarrow> (\<exists>k. timers S w k = Some (?c + 1 + i))" if "i < 256" for i
    unfolding P_def by (rule occupied_from_now [OF assms that])
  have later: "\<exists>i<256. t = ?c + 1 + i" if tk: "timers S w k = Some t" for k t
  proof -
    obtain l where l: "k \<in> set (L l)" using tk timers_listed [OF assms rep, of k t] by auto
    have "\<not> t \<le> ?c" using True due_head_timers [OF assms] tk by blast
    then have "?c < t" by simp
    moreover have "t < ?c + 256"
      by (rule listed_place [OF assms rep l]) (use tk \<open>?c < t\<close> in auto)
    ultimately show ?thesis by (intro exI [of _ "t - ?c - 1"]) auto
  qed
  have sat: "sat64 (?c + 1) = ?c + 1" "sat64 (?c + 1 + i) = ?c + 1 + i" "duration_for_ticks (?c + 1 + i) = (?c + 1 + i) * SHARD_TIMER_QUANTUM"
    if "i < 256" for i using range that
    by (auto simp: sat64_def duration_for_ticks_def SHARD_TIMER_QUANTUM_def U64_MAX_def)
  have next_off: "next_occupied_from (tw_occupied w) (slot_of (?c + 1)) = (if \<exists>i<256. P i then Some (LEAST i. P i) else None)"
    using next_occupied_nearest [of "tw_occupied w"] wheel_repD(2) [OF rep] by (simp add: P_def OCCUPANCY_WORDS_def SLOT_COUNT_def)
  show ?thesis
  proof (cases "\<exists>i<256. P i")
    case False
    then have "\<not> (\<exists>k t. timers S w k = Some t)" using P later by blast
    then show ?thesis using True False next_off sat(1) [of 0] by (simp add: next_deadline_def)
  next
    case ex: True
    then obtain i0 where "i0 < 256" "P i0" by blast
    define i where "i = (LEAST i. P i)"
    have i: "P i" "i < 256" "\<And>j. P j \<Longrightarrow> i \<le> j"
      using LeastI [of P, OF \<open>P i0\<close>] Least_le [of P] \<open>i0 < 256\<close> \<open>P i0\<close> by (auto simp: i_def intro: le_less_trans)
    have "(LEAST t. \<exists>k. timers S w k = Some t) = ?c + 1 + i"
    proof (rule Least_equality)
      show "\<exists>k. timers S w k = Some (?c + 1 + i)" using P i by blast
      fix t
      assume "\<exists>k. timers S w k = Some t"
      then obtain k where k: "timers S w k = Some t" ..
      then obtain j where j: "j < 256" "t = ?c + 1 + j" using later by blast
      then have "P j" using P [OF j(1)] k by blast
      then show "?c + 1 + i \<le> t" using i(3) j(2) by simp
    qed
    moreover have "\<not> (\<exists>k t. timers S w k = Some t \<and> t \<le> ?c)" using True due_head_timers [OF assms] by simp
    moreover have "\<exists>k t. timers S w k = Some t" using P i by blast
    moreover have "next_deadline w = Some (tw_epoch w + int ((?c + 1 + i) * SHARD_TIMER_QUANTUM))"
      using True ex next_off sat [OF i(2)] by (simp add: next_deadline_def i_def [symmetric])
    ultimately show ?thesis by auto
  qed
qed

subsection \<open>What the shard relies on\<close>

text \<open>The wheel over a plain map.\<close>

definition plain_nodes :: "('k \<Rightarrow> 'k TimerNode option, 'k) node_map" where
  "plain_nodes = \<lparr>nm_empty = (\<lambda>_. None), nm_get = (\<lambda>m k. m k), nm_insert = (\<lambda>k v m. m(k \<mapsto> v)),
     nm_remove = (\<lambda>k m. m(k := None))\<rparr>"

interpretation plain: node_store "plain_nodes :: ('k \<Rightarrow> 'k TimerNode option, 'k) node_map"
  by unfold_locales (simp_all add: plain_nodes_def)

lemma valid_drains_before:
  assumes "valid_calls epoch prior (calls @ [Drain now])"
  shows "prior \<le> now \<and> (\<forall>now'. Drain now' \<in> set calls \<longrightarrow> now' \<le> now)"
  using assms by (induction epoch prior calls rule: valid_calls.induct) auto

lemma assigned_punctual:
  assumes "clock_ok w" and "deadline \<le> tw_last_now w + 254000000" and "tw_last_now w \<le> now"
  shows "deadline + 999999 \<le> now \<Longrightarrow> assigned_tick deadline w \<le> tick_at now w"
    and "now < deadline \<Longrightarrow> tick_at now w < assigned_tick deadline w"
proof -
  let ?e = "tw_epoch w" and ?c = "tw_current_tick w"
  have c: "?c = nat (tw_last_now w - ?e) div 1000000" "?e \<le> tw_last_now w"
    using assms(1) by (simp_all add: clock_ok_def SHARD_TIMER_QUANTUM_def)
  have t: "tick_at now w = nat (now - ?e) div 1000000" by (simp add: tick_at_def SHARD_TIMER_QUANTUM_def)
  have a: "assigned_tick deadline w = (if deadline \<le> tw_last_now w then ?c
      else min ((nat (deadline - ?e) + 999999) div 1000000) (?c + 255))"
    by (simp add: assigned_tick_def SHARD_TIMER_QUANTUM_def)
  have ct: "?c \<le> tick_at now w" unfolding c t using assms(3) by (intro div_le_mono) simp
  show "assigned_tick deadline w \<le> tick_at now w" if "deadline + 999999 \<le> now"
  proof (cases "deadline \<le> tw_last_now w")
    case True
    then show ?thesis using ct by (simp add: a)
  next
    case False
    then have "nat (deadline - ?e) + 999999 \<le> nat (now - ?e)" using that c(2) by simp
    then have "(nat (deadline - ?e) + 999999) div 1000000 \<le> tick_at now w" unfolding t by (rule div_le_mono)
    then show ?thesis using False by (simp add: a)
  qed
  show "tick_at now w < assigned_tick deadline w" if "now < deadline"
  proof -
    have "nat (now - ?e) < nat (deadline - ?e)" "nat (now - ?e) < nat (tw_last_now w - ?e) + 254000000"
      using that assms(2,3) c(2) by simp_all
    then have "tick_at now w < (nat (deadline - ?e) + 999999) div 1000000" "tick_at now w < ?c + 255"
      unfolding t c by linarith+
    then show ?thesis using that assms(3) by (simp add: a)
  qed
qed

lemma run_from_new:
  assumes S: "node_store S" and "valid_calls epoch epoch (calls @ rest)"
  obtains w outs where "wheel_run S calls (wheel_new S epoch) = Some (w, outs)" "wheel_ok S w" "tw_epoch w = epoch"
    "valid_calls epoch (tw_last_now w) rest" "\<forall>fired\<in>set outs. distinct fired"
    "timer_spec_run epoch calls (\<lambda>_. None, epoch) = (map set outs, (timers S w, tw_last_now w))"
proof -
  have e: "tw_epoch (wheel_new S epoch) = epoch" "tw_last_now (wheel_new S epoch) = epoch"
    by (simp_all add: wheel_new_def)
  have t: "timers S (wheel_new S epoch) = (\<lambda>_. None)"
    by (simp add: timers_def nview_def wheel_new_def fun_eq_iff node_store.get_empty [OF S])
  show ?thesis
    using node_store.wheel_run_ok [OF S node_store.wheel_new_ok [OF S, of epoch], of calls] that assms(2)
    by (auto simp: e t valid_calls_append)
qed

text \<open>When a timer that is set and left alone is called.\<close>

lemma punctual_run:
  assumes S: "node_store S" and "valid_calls epoch epoch (before @ Schedule k deadline # after @ [Drain now])"
    and "wheel_run S before (wheel_new S epoch) = Some (w, outs)" and "deadline \<le> tw_last_now w + 254000000"
    and "\<forall>call\<in>set after. \<not> concerns k call"
    and "wheel_run S (Schedule k deadline # after @ [Drain now]) w = Some (w', outs')"
  shows "(deadline + 999999 \<le> now \<longrightarrow> count_list (concat outs') k = 1) \<and>
    (now < deadline \<longrightarrow> count_list (concat outs') k = 0)"
proof -
  have w: "wheel_ok S w" "tw_epoch w = epoch" "valid_calls epoch (tw_last_now w) (Schedule k deadline # after @ [Drain now])"
    using run_from_new [OF assms(1,2)] assms(3) by auto
  obtain w1 where w1: "schedule S k deadline w = Some w1" "wheel_ok S w1"
      "timers S w1 = (timers S w)(k \<mapsto> assigned_tick deadline w)" "clock_of w1 = clock_of w"
    using node_store.schedule_ok [OF S w(1)] by blast
  have e1: "tw_epoch w1 = epoch" "tw_last_now w1 = tw_last_now w" using w1(4) w(2) by (simp_all add: clock_of_def)
  obtain outs1 where outs: "wheel_run S (after @ [Drain now]) w1 = Some (w', outs1)" "outs' = [] # outs1"
    using assms(6) w1(1) by (auto split: option.splits)
  have v: "valid_calls epoch (tw_last_now w) (after @ [Drain now])" using w(3) by simp
  have "count_list (concat outs1) k =
      (if \<exists>now'. Drain now' \<in> set (after @ [Drain now]) \<and> assigned_tick deadline w \<le> tick_at now' w1 then 1 else 0)"
    using node_store.wheel_run_fires [OF S w1(2) _ _ outs(1), of k] v assms(5)
    by (simp add: e1 w1(3) concerns_def)
  moreover have "tick_at now' w1 \<le> tick_at now w" if "Drain now' \<in> set (after @ [Drain now])" for now'
    using that valid_drains_before [OF v] by (auto simp: tick_at_def e1 w(2) intro!: div_le_mono)
  then have "(\<exists>now'. Drain now' \<in> set (after @ [Drain now]) \<and> assigned_tick deadline w \<le> tick_at now' w1) \<longleftrightarrow>
      assigned_tick deadline w \<le> tick_at now w"
    by (auto simp: tick_at_def e1 w(2) intro: order_trans)
  moreover have "clock_ok w" "tw_last_now w \<le> now" using w(1) valid_drains_before [OF v] by (auto simp: wheel_ok_def)
  note assigned_punctual [OF this(1) assms(4) this(2)]
  ultimately show ?thesis by (auto simp: outs(2))
qed

text \<open>When a drain calls nobody.\<close>

lemma deadline_run:
  assumes S: "node_store S" and "valid_calls epoch epoch (calls @ [Drain now])"
    and "wheel_run S calls (wheel_new S epoch) = Some (w, outs)"
  shows "(\<exists>w'. drain_expired S now w = Some (w', [])) \<longleftrightarrow>
    (case next_deadline w of None \<Rightarrow> True | Some deadline \<Rightarrow> now < deadline)"
proof -
  have w: "wheel_ok S w" "tw_epoch w = epoch" "valid_calls epoch (tw_last_now w) [Drain now]"
    using run_from_new [OF assms(1,2)] assms(3) by auto
  then have r: "in_range now w" by (simp add: in_range_def)
  obtain w' fired where d: "drain_expired S now w = Some (w', fired)"
      "\<forall>k. k \<in> set fired \<longleftrightarrow> (\<exists>t. timers S w k = Some t \<and> t \<le> tick_at now w)"
    using node_store.drain_expired_ok [OF S w(1) r] by blast
  then have "(\<exists>w'. drain_expired S now w = Some (w', [])) \<longleftrightarrow> \<not> (\<exists>k t. timers S w k = Some t \<and> t \<le> tick_at now w)"
    by (cases fired) (auto, metis)
  also have "\<dots> \<longleftrightarrow> (case next_deadline w of None \<Rightarrow> True | Some deadline \<Rightarrow> now < deadline)"
  proof (cases "\<exists>k t. timers S w k = Some t \<and> t \<le> tw_current_tick w")
    case True
    moreover have "tw_current_tick w \<le> tick_at now w" using tick_at_later [OF w(1) r] .
    ultimately show ?thesis using r unfolding next_deadline_ok [OF w(1)]
      by (auto simp: in_range_def intro: order_trans)
  next
    case none: False
    show ?thesis
    proof (cases "\<exists>k t. timers S w k = Some t")
      case False
      then show ?thesis using none unfolding next_deadline_ok [OF w(1)] by simp
    next
      case True
      define t where "t = (LEAST t. \<exists>k. timers S w k = Some t)"
      have t: "\<exists>k. timers S w k = Some t" "\<And>k t'. timers S w k = Some t' \<Longrightarrow> t \<le> t'"
        using LeastI_ex [of "\<lambda>t. \<exists>k. timers S w k = Some t"] Least_le [of "\<lambda>t. \<exists>k. timers S w k = Some t"] True
        by (auto simp: t_def)
      then have "(\<exists>k t'. timers S w k = Some t' \<and> t' \<le> tick_at now w) \<longleftrightarrow> t \<le> tick_at now w"
        by (meson order_trans)
      also have "\<dots> \<longleftrightarrow> t * SHARD_TIMER_QUANTUM \<le> nat (now - epoch)"
        by (simp add: tick_at_def w(2) less_eq_div_iff_mult_less_eq SHARD_TIMER_QUANTUM_def)
      also have "\<dots> \<longleftrightarrow> epoch + int (t * SHARD_TIMER_QUANTUM) \<le> now"
      proof -
        have "epoch \<le> now" using r w(1,2) by (auto simp: in_range_def wheel_ok_def clock_ok_def)
        then show ?thesis by linarith
      qed
      also have "\<dots> \<longleftrightarrow> \<not> (case next_deadline w of None \<Rightarrow> True | Some deadline \<Rightarrow> now < deadline)"
        unfolding next_deadline_ok [OF w(1)] t_def [symmetric] w(2) by (simp only: none True if_True if_False option.case not_less)
      finally show ?thesis by blast
    qed
  qed
  finally show ?thesis .
qed

end
