(* ===== verification/Handles.thy ===== *)
theory Handles
  imports Timer
begin

text \<open>
  The timer wheel over the handles of a shard's participants.  The wheel keeps its nodes in a
  \<open>SecondaryMap\<close> keyed by the handles of the \<open>SlotMap\<close> of participants, which is a map only on the
  handles that are live.  This theory states what the shard may rely on, shows that a run of the shard
  over such maps gives the results of the wheel over a plain map, and derives what the wheel promises.
\<close>

subsection \<open>Handles\<close>

text \<open>
  The keys of the wheel are the handles of a \<open>SlotMap\<close>, the participants of the shard; the wheel's nodes
  are a \<open>SecondaryMap\<close> over the same handles.  Both are the crate's.  The argument \<open>alloc\<close> says which
  handle an insertion into the slot map may return, given the handles that are live and the handles
  that were ever issued.  A history is what the shard does with the two maps: it issues handles, writes
  and erases nodes of live handles, and takes handles back.
\<close>

inductive handle_history :: "('k set \<Rightarrow> 'k set \<Rightarrow> 'k set) \<Rightarrow> ('m, 'k) node_map \<Rightarrow> 'k set \<Rightarrow> 'k set \<Rightarrow> 'm \<Rightarrow> bool"
  for alloc :: "'k set \<Rightarrow> 'k set \<Rightarrow> 'k set" and S :: "('m, 'k) node_map" where
  history_empty: "handle_history alloc S {} {} (nm_empty S)"
| history_issue: "handle_history alloc S live issued m \<Longrightarrow> k \<in> alloc live issued \<Longrightarrow>
    handle_history alloc S (insert k live) (insert k issued) m"
| history_retire: "handle_history alloc S live issued m \<Longrightarrow> k \<in> live \<Longrightarrow> handle_history alloc S (live - {k}) issued m"
| history_insert: "handle_history alloc S live issued m \<Longrightarrow> k \<in> live \<Longrightarrow> handle_history alloc S live issued (nm_insert S k v m)"
| history_remove: "handle_history alloc S live issued m \<Longrightarrow> k \<in> live \<Longrightarrow> handle_history alloc S live issued (nm_remove S k m)"

text \<open>
  What the crate documents of such maps.  The slot map issues a handle once.  The secondary map has no
  entry for a handle before one is inserted, and is a map on the handles that are live; of a handle that
  the slot map has taken back nothing is said, as an insertion for it may fail silently and its entry
  may be evicted by a newer handle.
\<close>

definition handle_laws :: "('k set \<Rightarrow> 'k set \<Rightarrow> 'k set) \<Rightarrow> ('m, 'k) node_map \<Rightarrow> bool" where
  "handle_laws alloc S \<longleftrightarrow> (\<forall>live issued. alloc live issued \<inter> issued = {}) \<and>
     (\<forall>live issued m. handle_history alloc S live issued m \<longrightarrow>
        (\<forall>k. k \<notin> issued \<longrightarrow> nm_get S m k = None) \<and>
        (\<forall>k\<in>live. \<forall>v. \<forall>j\<in>live. nm_get S (nm_insert S k v m) j = (if j = k then Some v else nm_get S m j)) \<and>
        (\<forall>k\<in>live. \<forall>j\<in>live. nm_get S (nm_remove S k m) j = (if j = k then None else nm_get S m j)))"

text \<open>
  What the shard does: a participant joins, leaves (\<open>add_participant\<close> and the removal of a participant
  cancel its timer before they take the handle out of the slot map), or the wheel is called.
\<close>

datatype 'k shard_event = Join 'k | Leave 'k | Call "'k timer_call"

fun wheel_calls :: "'k shard_event list \<Rightarrow> 'k timer_call list" where
  "wheel_calls [] = []"
| "wheel_calls (Join k # events) = wheel_calls events"
| "wheel_calls (Leave k # events) = Cancel k # wheel_calls events"
| "wheel_calls (Call call # events) = call # wheel_calls events"

text \<open>Handles are issued by the slot map, and only live handles are used.\<close>

fun uses_handles :: "('k set \<Rightarrow> 'k set \<Rightarrow> 'k set) \<Rightarrow> 'k set \<Rightarrow> 'k set \<Rightarrow> 'k shard_event list \<Rightarrow> bool" where
  "uses_handles alloc live issued [] \<longleftrightarrow> True"
| "uses_handles alloc live issued (Join k # events) \<longleftrightarrow>
     k \<in> alloc live issued \<and> uses_handles alloc (insert k live) (insert k issued) events"
| "uses_handles alloc live issued (Leave k # events) \<longleftrightarrow> k \<in> live \<and> uses_handles alloc (live - {k}) issued events"
| "uses_handles alloc live issued (Call (Schedule k deadline) # events) \<longleftrightarrow>
     k \<in> live \<and> uses_handles alloc live issued events"
| "uses_handles alloc live issued (Call (Cancel k) # events) \<longleftrightarrow> k \<in> live \<and> uses_handles alloc live issued events"
| "uses_handles alloc live issued (Call (Drain now) # events) \<longleftrightarrow> uses_handles alloc live issued events"

fun issued_after :: "'k set \<Rightarrow> 'k shard_event list \<Rightarrow> 'k set" where
  "issued_after issued [] = issued"
| "issued_after issued (Join k # events) = issued_after (insert k issued) events"
| "issued_after issued (_ # events) = issued_after issued events"

fun live_after :: "'k set \<Rightarrow> 'k shard_event list \<Rightarrow> 'k set" where
  "live_after live [] = live"
| "live_after live (Join k # events) = live_after (insert k live) events"
| "live_after live (Leave k # events) = live_after (live - {k}) events"
| "live_after live (Call call # events) = live_after live events"

subsection \<open>The wheel over handles refines the wheel over a plain map\<close>

definition plain_wheel :: "('m, 'k) node_map \<Rightarrow> 'k set \<Rightarrow> ('m, 'k) TimerWheel \<Rightarrow> ('k \<Rightarrow> 'k TimerNode option, 'k) TimerWheel" where
  "plain_wheel S live w = \<lparr>tw_epoch = tw_epoch w, tw_last_now = tw_last_now w, tw_current_tick = tw_current_tick w,
     tw_heads = tw_heads w, tw_due_head = tw_due_head w, tw_occupied = tw_occupied w,
     tw_nodes = (\<lambda>k. if k \<in> live then nm_get S (tw_nodes w) k else None)\<rparr>"

lemma plain_wheel_simps [simp]:
  "tw_epoch (plain_wheel S live w) = tw_epoch w" "tw_last_now (plain_wheel S live w) = tw_last_now w"
  "tw_current_tick (plain_wheel S live w) = tw_current_tick w" "tw_heads (plain_wheel S live w) = tw_heads w"
  "tw_due_head (plain_wheel S live w) = tw_due_head w" "tw_occupied (plain_wheel S live w) = tw_occupied w"
  "head_at l (plain_wheel S live w) = head_at l w" "next_deadline (plain_wheel S live w) = next_deadline w"
  "deadline_tick d (plain_wheel S live w) = deadline_tick d w" "elapsed_ticks now (plain_wheel S live w) = elapsed_ticks now w"
  by (simp_all add: plain_wheel_def head_at_def next_deadline_def deadline_tick_def elapsed_ticks_def)

lemma plain_wheel_updates:
  "plain_wheel S live (w\<lparr>tw_due_head := h\<rparr>) = (plain_wheel S live w)\<lparr>tw_due_head := h\<rparr>"
  "plain_wheel S live (w\<lparr>tw_heads := hs\<rparr>) = (plain_wheel S live w)\<lparr>tw_heads := hs\<rparr>"
  "plain_wheel S live (w\<lparr>tw_occupied := ws\<rparr>) = (plain_wheel S live w)\<lparr>tw_occupied := ws\<rparr>"
  "plain_wheel S live (w\<lparr>tw_current_tick := n\<rparr>) = (plain_wheel S live w)\<lparr>tw_current_tick := n\<rparr>"
  "plain_wheel S live (w\<lparr>tw_last_now := t\<rparr>) = (plain_wheel S live w)\<lparr>tw_last_now := t\<rparr>"
  by (simp_all add: plain_wheel_def cong: if_cong)

lemma plain_get [simp]: "nm_get plain_nodes m k = m k"
  by (simp add: plain_nodes_def)

lemma plain_nodes_get: "tw_nodes (plain_wheel S live w) k = (if k \<in> live then nm_get S (tw_nodes w) k else None)"
  by (simp add: plain_wheel_def)

text \<open>Where the plain wheel has a result, so has the wheel over handles, and the results agree.\<close>

definition agrees :: "('k set \<Rightarrow> 'k set \<Rightarrow> 'k set) \<Rightarrow> ('m, 'k) node_map \<Rightarrow> 'k set \<Rightarrow> 'k set
    \<Rightarrow> ('m, 'k) TimerWheel \<Rightarrow> ('k \<Rightarrow> 'k TimerNode option, 'k) TimerWheel \<Rightarrow> bool" where
  "agrees alloc S live issued w u \<longleftrightarrow> u = plain_wheel S live w \<and> handle_history alloc S live issued (tw_nodes w)"

definition simulates :: "('a \<Rightarrow> 'b \<Rightarrow> bool) \<Rightarrow> 'a option \<Rightarrow> 'b option \<Rightarrow> bool" where
  "simulates R r r' \<longleftrightarrow> (\<forall>u. r' = Some u \<longrightarrow> (\<exists>w. r = Some w \<and> R w u))"

lemma simulates_Some [simp]: "simulates R (Some w) (Some u) \<longleftrightarrow> R w u" "simulates R r None"
  by (simp_all add: simulates_def)

lemma simulates_bind:
  assumes "simulates R r r'" and "\<And>w u. R w u \<Longrightarrow> simulates R' (f w) (f' u)"
  shows "simulates R' (Option.bind r f) (Option.bind r' f')"
  using assms by (cases r') (auto simp: simulates_def)

lemma simulates_map:
  assumes "simulates R r r'" and "\<And>w u. R w u \<Longrightarrow> R' (f w) (f' u)"
  shows "simulates R' (map_option f r) (map_option f' r')"
  using assms by (cases r') (auto simp: simulates_def)

lemma schedule_at:
  assumes "(if deadline \<le> tw_last_now w then (DUE_LOCATION, tw_current_tick w)
    else let tick = min (deadline_tick deadline w) (sat64 (tw_current_tick w + (SLOT_COUNT - 1))) in (slot_of tick, tick)) = (l, t)"
  shows "schedule S k deadline w = (case nm_get S (tw_nodes w) k of
     Some node \<Rightarrow> if tn_location node = l \<and> tn_deadline_tick node = t then Some w
       else Option.bind (if is_armed node then wheel_unlink S k w else Some w) (\<lambda>w. wheel_link S k l t w)
   | None \<Rightarrow> wheel_link S k l t (w\<lparr>tw_nodes := nm_insert S k node_new (tw_nodes w)\<rparr>))"
  unfolding schedule_def assms by simp

lemma cancel_gone: "cancel plain_nodes k u = Some u' \<Longrightarrow> tw_nodes u' k = None"
  by (auto simp: cancel_def plain_nodes_def split: option.splits if_splits)

locale handle_store =
  fixes alloc :: "'k set \<Rightarrow> 'k set \<Rightarrow> 'k set" and S :: "('m, 'k) node_map"
  assumes alloc_new: "k \<in> alloc live issued \<Longrightarrow> k \<notin> issued"
    and get_unissued: "handle_history alloc S live issued m \<Longrightarrow> k \<notin> issued \<Longrightarrow> nm_get S m k = None"
    and get_insert: "handle_history alloc S live issued m \<Longrightarrow> k \<in> live \<Longrightarrow> j \<in> live \<Longrightarrow>
      nm_get S (nm_insert S k v m) j = (if j = k then Some v else nm_get S m j)"
    and get_remove: "handle_history alloc S live issued m \<Longrightarrow> k \<in> live \<Longrightarrow> j \<in> live \<Longrightarrow>
      nm_get S (nm_remove S k m) j = (if j = k then None else nm_get S m j)"
begin

lemma agrees_insert:
  assumes "agrees alloc S live issued w u" and "k \<in> live"
  shows "agrees alloc S live issued (w\<lparr>tw_nodes := nm_insert S k v (tw_nodes w)\<rparr>)
    (u\<lparr>tw_nodes := nm_insert plain_nodes k v (tw_nodes u)\<rparr>)"
  using assms get_insert [of live issued "tw_nodes w" k _ v]
  by (auto simp: agrees_def plain_wheel_def plain_nodes_def fun_eq_iff intro: history_insert)

lemma agrees_remove:
  assumes "agrees alloc S live issued w u" and "k \<in> live"
  shows "agrees alloc S live issued (w\<lparr>tw_nodes := nm_remove S k (tw_nodes w)\<rparr>)
    (u\<lparr>tw_nodes := nm_remove plain_nodes k (tw_nodes u)\<rparr>)"
  using assms get_remove [of live issued "tw_nodes w" k]
  by (auto simp: agrees_def plain_wheel_def plain_nodes_def fun_eq_iff intro: history_remove)

lemma agrees_updates:
  assumes "agrees alloc S live issued w u"
  shows "agrees alloc S live issued (w\<lparr>tw_due_head := h\<rparr>) (u\<lparr>tw_due_head := h\<rparr>)"
    "agrees alloc S live issued (w\<lparr>tw_heads := hs\<rparr>) (u\<lparr>tw_heads := hs\<rparr>)"
    "agrees alloc S live issued (w\<lparr>tw_occupied := ws\<rparr>) (u\<lparr>tw_occupied := ws\<rparr>)"
    "agrees alloc S live issued (w\<lparr>tw_current_tick := n\<rparr>) (u\<lparr>tw_current_tick := n\<rparr>)"
    "agrees alloc S live issued (w\<lparr>tw_last_now := t\<rparr>) (u\<lparr>tw_last_now := t\<rparr>)"
  using assms by (auto simp: agrees_def plain_wheel_updates)

lemma agrees_fields:
  assumes "agrees alloc S live issued w u"
  shows "tw_epoch u = tw_epoch w" "tw_last_now u = tw_last_now w" "tw_current_tick u = tw_current_tick w"
    "tw_heads u = tw_heads w" "tw_due_head u = tw_due_head w" "tw_occupied u = tw_occupied w" "head_at l u = head_at l w"
    "next_deadline u = next_deadline w" "deadline_tick d u = deadline_tick d w" "elapsed_ticks now u = elapsed_ticks now w"
    "k \<in> live \<Longrightarrow> tw_nodes u k = nm_get S (tw_nodes w) k"
    "tw_nodes u k = Some n \<Longrightarrow> k \<in> live \<and> nm_get S (tw_nodes w) k = Some n"
  using assms by (auto simp: agrees_def plain_nodes_get split: if_splits)

lemma node_modify_agrees:
  assumes "agrees alloc S live issued w u"
  shows "simulates (agrees alloc S live issued) (node_modify S k f w) (node_modify plain_nodes k f u)"
proof (cases "tw_nodes u k")
  case (Some n)
  then have "k \<in> live" "nm_get S (tw_nodes w) k = Some n" using agrees_fields(12) [OF assms] by auto
  then show ?thesis using Some agrees_insert [OF assms, of k "f n"] by (simp add: node_modify_def)
qed (simp add: node_modify_def)

lemma bind_agrees:
  assumes "simulates (agrees alloc S live issued) r r'"
    and "\<And>w u. agrees alloc S live issued w u \<Longrightarrow> simulates R (f w) (f' u)"
  shows "simulates R (Option.bind r f) (Option.bind r' f')"
  using assms by (rule simulates_bind)

lemma optional_agrees:
  assumes "agrees alloc S live issued w u"
    and "\<And>j. k = Some j \<Longrightarrow> simulates (agrees alloc S live issued) (f j w) (f' j u)"
  shows "simulates (agrees alloc S live issued) (case k of Some j \<Rightarrow> f j w | None \<Rightarrow> Some w)
    (case k of Some j \<Rightarrow> f' j u | None \<Rightarrow> Some u)"
  using assms by (cases k) simp_all

lemma link_agrees:
  assumes "agrees alloc S live issued w u"
  shows "simulates (agrees alloc S live issued) (wheel_link S k l t w) (wheel_link plain_nodes k l t u)"
proof -
  have "agrees alloc S live issued
      (if l = DUE_LOCATION then w\<lparr>tw_due_head := Some k\<rparr> else if l < length (tw_heads w)
        then w\<lparr>tw_heads := (tw_heads w)[l := Some k], tw_occupied := set_occupied l (tw_occupied w)\<rparr> else w)
      (if l = DUE_LOCATION then u\<lparr>tw_due_head := Some k\<rparr> else if l < length (tw_heads u)
        then u\<lparr>tw_heads := (tw_heads u)[l := Some k], tw_occupied := set_occupied l (tw_occupied u)\<rparr> else u)"
    if "agrees alloc S live issued w u" for w u
    using that by (simp add: agrees_fields(4,6) [OF that] agrees_updates)
  then show ?thesis unfolding wheel_link_def Let_def agrees_fields(7) [OF assms]
    by (intro bind_agrees [where live = live and issued = issued] optional_agrees node_modify_agrees assms)
      (simp_all only: simulates_Some)
qed

lemma unlink_agrees:
  assumes "agrees alloc S live issued w u"
  shows "simulates (agrees alloc S live issued) (wheel_unlink S k w) (wheel_unlink plain_nodes k u)"
proof (cases "tw_nodes u k")
  case (Some n)
  then have "nm_get S (tw_nodes w) k = Some n" using agrees_fields(12) [OF assms] by auto
  moreover have first: "simulates (agrees alloc S live issued)
      (case tn_prev n of Some p \<Rightarrow> node_modify S p f w
         | None \<Rightarrow> Some (if tn_location n = DUE_LOCATION then w\<lparr>tw_due_head := tn_next n\<rparr>
             else if tn_location n < length (tw_heads w)
             then w\<lparr>tw_heads := (tw_heads w)[tn_location n := tn_next n]\<rparr> else w))
      (case tn_prev n of Some p \<Rightarrow> node_modify plain_nodes p f u
         | None \<Rightarrow> Some (if tn_location n = DUE_LOCATION then u\<lparr>tw_due_head := tn_next n\<rparr>
             else if tn_location n < length (tw_heads u)
             then u\<lparr>tw_heads := (tw_heads u)[tn_location n := tn_next n]\<rparr> else u))" for f
    using assms by (auto simp: agrees_fields(4) [OF assms] intro!: node_modify_agrees agrees_updates split: option.split)
  moreover have clear: "agrees alloc S live issued
      (if c \<and> head_at l w = None then w\<lparr>tw_occupied := clear_occupied l (tw_occupied w)\<rparr> else w)
      (if c \<and> head_at l u = None then u\<lparr>tw_occupied := clear_occupied l (tw_occupied u)\<rparr> else u)"
    if "agrees alloc S live issued w u" for c l w u
    using that by (auto simp: agrees_fields(6,7) [OF that] intro: agrees_updates)
  ultimately show ?thesis unfolding wheel_unlink_def Let_def
    by (simp only: Some plain_get option.case)
      (rule bind_agrees [OF first], rule bind_agrees, rule optional_agrees, assumption, erule node_modify_agrees,
       rule node_modify_agrees, erule clear)
qed (simp add: wheel_unlink_def)

lemma schedule_agrees:
  assumes "agrees alloc S live issued w u" and "k \<in> live"
  shows "simulates (agrees alloc S live issued) (schedule S k deadline w) (schedule plain_nodes k deadline u)"
proof -
  let ?place = "if deadline \<le> tw_last_now w then (DUE_LOCATION, tw_current_tick w)
    else let tick = min (deadline_tick deadline w) (sat64 (tw_current_tick w + (SLOT_COUNT - 1))) in (slot_of tick, tick)"
  obtain l t where place: "?place = (l, t)" by (cases ?place)
  have "(if deadline \<le> tw_last_now u then (DUE_LOCATION, tw_current_tick u)
    else let tick = min (deadline_tick deadline u) (sat64 (tw_current_tick u + (SLOT_COUNT - 1))) in (slot_of tick, tick)) = (l, t)"
    unfolding agrees_fields(2,3,9) [OF assms(1)] by (rule place)
  note at = schedule_at [OF place] schedule_at [OF this]
  have k: "nm_get S (tw_nodes w) k = tw_nodes u k" using agrees_fields(11) [OF assms] by simp
  show ?thesis
  proof (cases "tw_nodes u k")
    case None
    then show ?thesis using link_agrees [OF agrees_insert [OF assms]] by (simp add: at k)
  next
    case (Some n)
    have "simulates (agrees alloc S live issued)
        (Option.bind (if is_armed n then wheel_unlink S k w else Some w) (\<lambda>w. wheel_link S k l t w))
        (Option.bind (if is_armed n then wheel_unlink plain_nodes k u else Some u) (\<lambda>u. wheel_link plain_nodes k l t u))"
      by (rule bind_agrees [where live = live and issued = issued]) (simp_all add: unlink_agrees link_agrees assms(1))
    then show ?thesis using Some assms(1) by (simp add: at k)
  qed
qed

lemma cancel_agrees:
  assumes "agrees alloc S live issued w u" and "k \<in> live"
  shows "simulates (agrees alloc S live issued) (cancel S k w) (cancel plain_nodes k u)"
proof (cases "tw_nodes u k")
  case None
  then show ?thesis using agrees_fields(11) [OF assms] assms(1) by (simp add: cancel_def)
next
  case (Some n)
  then have "nm_get S (tw_nodes w) k = Some n" using agrees_fields(12) [OF assms(1)] by auto
  moreover have "simulates (agrees alloc S live issued) (if is_armed n then wheel_unlink S k w else Some w)
      (if is_armed n then wheel_unlink plain_nodes k u else Some u)" using assms(1) by (simp add: unlink_agrees)
  then have "simulates (agrees alloc S live issued)
      (map_option (\<lambda>w. w\<lparr>tw_nodes := nm_remove S k (tw_nodes w)\<rparr>) (if is_armed n then wheel_unlink S k w else Some w))
      (map_option (\<lambda>w. w\<lparr>tw_nodes := nm_remove plain_nodes k (tw_nodes w)\<rparr>)
        (if is_armed n then wheel_unlink plain_nodes k u else Some u))"
    by (rule simulates_map) (rule agrees_remove [OF _ assms(2)])
  ultimately show ?thesis by (simp add: cancel_def Some del: map_option_eq_Some cong: if_cong)
qed

lemma drain_location_agrees:
  assumes "agrees alloc S live issued w u"
  shows "simulates (rel_prod (agrees alloc S live issued) (=)) (drain_location S l w fired) (drain_location plain_nodes l u fired)"
proof -
  have "\<exists>x. drain_location S l w fired = Some x \<and> rel_prod (agrees alloc S live issued) (=) x y"
    if "drain_location P l u fired = Some y" "P = plain_nodes" "agrees alloc S live issued w u" for P u w fired y
    using that
  proof (induction P l u fired y arbitrary: w rule: drain_location.raw_induct [rotated, consumes 1, case_names step])
    case (step drain P l u fired y)
    show ?case
    proof (cases "head_at l u")
      case None
      then show ?thesis using step.hyps(1) step.prems
        by (auto simp: drain_location.simps [of S l w] agrees_fields(7) [OF step.prems(2), symmetric])
    next
      case (Some k)
      then obtain n u1 where u1: "tw_nodes u k = Some n" "wheel_unlink plain_nodes k u = Some u1"
          "drain P l u1 (fired @ [k]) = Some y"
        using step.hyps(1) step.prems(1) by (auto split: option.splits simp: bind_eq_Some_conv)
      obtain w1 where w1: "wheel_unlink S k w = Some w1" "agrees alloc S live issued w1 u1"
        using unlink_agrees [OF step.prems(2), of k] u1(2) by (auto simp: simulates_def)
      have "nm_get S (tw_nodes w) k = Some n" using agrees_fields(12) [OF step.prems(2) u1(1)] by simp
      moreover have "head_at l w = Some k" using Some agrees_fields(7) [OF step.prems(2)] by simp
      ultimately show ?thesis using step.IH [OF u1(3) step.prems(1) w1(2)] w1(1)
        by (simp add: drain_location.simps [of S l w])
    qed
  qed
  then show ?thesis using assms by (simp add: simulates_def)
qed

lemma drain_slots_agrees:
  assumes "agrees alloc S live issued w u"
  shows "simulates (rel_prod (agrees alloc S live issued) (=)) (drain_slots S ls w fired) (drain_slots plain_nodes ls u fired)"
  using assms
proof (induction ls arbitrary: w u fired)
  case (Cons l ls)
  show ?case unfolding drain_slots.simps
    by (rule simulates_bind [OF drain_location_agrees [OF Cons.prems]]) (auto intro: Cons.IH)
qed simp

lemma drain_ticks_agrees:
  assumes "agrees alloc S live issued w u"
  shows "simulates (rel_prod (agrees alloc S live issued) (=)) (drain_ticks S tick target w fired)
    (drain_ticks plain_nodes tick target u fired)"
  using assms
proof (induction "target - tick" arbitrary: tick w u fired)
  case 0
  then show ?case by (simp add: drain_ticks.simps [of _ tick])
next
  case (Suc n)
  then have lt: "tick < target" and n: "n = target - Suc tick" by simp_all
  show ?case unfolding drain_ticks.simps [of _ tick] if_P [OF lt]
    by (rule simulates_bind [OF drain_location_agrees [OF agrees_updates(4) [OF Suc.prems]]]) (auto intro: Suc.hyps(1) [OF n])
qed

lemma drain_expired_agrees:
  assumes "agrees alloc S live issued w u"
  shows "simulates (rel_prod (agrees alloc S live issued) (=)) (drain_expired S now w) (drain_expired plain_nodes now u)"
proof -
  let ?R = "rel_prod (agrees alloc S live issued) (=)"
  have "simulates ?R
      (map_option (\<lambda>(w, fired). (w\<lparr>tw_last_now := now\<rparr>, fired))
        (if t - tw_current_tick w \<ge> SLOT_COUNT then drain_slots S [0..<SLOT_COUNT] (w\<lparr>tw_current_tick := t\<rparr>) fired
         else drain_ticks S (tw_current_tick w) t w fired))
      (map_option (\<lambda>(w, fired). (w\<lparr>tw_last_now := now\<rparr>, fired))
        (if t - tw_current_tick u \<ge> SLOT_COUNT then drain_slots plain_nodes [0..<SLOT_COUNT] (u\<lparr>tw_current_tick := t\<rparr>) fired
         else drain_ticks plain_nodes (tw_current_tick u) t u fired))"
    if "agrees alloc S live issued w u" for w u fired t
    unfolding agrees_fields(3) [OF that]
    by (rule simulates_map [where R = ?R])
      (auto intro: drain_slots_agrees drain_ticks_agrees agrees_updates that simp del: upt_rec_numeral)
  note rest = this
  show ?thesis unfolding drain_expired_def Let_def
  proof (rule simulates_bind [OF drain_location_agrees [OF assms]])
    fix x :: "('m, 'k) TimerWheel \<times> 'k list" and y
    assume "?R x y"
    then obtain w u fired where xy: "x = (w, fired)" "y = (u, fired)" and a: "agrees alloc S live issued w u"
      by (cases x; cases y) auto
    show "simulates ?R
      (case x of (w, fired) \<Rightarrow> map_option (\<lambda>(w, fired). (w\<lparr>tw_last_now := now\<rparr>, fired))
        (if elapsed_ticks now w - tw_current_tick w \<ge> SLOT_COUNT
         then drain_slots S [0..<SLOT_COUNT] (w\<lparr>tw_current_tick := elapsed_ticks now w\<rparr>) fired
         else drain_ticks S (tw_current_tick w) (elapsed_ticks now w) w fired))
      (case y of (u, fired) \<Rightarrow> map_option (\<lambda>(w, fired). (w\<lparr>tw_last_now := now\<rparr>, fired))
        (if elapsed_ticks now u - tw_current_tick u \<ge> SLOT_COUNT
         then drain_slots plain_nodes [0..<SLOT_COUNT] (u\<lparr>tw_current_tick := elapsed_ticks now u\<rparr>) fired
         else drain_ticks plain_nodes (tw_current_tick u) (elapsed_ticks now u) u fired))"
      unfolding xy prod.case agrees_fields(10) [OF a] by (rule rest [OF a])
  qed
qed

lemma wheel_step_agrees:
  assumes "agrees alloc S live issued w u" and "\<forall>k. concerns k call \<longrightarrow> k \<in> live"
  shows "simulates (rel_prod (agrees alloc S live issued) (=)) (wheel_step S call w) (wheel_step plain_nodes call u)"
proof (cases call)
  case (Schedule k d)
  then show ?thesis using assms
    by (auto simp: concerns_def intro!: simulates_map [OF schedule_agrees])
next
  case (Cancel k)
  then show ?thesis using assms by (auto simp: concerns_def intro!: simulates_map [OF cancel_agrees])
qed (simp add: drain_expired_agrees assms(1))

text \<open>A handle that is issued has no node yet; one that is taken back has none any more.\<close>

lemma agrees_issue:
  assumes "agrees alloc S live issued w u" and "k \<in> alloc live issued"
  shows "agrees alloc S (insert k live) (insert k issued) w u"
proof -
  have "nm_get S (tw_nodes w) k = None" using assms get_unissued alloc_new by (auto simp: agrees_def)
  then show ?thesis using assms
    by (auto simp: agrees_def plain_wheel_def fun_eq_iff intro: history_issue)
qed

lemma agrees_retire:
  assumes "agrees alloc S live issued w u" and "k \<in> live" and "tw_nodes u k = None"
  shows "agrees alloc S (live - {k}) issued w u"
  using assms by (auto simp: agrees_def plain_wheel_def fun_eq_iff intro: history_retire)

lemma wheel_new_agrees: "agrees alloc S {} {} (wheel_new S epoch) (wheel_new plain_nodes epoch)"
  by (simp add: agrees_def plain_wheel_def wheel_new_def plain_nodes_def history_empty)

lemma wheel_run_agrees:
  assumes "agrees alloc S live issued w u" and "uses_handles alloc live issued events"
    and "wheel_run plain_nodes (wheel_calls events) u = Some (u', outs)"
  shows "\<exists>w'. wheel_run S (wheel_calls events) w = Some (w', outs) \<and>
    agrees alloc S (live_after live events) (issued_after issued events) w' u'"
  using assms
proof (induction events arbitrary: live issued w u outs)
  case (Cons event events)
  show ?case
  proof (cases event)
    case (Join k)
    then show ?thesis using Cons.IH [OF agrees_issue [OF Cons.prems(1)]] Cons.prems(2,3) by simp
  next
    case (Leave k)
    then obtain u1 outs1 where u1: "cancel plain_nodes k u = Some u1" "outs = [] # outs1"
        "wheel_run plain_nodes (wheel_calls events) u1 = Some (u', outs1)"
      using Cons.prems(3) by (auto simp: bind_eq_Some_conv)
    have k: "k \<in> live" using Leave Cons.prems(2) by simp
    obtain w1 where w1: "cancel S k w = Some w1" "agrees alloc S live issued w1 u1"
      using cancel_agrees [OF Cons.prems(1) k] u1(1) by (auto simp: simulates_def)
    show ?thesis using Cons.IH [OF agrees_retire [OF w1(2) k cancel_gone [OF u1(1)]] _ u1(3)] Leave Cons.prems(2) w1(1) u1(2)
      by simp
  next
    case (Call call)
    then obtain u1 fired outs1 where u1: "wheel_step plain_nodes call u = Some (u1, fired)" "outs = fired # outs1"
        "wheel_run plain_nodes (wheel_calls events) u1 = Some (u', outs1)"
      using Cons.prems(3) by (auto simp: bind_eq_Some_conv)
    have uses: "\<forall>k. concerns k call \<longrightarrow> k \<in> live" "uses_handles alloc live issued events"
      using Call Cons.prems(2) by (cases call; auto simp: concerns_def)+
    obtain w1 where w1: "wheel_step S call w = Some (w1, fired)" "agrees alloc S live issued w1 u1"
      using wheel_step_agrees [OF Cons.prems(1) uses(1)] u1(1) by (auto simp: simulates_def)
    show ?thesis using Cons.IH [OF w1(2) uses(2) u1(3)] Call w1(1) u1(2) by simp
  qed
qed simp

end

lemma handle_laws_store: "handle_laws alloc S \<longleftrightarrow> handle_store alloc S"
proof
  assume laws: "handle_laws alloc S"
  show "handle_store alloc S"
    by unfold_locales (use laws in \<open>simp_all add: handle_laws_def disjoint_iff\<close>)
next
  assume H: "handle_store alloc S"
  show "handle_laws alloc S" unfolding handle_laws_def disjoint_iff
    by (intro conjI allI impI ballI)
      (simp_all add: handle_store.alloc_new [OF H] handle_store.get_unissued [OF H] handle_store.get_insert [OF H]
        handle_store.get_remove [OF H])
qed

lemma wheel_calls_append: "wheel_calls (xs @ ys) = wheel_calls xs @ wheel_calls ys"
  by (induction xs rule: wheel_calls.induct) auto

lemma uses_handles_append: "uses_handles alloc live issued (xs @ ys) \<longleftrightarrow>
    uses_handles alloc live issued xs \<and> uses_handles alloc (live_after live xs) (issued_after issued xs) ys"
  by (induction alloc live issued xs rule: uses_handles.induct) auto

text \<open>A run of the shard, and the same run over a plain map.\<close>

lemma shard_run:
  assumes "handle_laws alloc S" and "uses_handles alloc {} {} events" and "valid_calls epoch epoch (wheel_calls events)"
  obtains w u outs where "wheel_run S (wheel_calls events) (wheel_new S epoch) = Some (w, outs)"
    "wheel_run plain_nodes (wheel_calls events) (wheel_new plain_nodes epoch) = Some (u, outs)"
    "agrees alloc S (live_after {} events) (issued_after {} events) w u"
    "\<forall>fired\<in>set outs. distinct fired"
    "timer_spec_run epoch (wheel_calls events) (\<lambda>_. None, epoch) = (map set outs, (timers plain_nodes u, tw_last_now u))"
proof -
  have H: "handle_store alloc S" using assms(1) by (simp add: handle_laws_store)
  obtain u outs where u: "wheel_run plain_nodes (wheel_calls events) (wheel_new plain_nodes epoch) = Some (u, outs)"
      "\<forall>fired\<in>set outs. distinct fired"
      "timer_spec_run epoch (wheel_calls events) (\<lambda>_. None, epoch) = (map set outs, (timers plain_nodes u, tw_last_now u))"
    by (rule run_from_new [OF plain.node_store_axioms, of epoch "wheel_calls events" "[]"]) (use assms(3) in simp, blast)
  obtain w where "wheel_run S (wheel_calls events) (wheel_new S epoch) = Some (w, outs)"
      "agrees alloc S (live_after {} events) (issued_after {} events) w u"
    using handle_store.wheel_run_agrees [OF H handle_store.wheel_new_agrees [OF H] assms(2) u(1)] by blast
  then show ?thesis using that u by blast
qed

lemma agrees_timers: "agrees alloc S live issued w u \<Longrightarrow> timers plain_nodes u k = (if k \<in> live then timers S w k else None)"
  by (simp add: agrees_def timers_def nview_def plain_nodes_get)

subsection \<open>Maps by slot and version\<close>

text \<open>
  A secondary map as a map from slot numbers to a version and a node.  An insertion for an older
  version than the slot holds is dropped; one for a newer version evicts.  The slot map issues a
  free slot with a version above all that the slot has had.
\<close>

type_synonym slot_nodes = "(nat, nat \<times> (nat \<times> nat) TimerNode) hmap"

definition slot_get :: "slot_nodes \<Rightarrow> nat \<times> nat \<Rightarrow> (nat \<times> nat) TimerNode option" where
  "slot_get m k = (case hm_get m (fst k) of
     Some (version, node) \<Rightarrow> if version = snd k then Some node else None | None \<Rightarrow> None)"

definition slot_insert :: "nat \<times> nat \<Rightarrow> (nat \<times> nat) TimerNode \<Rightarrow> slot_nodes \<Rightarrow> slot_nodes" where
  "slot_insert k node m = (case hm_get m (fst k) of
     Some (version, _) \<Rightarrow> if snd k < version then m else hm_insert (fst k) (snd k, node) m
   | None \<Rightarrow> hm_insert (fst k) (snd k, node) m)"

definition slot_remove :: "nat \<times> nat \<Rightarrow> slot_nodes \<Rightarrow> slot_nodes" where
  "slot_remove k m = (case hm_get m (fst k) of
     Some (version, _) \<Rightarrow> if version = snd k then hm_remove (fst k) m else m | None \<Rightarrow> m)"

definition slot_nodes :: "(slot_nodes, nat \<times> nat) node_map" where
  "slot_nodes = \<lparr>nm_empty = [], nm_get = slot_get, nm_insert = slot_insert, nm_remove = slot_remove\<rparr>"

definition slot_alloc :: "(nat \<times> nat) set \<Rightarrow> (nat \<times> nat) set \<Rightarrow> (nat \<times> nat) set" where
  "slot_alloc live issued = {k. fst k \<notin> fst ` live \<and> (\<forall>j\<in>issued. fst j = fst k \<longrightarrow> snd j < snd k)}"

lemma slot_insert_entry:
  "hm_get (slot_insert k node m) i = Some (v, n) \<Longrightarrow> (\<exists>n. hm_get m i = Some (v, n)) \<or> (i, v) = k"
  by (cases k) (auto simp: slot_insert_def hm_get_insert split: option.splits if_splits)

lemma slot_remove_entry: "hm_get (slot_remove k m) i = Some e \<Longrightarrow> hm_get m i = Some e"
  by (auto simp: slot_remove_def hm_get_remove split: option.splits if_splits)

lemma slot_history:
  assumes "handle_history slot_alloc slot_nodes live issued m"
  shows "live \<subseteq> issued \<and> (\<forall>k\<in>live. \<forall>j\<in>issued. fst j = fst k \<longrightarrow> snd j \<le> snd k) \<and>
    (\<forall>i v n. hm_get m i = Some (v, n) \<longrightarrow> (i, v) \<in> issued)"
  using assms
proof induction
  case history_empty
  then show ?case by (simp add: slot_nodes_def hm_get_def)
next
  case (history_issue live issued m k)
  then have "fst k \<noteq> fst j" if "j \<in> live" for j using that by (auto simp: slot_alloc_def)
  moreover have "snd j \<le> snd k" if "j \<in> issued" "fst j = fst k" for j
    using that history_issue.hyps(2) by (auto simp: slot_alloc_def intro: less_imp_le)
  ultimately show ?case using history_issue.IH by auto
next
  case (history_retire live issued m k)
  then show ?case by blast
next
  case (history_insert live issued m k v)
  have "nm_insert slot_nodes k v m = slot_insert k v m" by (simp add: slot_nodes_def)
  then show ?case using history_insert.IH history_insert.hyps(2) slot_insert_entry [of k v m]
    by (metis subsetD)
next
  case (history_remove live issued m k)
  have "nm_remove slot_nodes k m = slot_remove k m" by (simp add: slot_nodes_def)
  then show ?case using history_remove.IH slot_remove_entry [of k m] by metis
qed

lemma slot_alloc_new: "k \<in> slot_alloc live issued \<Longrightarrow> k \<notin> issued"
  unfolding slot_alloc_def by blast

interpretation slots: handle_store slot_alloc slot_nodes
proof unfold_locales
  fix live issued m k j and v :: "(nat \<times> nat) TimerNode"
  assume "handle_history slot_alloc slot_nodes live issued m"
  note h = slot_history [OF this]
  show "k \<notin> issued \<Longrightarrow> nm_get slot_nodes m k = None"
    using h by (cases k) (auto simp: slot_nodes_def slot_get_def split: option.splits)
  assume k: "k \<in> live" and j: "j \<in> live"
  have same: "j = k" if "fst j = fst k" using h k j that by (metis le_antisym prod_eq_iff subsetD)
  have newest: "\<not> snd k < version" if "hm_get m (fst k) = Some (version, n)" for version n
  proof -
    have "(fst k, version) \<in> issued" using h that by blast
    then show ?thesis using h k by (fastforce simp: not_less)
  qed
  show "nm_get slot_nodes (nm_insert slot_nodes k v m) j = (if j = k then Some v else nm_get slot_nodes m j)"
  proof (cases "fst j = fst k")
    case True
    then have "j = k" using same by blast
    then show ?thesis using newest
      by (auto simp: slot_nodes_def slot_get_def slot_insert_def hm_get_insert split: option.splits)
  qed (auto simp: slot_nodes_def slot_get_def slot_insert_def hm_get_insert split: option.splits)
  show "nm_get slot_nodes (nm_remove slot_nodes k m) j = (if j = k then None else nm_get slot_nodes m j)"
  proof (cases "fst j = fst k")
    case True
    then have "j = k" using same by blast
    then show ?thesis
      by (auto simp: slot_nodes_def slot_get_def slot_remove_def hm_get_remove split: option.splits)
  qed (auto simp: slot_nodes_def slot_get_def slot_remove_def hm_get_remove split: option.splits)
qed (rule slot_alloc_new)

lemma slot_laws: "handle_laws slot_alloc slot_nodes"
  unfolding handle_laws_store ..

subsection \<open>What the shard relies on\<close>

text \<open>
  C15. The timer wheel over the handles of the shard's participants.  For every sequence in which
  participants join and leave and timers of live participants are set, cancelled and drained along the
  clock, the wheel never reaches one of its fatal errors, every drain calls each key at most once, and it
  calls exactly the keys whose tick the clock has reached in the specification by a plain map.
\<close>

theorem wheel_simulates:
  assumes "handle_laws alloc S" and "uses_handles alloc {} {} events" and "valid_calls epoch epoch (wheel_calls events)"
  shows "\<exists>w outs tm. wheel_run S (wheel_calls events) (wheel_new S epoch) = Some (w, outs) \<and>
    (\<forall>fired\<in>set outs. distinct fired) \<and>
    timer_spec_run epoch (wheel_calls events) (\<lambda>_. None, epoch) = (map set outs, (tm, tw_last_now w)) \<and>
    (\<forall>k. tm k = (if k \<in> live_after {} events then timers S w k else None))"
proof (rule shard_run [OF assms])
  fix w u outs
  assume "wheel_run S (wheel_calls events) (wheel_new S epoch) = Some (w, outs)" "\<forall>fired\<in>set outs. distinct fired"
    and a: "agrees alloc S (live_after {} events) (issued_after {} events) w u"
    and "timer_spec_run epoch (wheel_calls events) (\<lambda>_. None, epoch) = (map set outs, (timers plain_nodes u, tw_last_now u))"
  moreover have "tw_last_now u = tw_last_now w" using a by (simp add: agrees_def)
  ultimately show ?thesis using agrees_timers [OF a] by auto
qed

text \<open>
  C16. A timer of a live participant that is set at most 254 milliseconds past the last drain, and
  neither set again nor cancelled afterwards, is called exactly once up to the first drain that is a full
  quantum past its deadline, and is not called up to a drain before its deadline.
\<close>

theorem timer_punctual:
  assumes "handle_laws alloc S" and "uses_handles alloc {} {} (before @ Call (Schedule k deadline) # after @ [Call (Drain now)])"
    and "valid_calls epoch epoch (wheel_calls (before @ Call (Schedule k deadline) # after @ [Call (Drain now)]))"
    and "wheel_run S (wheel_calls before) (wheel_new S epoch) = Some (w, outs)" and "deadline \<le> tw_last_now w + 254000000"
    and "\<forall>call\<in>set (wheel_calls after). \<not> concerns k call"
  shows "\<exists>w' outs'. wheel_run S (wheel_calls (Call (Schedule k deadline) # after @ [Call (Drain now)])) w = Some (w', outs') \<and>
    (deadline + 999999 \<le> now \<longrightarrow> count_list (concat outs') k = 1) \<and>
    (now < deadline \<longrightarrow> count_list (concat outs') k = 0)"
proof -
  let ?rest = "Call (Schedule k deadline) # after @ [Call (Drain now)]"
  have H: "handle_store alloc S" using assms(1) by (simp add: handle_laws_store)
  have v: "valid_calls epoch epoch (wheel_calls before @ wheel_calls ?rest)" using assms(3) by (simp add: wheel_calls_append)
  have uses: "uses_handles alloc {} {} before"
      "uses_handles alloc (live_after {} before) (issued_after {} before) ?rest"
    using assms(2) by (simp_all only: uses_handles_append)
  have "valid_calls epoch epoch (wheel_calls before)" using v by (simp add: valid_calls_append)
  with shard_run [OF assms(1) uses(1)] obtain u where
    u: "wheel_run plain_nodes (wheel_calls before) (wheel_new plain_nodes epoch) = Some (u, outs)"
      "agrees alloc S (live_after {} before) (issued_after {} before) w u"
    using assms(4) by (metis option.inject prod.inject)
  have now: "tw_last_now u = tw_last_now w" using u(2) by (simp add: agrees_def)
  obtain u1 where "wheel_run plain_nodes (wheel_calls before) (wheel_new plain_nodes epoch) = Some (u1, outs)"
      "wheel_ok plain_nodes u1" "tw_epoch u1 = epoch" "valid_calls epoch (tw_last_now u1) (wheel_calls ?rest)"
    by (rule run_from_new [OF plain.node_store_axioms v]) (use u(1) in simp)
  then have "wheel_ok plain_nodes u" "valid_calls (tw_epoch u) (tw_last_now u) (wheel_calls ?rest)" using u(1) by simp_all
  from plain.wheel_run_ok [OF this] obtain u' outs' where
    u': "wheel_run plain_nodes (wheel_calls ?rest) u = Some (u', outs')" by blast
  have "(deadline + 999999 \<le> now \<longrightarrow> count_list (concat outs') k = 1) \<and>
      (now < deadline \<longrightarrow> count_list (concat outs') k = 0)"
    using punctual_run [OF plain.node_store_axioms _ u(1) _ assms(6)] v u' assms(5) now by (simp add: wheel_calls_append)
  then show ?thesis using handle_store.wheel_run_agrees [OF H u(2) uses(2) u'] by blast
qed

text \<open>
  C17. The deadline the wheel reports is exact, in every run over the handles of the shard's
  participants: a drain calls nobody if and only if it comes before the reported deadline, or none is
  reported.
\<close>

theorem next_deadline_exact:
  assumes "handle_laws alloc S" and "uses_handles alloc {} {} events"
    and "valid_calls epoch epoch (wheel_calls (events @ [Call (Drain now)]))"
    and "wheel_run S (wheel_calls events) (wheel_new S epoch) = Some (w, outs)"
  shows "\<exists>w' fired. drain_expired S now w = Some (w', fired) \<and>
    (fired = [] \<longleftrightarrow> (case next_deadline w of None \<Rightarrow> True | Some deadline \<Rightarrow> now < deadline))"
proof -
  have H: "handle_store alloc S" using assms(1) by (simp add: handle_laws_store)
  have v: "valid_calls epoch epoch (wheel_calls events @ [Drain now])" using assms(3) by (simp add: wheel_calls_append)
  then have "valid_calls epoch epoch (wheel_calls events)" by (simp add: valid_calls_append)
  with shard_run [OF assms(1,2)] obtain u where
    u: "wheel_run plain_nodes (wheel_calls events) (wheel_new plain_nodes epoch) = Some (u, outs)"
      "agrees alloc S (live_after {} events) (issued_after {} events) w u"
    using assms(4) by (metis option.inject prod.inject)
  obtain u' fired where u': "drain_expired plain_nodes now u = Some (u', fired)"
    by (rule run_from_new [OF plain.node_store_axioms v])
      (use u(1) plain.drain_expired_ok [of u now] in \<open>auto simp: in_range_def\<close>)
  then have "fired = [] \<longleftrightarrow> (case next_deadline w of None \<Rightarrow> True | Some deadline \<Rightarrow> now < deadline)"
    using deadline_run [OF plain.node_store_axioms v u(1)] u(2) by (auto simp: agrees_def)
  moreover obtain w' where "drain_expired S now w = Some (w', fired)"
    using handle_store.drain_expired_agrees [OF H u(2), of now] u' by (auto simp: simulates_def)
  ultimately show ?thesis by blast
qed

text \<open>A slot is used again after its first participant has left.\<close>

theorem wheel_simulates_witness:
  "\<exists>w outs. wheel_run slot_nodes [Schedule (0, 1) 5000000, Schedule (1, 1) 9000000, Cancel (0, 1), Schedule (0, 3) 3000000, Drain 4000000]
      (wheel_new slot_nodes 0) = Some (w, outs) \<and> map set outs = [{}, {}, {}, {}, {(0, 3)}]"
proof -
  let ?events = "[Join (0, 1), Call (Schedule (0, 1) 5000000), Join (1, 1), Call (Schedule (1, 1) 9000000), Leave (0, 1), Join (0, 3),
    Call (Schedule (0, 3) 3000000), Call (Drain 4000000)] :: (nat \<times> nat) shard_event list"
  have u: "uses_handles slot_alloc {} {} ?events" by (auto simp: slot_alloc_def)
  have v: "valid_calls 0 0 (wheel_calls ?events)" by (simp add: SHARD_TIMER_QUANTUM_def U64_MAX_def)
  from wheel_simulates [OF slot_laws u v] obtain w outs tm where
    "wheel_run slot_nodes (wheel_calls ?events) (wheel_new slot_nodes 0) = Some (w, outs)"
    "timer_spec_run 0 (wheel_calls ?events) (\<lambda>_. None, 0) = (map set outs, (tm, tw_last_now w))" by blast
  moreover have "fst (timer_spec_run 0 (wheel_calls ?events) (\<lambda>_. None, 0)) = [{}, {}, {}, {}, {(0, 3)}]"
    by (auto simp: timer_spec_tick_def timer_spec_due_def SHARD_TIMER_QUANTUM_def Let_def split: if_splits)
  ultimately show ?thesis by simp
qed

theorem timer_punctual_witness:
  "\<exists>w' outs'. wheel_run slot_nodes [Schedule (0, 1) 5000000, Drain 4000000, Drain 6000000] (wheel_new slot_nodes 0) =
      Some (w', outs') \<and> count_list (concat outs') (0, 1) = 1"
proof -
  let ?before = "[Join (0, 1)] :: (nat \<times> nat) shard_event list" and ?after = "[Call (Drain 4000000)] :: (nat \<times> nat) shard_event list"
  let ?events = "?before @ Call (Schedule (0, 1) 5000000) # ?after @ [Call (Drain 6000000)]"
  have u: "uses_handles slot_alloc {} {} ?events" by (simp add: slot_alloc_def)
  have v: "valid_calls 0 0 (wheel_calls ?events)" by (simp add: SHARD_TIMER_QUANTUM_def U64_MAX_def)
  have r: "wheel_run slot_nodes (wheel_calls ?before) (wheel_new slot_nodes 0) = Some (wheel_new slot_nodes 0, [])" by simp
  show ?thesis using timer_punctual [OF slot_laws u v r] by (simp add: wheel_new_def concerns_def)
qed

theorem next_deadline_exact_witness:
  "\<exists>w outs w'. wheel_run slot_nodes [Schedule (0, 1) 5000000] (wheel_new slot_nodes 0) = Some (w, outs) \<and>
      next_deadline w = Some 5000000 \<and> drain_expired slot_nodes 4000000 w = Some (w', [])"
proof -
  let ?events = "[Join (0, 1), Call (Schedule (0, 1) 5000000)] :: (nat \<times> nat) shard_event list"
  have u: "uses_handles slot_alloc {} {} ?events" by (simp add: slot_alloc_def)
  have v: "valid_calls 0 0 (wheel_calls (?events @ [Call (Drain 4000000)]))" by (simp add: SHARD_TIMER_QUANTUM_def U64_MAX_def)
  have "case wheel_run slot_nodes (wheel_calls ?events) (wheel_new slot_nodes 0) of
      Some (w, outs) \<Rightarrow> next_deadline w = Some 5000000 | None \<Rightarrow> False" by code_simp
  then obtain w outs where w: "wheel_run slot_nodes (wheel_calls ?events) (wheel_new slot_nodes 0) = Some (w, outs)"
    "next_deadline w = Some 5000000" by (auto split: option.splits)
  then show ?thesis using next_deadline_exact [OF slot_laws u v w(1)] by auto
qed

end
