(* ===== verification/Packet.thy ===== *)
theory Packet
  imports Bytes "HOL-Library.Code_Target_Nat"
begin

text \<open>
  The zero-copy RTP and RTCP parsers of the transport, \<open>crates/pulsebeam-rtc/src/packet.rs\<close>: the RTP
  header with its extension block, the iterator over the elements of the block, and the iterator over
  the packets of a compound RTCP datagram.  The wire formats are specified by encoders, and the
  parsers accept exactly the encodings.  Slices of the input are ranges \<open>(start, end)\<close> and byte lists.
\<close>

unbundle bit_operations_syntax

subsection \<open>Reading integers\<close>

definition MAX_RTP_CSRC :: nat where "MAX_RTP_CSRC = 15"
definition MAX_RTP_EXTENSION_BYTES :: nat where "MAX_RTP_EXTENSION_BYTES = 16 * 1024"
definition MAX_RTCP_PACKET_BYTES :: nat where "MAX_RTCP_PACKET_BYTES = 64 * 1024"
definition MAX_RTCP_REPORT_BLOCKS :: nat where "MAX_RTCP_REPORT_BLOCKS = 256"

datatype PacketError =
  TooShort | InvalidVersion | InvalidPadding | InvalidExtension | InvalidLength | TooManyItems | InvalidValue

definition read_u8 :: "u8 list \<Rightarrow> nat \<Rightarrow> PacketError + u8" where
  "read_u8 bs offset = ok_or TooShort (get_at bs offset)"

definition read_u16 :: "u8 list \<Rightarrow> nat \<Rightarrow> PacketError + u16" where
  "read_u16 bs offset =
     (case get_range bs offset (offset + 2) of
        Some [a, b] \<Rightarrow> Inr (be16 a b)
      | _ \<Rightarrow> Inl TooShort)"

definition read_u32 :: "u8 list \<Rightarrow> nat \<Rightarrow> PacketError + u32" where
  "read_u32 bs offset =
     (case get_range bs offset (offset + 4) of
        Some [a, b, c, d] \<Rightarrow> Inr (be32 a b c d)
      | _ \<Rightarrow> Inl TooShort)"

subsection \<open>Validation of an extension block\<close>

definition ONE_BYTE_PROFILE :: u16 where "ONE_BYTE_PROFILE = 0xBEDE"

definition two_byte_profile :: "u16 \<Rightarrow> bool" where
  "two_byte_profile profile \<longleftrightarrow> profile AND 0xfff0 = 0x1000"

function validate_one_byte :: "u8 list \<Rightarrow> nat \<Rightarrow> PacketError + unit" where
  "validate_one_byte bs offset =
     (if offset < length bs then
        case get_at bs offset of
          None \<Rightarrow> Inl InvalidExtension
        | Some byte \<Rightarrow>
            let offset = offset + 1
            in if byte = 0 then validate_one_byte bs offset
               else let el_id = drop_bit 4 byte; el_length = unat (byte AND 0x0f) + 1
                    in if el_id = 15 then Inr ()
                       else if offset + el_length > length bs then Inl InvalidExtension
                       else validate_one_byte bs (offset + el_length)
      else Inr ())"
  by pat_completeness auto
termination
  by (relation "measure (\<lambda>(bs, offset). length bs - offset)") auto

function validate_two_byte :: "u8 list \<Rightarrow> nat \<Rightarrow> PacketError + unit" where
  "validate_two_byte bs offset =
     (if offset < length bs then
        case get_at bs offset of
          None \<Rightarrow> Inl InvalidExtension
        | Some el_id \<Rightarrow>
            let offset = offset + 1
            in if el_id = 0 then validate_two_byte bs offset
               else case get_at bs offset of
                 None \<Rightarrow> Inl InvalidExtension
               | Some b \<Rightarrow>
                   let el_length = unat b; offset = offset + 1
                   in if offset + el_length > length bs then Inl InvalidExtension
                      else validate_two_byte bs (offset + el_length)
      else Inr ())"
  by pat_completeness auto
termination
  by (relation "measure (\<lambda>(bs, offset). length bs - offset)") auto

definition validate_extension_elements :: "u8 list \<Rightarrow> u16 \<Rightarrow> PacketError + unit" where
  "validate_extension_elements bs profile =
     (if profile = ONE_BYTE_PROFILE then validate_one_byte bs 0
      else if two_byte_profile profile then validate_two_byte bs 0
      else Inr ())"

subsection \<open>RTP packets\<close>

record RtpPacket =
  rp_bytes :: "u8 list"
  rp_payload :: "nat \<times> nat"
  rp_extensions :: "(nat \<times> nat) option"
  rp_extension_profile :: "u16 option"
  rp_sequence :: u16
  rp_timestamp :: u32
  rp_ssrc :: u32
  rp_payload_type :: u8
  rp_marker :: bool

text \<open>
  \<open>parse\<close> in three parts: the extension block behind a header of \<open>header_len\<close> bytes, the padding,
  and the packet.  The checked additions and multiplications on \<open>usize\<close> cannot fail here.
\<close>

definition rtp_extension_block :: "u8 list \<Rightarrow> nat \<Rightarrow>
    PacketError + ((nat \<times> nat) option \<times> u16 option \<times> nat)" where
  "rtp_extension_block bs header_len =
     (let extension_header_end = header_len + 4
      in if extension_header_end > length bs then Inl InvalidExtension
         else and_then (read_u16 bs header_len) (\<lambda>profile.
              and_then (read_u16 bs (header_len + 2)) (\<lambda>words.
              let len = unat words * 4
              in if len > MAX_RTP_EXTENSION_BYTES then Inl InvalidExtension
                 else let start = extension_header_end; end = start + len
                      in if end > length bs then Inl InvalidExtension
                         else and_then (ok_or InvalidExtension (get_range bs start end)) (\<lambda>block.
                              and_then (validate_extension_elements block profile) (\<lambda>_.
                              Inr (Some (start, end), Some profile, end))))))"

definition last_byte :: "u8 list \<Rightarrow> u8 option" where
  "last_byte bs = (if bs = [] then None else Some (last bs))"

definition rtp_padding :: "u8 list \<Rightarrow> bool \<Rightarrow> nat \<Rightarrow> PacketError + u8" where
  "rtp_padding bs has_padding header_len =
     (if has_padding then
        and_then (ok_or InvalidPadding (last_byte bs)) (\<lambda>value.
          if value = 0 \<or> unat value > length bs - header_len then Inl InvalidPadding else Inr value)
      else Inr 0)"

definition rtp_parse :: "u8 list \<Rightarrow> PacketError + RtpPacket" where
  "rtp_parse bs =
     (if length bs < 12 then Inl TooShort
      else and_then (read_u8 bs 0) (\<lambda>first.
        if drop_bit 6 first \<noteq> 2 then Inl InvalidVersion
        else let has_padding = first AND 0x20 \<noteq> 0; has_extension = first AND 0x10 \<noteq> 0;
                 csrc_count = unat (first AND 0x0f); header_len = 12 + csrc_count * 4
             in if csrc_count > MAX_RTP_CSRC \<or> header_len > length bs then Inl InvalidLength
                else and_then (if has_extension then rtp_extension_block bs header_len
                               else Inr (None, None, header_len)) (\<lambda>(extensions, extension_profile, header_len).
                     and_then (rtp_padding bs has_padding header_len) (\<lambda>padding.
                     if unat padding > length bs then Inl InvalidPadding
                     else let payload_end = length bs - unat padding
                     in if payload_end < header_len then Inl InvalidLength
                        else and_then (read_u16 bs 2) (\<lambda>sequence.
                             and_then (read_u32 bs 4) (\<lambda>timestamp.
                             and_then (read_u32 bs 8) (\<lambda>ssrc.
                             and_then (read_u8 bs 1) (\<lambda>second.
                             Inr \<lparr>rp_bytes = bs, rp_payload = (header_len, payload_end),
                                  rp_extensions = extensions, rp_extension_profile = extension_profile,
                                  rp_sequence = sequence, rp_timestamp = timestamp, rp_ssrc = ssrc,
                                  rp_payload_type = second AND 0x7f,
                                  rp_marker = (second AND 0x80 \<noteq> 0)\<rparr>))))))))"

definition unwrap_or_default :: "'a list option \<Rightarrow> 'a list" where
  "unwrap_or_default v = (case v of None \<Rightarrow> [] | Some xs \<Rightarrow> xs)"

definition payload :: "RtpPacket \<Rightarrow> u8 list" where
  "payload p = unwrap_or_default (get_range (rp_bytes p) (fst (rp_payload p)) (snd (rp_payload p)))"

subsection \<open>The extension iterator\<close>

record RtpExtension =
  re_id :: u8
  re_value :: "u8 list"
  re_range :: "nat \<times> nat"

record ExtensionIter =
  ei_bytes :: "u8 list"
  ei_offset :: nat
  ei_end :: nat
  ei_profile :: "u16 option"
  ei_base :: nat

definition extensions :: "RtpPacket \<Rightarrow> PacketError + ExtensionIter" where
  "extensions p =
     (case rp_extensions p of
        None \<Rightarrow> Inr \<lparr>ei_bytes = [], ei_offset = 0, ei_end = 0, ei_profile = None, ei_base = 0\<rparr>
      | Some (start, end) \<Rightarrow>
          and_then (ok_or InvalidExtension (get_range (rp_bytes p) start end)) (\<lambda>bs.
          Inr \<lparr>ei_bytes = bs, ei_offset = 0, ei_end = end - start,
               ei_profile = rp_extension_profile p, ei_base = start\<rparr>))"

text \<open>
  \<open>return Some(RtpExtension { .. })\<close>, common to both forms of elements: the value is cut out at the
  cursor, which moves behind it.
\<close>

definition ext_emit :: "ExtensionIter \<Rightarrow> u8 \<Rightarrow> nat \<Rightarrow> RtpExtension option \<times> ExtensionIter" where
  "ext_emit it el_id el_length =
     (let end = ei_offset it + el_length
      in case get_range (ei_bytes it) (ei_offset it) end of
           None \<Rightarrow> (None, it)
         | Some value \<Rightarrow>
             let it = it\<lparr>ei_offset := end\<rparr>
             in (Some \<lparr>re_id = el_id, re_value = value,
                       re_range = (ei_base it + ei_offset it - el_length, ei_base it + ei_offset it)\<rparr>, it))"

function (sequential) ext_next :: "ExtensionIter \<Rightarrow> RtpExtension option \<times> ExtensionIter" where
  "ext_next it =
     (if ei_offset it < ei_end it then
        case get_at (ei_bytes it) (ei_offset it) of
          None \<Rightarrow> (None, it)
        | Some byte \<Rightarrow>
            if ei_profile it = Some ONE_BYTE_PROFILE then
              let it = it\<lparr>ei_offset := ei_offset it + 1\<rparr>
              in if byte = 0 then ext_next it
                 else let el_id = drop_bit 4 byte; el_length = unat (byte AND 0x0f) + 1
                      in if el_id = 15 \<or> ei_offset it + el_length > ei_end it
                         then (None, it\<lparr>ei_offset := ei_end it\<rparr>)
                         else ext_emit it el_id el_length
            else if (case ei_profile it of None \<Rightarrow> False | Some profile \<Rightarrow> two_byte_profile profile) then
              let it = it\<lparr>ei_offset := ei_offset it + 1\<rparr>
              in if byte = 0 then ext_next it
                 else case get_at (ei_bytes it) (ei_offset it) of
                   None \<Rightarrow> (None, it)
                 | Some b \<Rightarrow>
                     let el_length = unat b; it = it\<lparr>ei_offset := ei_offset it + 1\<rparr>
                     in if byte = 0 \<or> ei_offset it + el_length > ei_end it
                        then (None, it\<lparr>ei_offset := ei_end it\<rparr>)
                        else ext_emit it byte el_length
            else ext_next (it\<lparr>ei_offset := ei_end it\<rparr>)
      else (None, it))"
  by pat_completeness auto
termination
  by (relation "measure (\<lambda>it. ei_end it - ei_offset it)") auto

subsection \<open>RTCP packets\<close>

record RtcpPacket =
  cp_bytes :: "u8 list"
  cp_packet_type :: u8
  cp_count :: u8
  cp_padding :: u8

definition rtcp_padding :: "u8 list \<Rightarrow> bool \<Rightarrow> nat \<Rightarrow> PacketError + u8" where
  "rtcp_padding bs has_padding len =
     (if has_padding then
        and_then (ok_or InvalidPadding (last_byte bs)) (\<lambda>value.
          if len < 4 then Inl InvalidPadding
          else let body_length = len - 4
               in if value = 0 \<or> unat value > body_length then Inl InvalidPadding else Inr value)
      else Inr 0)"

definition rtcp_parse :: "u8 list \<Rightarrow> PacketError + RtcpPacket" where
  "rtcp_parse bs =
     (if length bs < 4 then Inl TooShort
      else and_then (read_u8 bs 0) (\<lambda>first.
        if drop_bit 6 first \<noteq> 2 then Inl InvalidVersion
        else let has_padding = first AND 0x20 \<noteq> 0
             in and_then (read_u16 bs 2) (\<lambda>length_words.
                let len = (unat length_words + 1) * 4
                in if len \<noteq> length bs \<or> len > MAX_RTCP_PACKET_BYTES then Inl InvalidLength
                   else and_then (rtcp_padding bs has_padding len) (\<lambda>padding.
                        and_then (read_u8 bs 1) (\<lambda>packet_type.
                        Inr \<lparr>cp_bytes = bs, cp_packet_type = packet_type, cp_count = first AND 0x1f,
                             cp_padding = padding\<rparr>)))))"

definition rtcp_body :: "RtcpPacket \<Rightarrow> u8 list" where
  "rtcp_body p = unwrap_or_default (get_range (cp_bytes p) 4 (length (cp_bytes p) - unat (cp_padding p)))"

record RtcpCompound =
  cc_bytes :: "u8 list"
  cc_offset :: nat
  cc_reports :: nat

definition compound_parse :: "u8 list \<Rightarrow> PacketError + RtcpCompound" where
  "compound_parse bs =
     (if bs = [] then Inl TooShort
      else if length bs > MAX_RTCP_PACKET_BYTES * MAX_RTCP_REPORT_BLOCKS then Inl TooManyItems
      else Inr \<lparr>cc_bytes = bs, cc_offset = 0, cc_reports = 0\<rparr>)"

definition compound_fail :: "PacketError \<Rightarrow> RtcpCompound \<Rightarrow> (PacketError + RtcpPacket) option \<times> RtcpCompound" where
  "compound_fail e c = (Some (Inl e), c\<lparr>cc_offset := length (cc_bytes c)\<rparr>)"

definition compound_next :: "RtcpCompound \<Rightarrow> (PacketError + RtcpPacket) option \<times> RtcpCompound" where
  "compound_next c =
     (if cc_offset c = length (cc_bytes c) then (None, c)
      else if cc_reports c = MAX_RTCP_REPORT_BLOCKS then compound_fail TooManyItems c
      else if \<not> cc_offset c + 4 \<le> length (cc_bytes c) then compound_fail TooShort c
      else case read_u16 (cc_bytes c) (cc_offset c + 2) of
             Inl error \<Rightarrow> compound_fail error c
           | Inr value \<Rightarrow>
               let len = (unat value + 1) * 4; packet_end = cc_offset c + len
               in if \<not> packet_end \<le> length (cc_bytes c) then compound_fail InvalidLength c
                  else let result = and_then
                             (rtcp_parse (unwrap_or_default (get_range (cc_bytes c) (cc_offset c) packet_end)))
                             (\<lambda>packet. if cp_padding packet \<noteq> 0 \<and> packet_end \<noteq> length (cc_bytes c)
                                then Inl InvalidPadding else Inr packet)
                       in (Some result, c\<lparr>cc_offset := packet_end, cc_reports := cc_reports c + 1\<rparr>))"

declare validate_one_byte.simps [simp del] validate_two_byte.simps [simp del] ext_next.simps [simp del]

subsection \<open>The wire format of extension elements\<close>

text \<open>
  The elements of an extension block are padding bytes and values with an identifier, in the form with
  a one-byte header (identifier below 15, one to sixteen bytes) or with a two-byte header.
\<close>

datatype ext_item = Pad | Item u8 "u8 list"

fun one_item :: "ext_item \<Rightarrow> u8 list" where
  "one_item Pad = [0]"
| "one_item (Item i v) = (push_bit 4 i OR of_nat (length v - 1)) # v"

fun two_item :: "ext_item \<Rightarrow> u8 list" where
  "two_item Pad = [0]"
| "two_item (Item i v) = i # of_nat (length v) # v"

fun one_ok :: "ext_item \<Rightarrow> bool" where
  "one_ok Pad \<longleftrightarrow> True"
| "one_ok (Item i v) \<longleftrightarrow> 1 \<le> length v \<and> length v \<le> 16 \<and> i < 15 \<and> (i \<noteq> 0 \<or> length v \<noteq> 1)"

fun two_ok :: "ext_item \<Rightarrow> bool" where
  "two_ok Pad \<longleftrightarrow> True"
| "two_ok (Item i v) \<longleftrightarrow> i \<noteq> 0 \<and> length v < 256"

text \<open>Identifier 15 of the one-byte form ends the block early.\<close>

definition one_stop :: "u8 list \<Rightarrow> bool" where
  "one_stop bs \<longleftrightarrow> bs = [] \<or> drop_bit 4 (hd bs) = 15"

definition two_stop :: "u8 list \<Rightarrow> bool" where
  "two_stop bs \<longleftrightarrow> bs = []"

text \<open>The value of each item at its place in the packet, when the items start at position \<open>p\<close>.\<close>

fun placed :: "(ext_item \<Rightarrow> u8 list) \<Rightarrow> nat \<Rightarrow> ext_item list \<Rightarrow> RtpExtension list" where
  "placed f p [] = []"
| "placed f p (Pad # is) = placed f (p + length (f Pad)) is"
| "placed f p (Item i v # is) = (let e = p + length (f (Item i v)) in
     \<lparr>re_id = i, re_value = v, re_range = (e - length v, e)\<rparr> # placed f e is)"

lemma nibbles:
  assumes "i < (16 :: u8)" and "k < 16"
  shows "drop_bit 4 (push_bit 4 i OR of_nat k) = i" and "unat ((push_bit 4 i OR of_nat k) AND 0x0f) = k"
proof -
  have i: "take_bit 4 i = i" using assms(1) by (intro take_bit_fits) (simp add: word_less_nat_alt)
  have k: "take_bit 4 (of_nat k :: u8) = of_nat k" using assms(2) by (intro take_bit_fits) (simp add: unat_of_nat_fits)
  have bi: "bit i n \<Longrightarrow> n < 4" for n by (metis bit_take_bit_iff i)
  have bk: "bit (of_nat k :: u8) n \<Longrightarrow> n < 4" for n by (metis bit_take_bit_iff k)
  show "drop_bit 4 (push_bit 4 i OR of_nat k) = i"
    by (rule bit_word_eqI) (use bi bk in \<open>fastforce simp: byte_bits\<close>)
  have "(push_bit 4 i OR of_nat k) AND mask 4 = (of_nat k :: u8)"
    by (rule bit_word_eqI) (use bk in \<open>auto simp: byte_bits\<close>)
  moreover have "(0x0f :: u8) = mask 4" by (simp add: mask_eq_exp_minus_1)
  ultimately show "unat ((push_bit 4 i OR of_nat k) AND 0x0f) = k"
    using assms(2) by (simp add: unat_of_nat_fits)
qed

lemma nibbles_of: "(b :: u8) = push_bit 4 (drop_bit 4 b) OR of_nat (unat (b AND 0x0f))"
proof (rule bit_word_eqI)
  fix n assume "n < LENGTH(8)"
  moreover have "b AND 0x0f = b AND mask 4" by (simp add: mask_eq_exp_minus_1)
  ultimately show "bit b n \<longleftrightarrow> bit (push_bit 4 (drop_bit 4 b) OR of_nat (unat (b AND 0x0f))) n"
    by (auto simp: byte_bits)
qed

lemma nibble_bounds: "drop_bit 4 (b :: u8) < 16" "unat (b AND 0x0f) < 16"
proof -
  show "drop_bit 4 b < 16" using unat_bounds(1) [of b] unat_drop_bit [of 4 b]
    by (simp only: word_less_nat_alt) simp
  have "b AND 0x0f = take_bit 4 b" by (simp add: take_bit_eq_mask mask_eq_exp_minus_1)
  then show "unat (b AND 0x0f) < 16"
    using take_bit_nat_less_exp [of 4 "unat b"] by (simp add: unsigned_take_bit_eq)
qed

subsection \<open>A form of elements\<close>

text \<open>
  What both forms promise about one turn of the validator's loop and one call of the iterator.  The
  facts about whole blocks follow once for both.
\<close>

locale element_form =
  fixes form_profile :: "u16 \<Rightarrow> bool"
    and item_bytes :: "ext_item \<Rightarrow> u8 list"
    and item_ok :: "ext_item \<Rightarrow> bool"
    and stop :: "u8 list \<Rightarrow> bool"
    and validate :: "u8 list \<Rightarrow> nat \<Rightarrow> PacketError + unit"
  assumes pad_bytes: "item_bytes Pad = [0]"
    and item_nonempty: "item_bytes x \<noteq> []"
    and stop_Nil: "stop []"
    and validate_item: "item_ok x \<Longrightarrow> drop off bs = item_bytes x @ r \<Longrightarrow>
      validate bs off = validate bs (off + length (item_bytes x))"
    and validate_stop: "stop (drop off bs) \<Longrightarrow> validate bs off = Inr ()"
    and validate_cases: "validate bs off = Inr () \<Longrightarrow>
      stop (drop off bs) \<or> (\<exists>x r. item_ok x \<and> drop off bs = item_bytes x @ r)"
    and next_pad: "form_profile p \<Longrightarrow> ei_profile it = Some p \<Longrightarrow> ei_end it = length (ei_bytes it) \<Longrightarrow>
      drop (ei_offset it) (ei_bytes it) = 0 # r \<Longrightarrow> ext_next it = ext_next (it\<lparr>ei_offset := ei_offset it + 1\<rparr>)"
    and next_item: "form_profile p \<Longrightarrow> ei_profile it = Some p \<Longrightarrow> ei_end it = length (ei_bytes it) \<Longrightarrow>
      item_ok (Item i v) \<Longrightarrow> drop (ei_offset it) (ei_bytes it) = item_bytes (Item i v) @ r \<Longrightarrow>
      e = ei_base it + ei_offset it + length (item_bytes (Item i v)) \<Longrightarrow>
      ext_next it = (Some \<lparr>re_id = i, re_value = v, re_range = (e - length v, e)\<rparr>,
                     it\<lparr>ei_offset := ei_offset it + length (item_bytes (Item i v))\<rparr>)"
    and next_stop: "form_profile p \<Longrightarrow> ei_profile it = Some p \<Longrightarrow> ei_end it = length (ei_bytes it) \<Longrightarrow>
      stop (drop (ei_offset it) (ei_bytes it)) \<Longrightarrow> fst (ext_next it) = None"

subsection \<open>The two forms\<close>

lemma validate_one_step:
  assumes "drop off bs = b # r"
  shows "validate_one_byte bs off =
    (if b = 0 then validate_one_byte bs (off + 1)
     else if drop_bit 4 b = 15 then Inr ()
     else if unat (b AND 0x0f) + 1 > length r then Inl InvalidExtension
     else validate_one_byte bs (off + (unat (b AND 0x0f) + 2)))"
proof -
  have l: "off < length bs" using assms by (metis drop_all list.discI not_less)
  have b: "bs ! off = b" using assms l by (metis hd_drop_conv_nth list.sel(1))
  have "length r = length bs - off - 1" using assms by (metis length_drop length_Cons diff_Suc_1 One_nat_def diff_Suc_eq_diff_pred minus_nat.diff_0)
  then show ?thesis using l b
    by (subst validate_one_byte.simps) (auto simp: get_at_def Let_def)
qed

lemma validate_two_step:
  assumes "drop off bs = b # r"
  shows "validate_two_byte bs off =
    (if b = 0 then validate_two_byte bs (off + 1)
     else if r = [] \<or> unat (hd r) + 1 > length r then Inl InvalidExtension
     else validate_two_byte bs (off + (unat (hd r) + 2)))"
proof -
  have l: "off < length bs" using assms by (metis drop_all list.discI not_less)
  have b: "bs ! off = b" using assms l by (metis hd_drop_conv_nth list.sel(1))
  have r: "r = drop (Suc off) bs" using assms l by (metis Cons_nth_drop_Suc list.sel(3))
  have hr: "r \<noteq> [] \<Longrightarrow> bs ! Suc off = hd r" using r by (simp add: hd_drop_conv_nth)
  have "length r = length bs - off - 1" using r by simp
  then show ?thesis using l b hr
    by (cases r; subst validate_two_byte.simps) (auto simp: get_at_def Let_def)
qed

lemma ext_next_one:
  assumes "ei_profile it = Some ONE_BYTE_PROFILE" "ei_end it = length (ei_bytes it)"
    and "drop (ei_offset it) (ei_bytes it) = b # r"
  shows "ext_next it =
    (if b = 0 then ext_next (it\<lparr>ei_offset := ei_offset it + 1\<rparr>)
     else if drop_bit 4 b = 15 \<or> unat (b AND 0x0f) + 1 > length r
     then (None, it\<lparr>ei_offset := ei_end it\<rparr>)
     else ext_emit (it\<lparr>ei_offset := ei_offset it + 1\<rparr>) (drop_bit 4 b) (unat (b AND 0x0f) + 1))"
proof -
  have l: "ei_offset it < length (ei_bytes it)" using assms(3) by (metis drop_all list.discI not_less)
  have b: "ei_bytes it ! ei_offset it = b" using assms(3) l by (metis hd_drop_conv_nth list.sel(1))
  have r: "r = drop (Suc (ei_offset it)) (ei_bytes it)" using assms(3) l by (metis Cons_nth_drop_Suc list.sel(3))
  have "length r = length (ei_bytes it) - ei_offset it - 1" using r by simp
  then show ?thesis using l b assms(1, 2)
    by (subst ext_next.simps) (auto simp: get_at_def Let_def)
qed

lemma two_byte_profile_range: "two_byte_profile p \<longleftrightarrow> 0x1000 \<le> p \<and> p \<le> 0x100F"
proof -
  have high: "(0xfff0 :: u16) = NOT (mask 4)" by (simp add: mask_eq_decr_exp)
  have "p AND 0xfff0 = push_bit 4 (drop_bit 4 p)"
    unfolding high by (rule bit_word_eqI) (auto simp: bit_and_iff bit_not_iff bit_mask_iff bit_push_bit_iff bit_drop_bit_eq)
  then have "two_byte_profile p \<longleftrightarrow> push_bit 4 (drop_bit 4 p) = push_bit 4 (0x100 :: u16)"
    by (simp add: two_byte_profile_def)
  also have "\<dots> \<longleftrightarrow> drop_bit 4 p = 0x100"
  proof
    assume "push_bit 4 (drop_bit 4 p) = push_bit 4 (0x100 :: u16)"
    then have "drop_bit 4 (push_bit 4 (drop_bit 4 p)) = drop_bit 4 (push_bit 4 (0x100 :: u16))" by (rule arg_cong)
    moreover have "drop_bit 4 (push_bit 4 (drop_bit 4 p)) = drop_bit 4 p"
      by (rule bit_word_eqI) (auto simp: bit_push_bit_iff bit_drop_bit_eq dest: bit_imp_le_length)
    ultimately show "drop_bit 4 p = 0x100" by simp
  qed simp
  also have "\<dots> \<longleftrightarrow> unat p div 16 = 256" by (simp add: word_unat_eq_iff unat_drop_bit)
  also have "\<dots> \<longleftrightarrow> 4096 \<le> unat p \<and> unat p \<le> 4111" by auto
  also have "\<dots> \<longleftrightarrow> 0x1000 \<le> p \<and> p \<le> 0x100F" by (simp add: word_le_nat_alt)
  finally show ?thesis .
qed

lemma two_byte_not_one: "two_byte_profile p \<Longrightarrow> p \<noteq> ONE_BYTE_PROFILE"
  by (auto simp: two_byte_profile_def ONE_BYTE_PROFILE_def)

lemma ext_next_two:
  assumes "ei_profile it = Some p" "two_byte_profile p" "ei_end it = length (ei_bytes it)"
    and "drop (ei_offset it) (ei_bytes it) = b # r" and "b = 0 \<or> r \<noteq> []"
  shows "ext_next it =
    (if b = 0 then ext_next (it\<lparr>ei_offset := ei_offset it + 1\<rparr>)
     else if unat (hd r) + 1 > length r then (None, it\<lparr>ei_offset := ei_end it\<rparr>)
     else ext_emit (it\<lparr>ei_offset := ei_offset it + 2\<rparr>) b (unat (hd r)))"
proof -
  have l: "ei_offset it < length (ei_bytes it)" using assms(4) by (metis drop_all list.discI not_less)
  have b: "ei_bytes it ! ei_offset it = b" using assms(4) l by (metis hd_drop_conv_nth list.sel(1))
  have r: "r = drop (Suc (ei_offset it)) (ei_bytes it)" using assms(4) l by (metis Cons_nth_drop_Suc list.sel(3))
  have hr: "r \<noteq> [] \<Longrightarrow> ei_bytes it ! Suc (ei_offset it) = hd r" using r by (simp add: hd_drop_conv_nth)
  have "length r = length (ei_bytes it) - ei_offset it - 1" using r by simp
  then show ?thesis using l b hr assms(1, 2, 3, 5)
    by (subst ext_next.simps) (auto simp: get_at_def Let_def two_byte_not_one)
qed

lemma ext_emit_at:
  assumes "drop (ei_offset it) (ei_bytes it) = v @ r" "ei_offset it \<le> length (ei_bytes it)"
  shows "ext_emit it i (length v) =
    (Some \<lparr>re_id = i, re_value = v,
           re_range = (ei_base it + ei_offset it, ei_base it + ei_offset it + length v)\<rparr>,
     it\<lparr>ei_offset := ei_offset it + length v\<rparr>)"
proof -
  have "length (ei_bytes it) - ei_offset it = length v + length r" using assms(1) by (metis length_drop length_append)
  then have "get_range (ei_bytes it) (ei_offset it) (ei_offset it + length v) = Some v"
    using assms by (simp add: get_range_def)
  then show ?thesis by (simp add: ext_emit_def Let_def)
qed

lemma ext_next_end: "ei_end it \<le> ei_offset it \<Longrightarrow> ext_next it = (None, it)"
  by (subst ext_next.simps) simp

subsection \<open>Whole blocks\<close>

text \<open>\<open>for e in iter\<close>: each element moves the cursor forward, so the loop ends.\<close>

lemma ext_emit_advances: "ext_emit it i n = (Some e, it') \<Longrightarrow>
    it' = it\<lparr>ei_offset := ei_offset it + n\<rparr>"
  by (auto simp: ext_emit_def Let_def split: option.splits)

lemma ext_next_advances:
  "ext_next it = (Some e, it') \<Longrightarrow>
    ei_offset it < ei_offset it' \<and> ei_offset it' \<le> ei_end it' \<and> ei_end it' = ei_end it"
proof (induction it rule: ext_next.induct)
  case (1 it)
  have l: "ei_offset it < ei_end it" using 1(4) by (subst (asm) ext_next.simps) (auto split: if_splits)
  show ?case
    using 1 l by (subst (asm) (4) ext_next.simps)
      (fastforce simp: Let_def ext_next_end split: option.splits if_splits dest!: ext_emit_advances)
qed

function ext_collect :: "ExtensionIter \<Rightarrow> RtpExtension list" where
  "ext_collect it = (case ext_next it of (None, it') \<Rightarrow> [] | (Some e, it') \<Rightarrow> e # ext_collect it')"
  by pat_completeness auto
termination
  by (relation "measure (\<lambda>it. ei_end it - ei_offset it)") (auto dest!: sym [of _ "ext_next _"] dest: ext_next_advances)

declare ext_collect.simps [simp del]

context element_form
begin

abbreviation items_bytes :: "ext_item list \<Rightarrow> u8 list" where
  "items_bytes xs \<equiv> concat (map item_bytes xs)"

lemma drop_item: "drop off bs = item_bytes x @ r \<Longrightarrow> drop (off + length (item_bytes x)) bs = r"
  by (metis add.commute append_eq_conv_conj drop_drop)

lemma validate_items:
  "list_all item_ok xs \<Longrightarrow> drop off bs = items_bytes xs @ r \<Longrightarrow> stop r \<Longrightarrow> validate bs off = Inr ()"
proof (induction xs arbitrary: off)
  case Nil then show ?case by (simp add: validate_stop)
next
  case (Cons x xs)
  then have d: "drop off bs = item_bytes x @ items_bytes xs @ r" by simp
  show ?case using Cons validate_item [OF _ d] drop_item [OF d] by simp
qed

lemma validate_sound:
  "validate bs off = Inr () \<Longrightarrow> \<exists>xs r. list_all item_ok xs \<and> drop off bs = items_bytes xs @ r \<and> stop r"
proof (induction "length bs - off" arbitrary: off rule: less_induct)
  case less
  show ?case
  proof (cases "stop (drop off bs)")
    case True then show ?thesis by (intro exI [of _ "[]"] exI [of _ "drop off bs"]) simp
  next
    case False
    then obtain x r where x: "item_ok x" "drop off bs = item_bytes x @ r" using validate_cases [OF less(2)] by auto
    have "validate bs (off + length (item_bytes x)) = Inr ()" using validate_item [OF x] less(2) by simp
    moreover have "off < length bs" using False stop_Nil by (metis drop_all not_less)
    then have "length bs - (off + length (item_bytes x)) < length bs - off" using item_nonempty [of x]
      by (simp add: diff_less_mono2)
    ultimately obtain xs r' where "list_all item_ok xs" "r = items_bytes xs @ r'" "stop r'"
      using less(1) drop_item [OF x(2)] by metis
    then show ?thesis using x by (intro exI [of _ "x # xs"] exI [of _ r']) simp
  qed
qed

lemma validate_iff:
  "validate bs 0 = Inr () \<longleftrightarrow> (\<exists>xs r. list_all item_ok xs \<and> bs = items_bytes xs @ r \<and> stop r)"
  using validate_items [of _ 0 bs] validate_sound [of bs 0] by auto

lemma collect_items:
  assumes "form_profile p"
  shows "ei_profile it = Some p \<Longrightarrow> ei_end it = length (ei_bytes it) \<Longrightarrow> list_all item_ok xs \<Longrightarrow>
    drop (ei_offset it) (ei_bytes it) = items_bytes xs @ r \<Longrightarrow> stop r \<Longrightarrow>
    ext_collect it = placed item_bytes (ei_base it + ei_offset it) xs"
proof (induction xs arbitrary: it)
  case Nil
  then have "fst (ext_next it) = None" by (intro next_stop [OF assms]) simp_all
  then show ?case by (subst ext_collect.simps) (auto split: prod.splits)
next
  case (Cons x xs)
  then have d: "drop (ei_offset it) (ei_bytes it) = item_bytes x @ items_bytes xs @ r" by simp
  let ?it = "it\<lparr>ei_offset := ei_offset it + length (item_bytes x)\<rparr>"
  have IH: "ext_collect ?it = placed item_bytes (ei_base it + ei_offset it + length (item_bytes x)) xs"
    using Cons.prems drop_item [OF d] Cons.IH [of ?it] by (simp add: add.assoc)
  show ?case
  proof (cases x)
    case Pad
    then have "ext_next it = ext_next ?it" using next_pad [OF assms, of it] Cons.prems d by (simp add: pad_bytes)
    then have "ext_collect it = ext_collect ?it" by (subst (1 2) ext_collect.simps) simp
    then show ?thesis using IH Pad by simp
  next
    case (Item i v)
    have ok: "item_ok (Item i v)" using Cons.prems(3) Item by simp
    show ?thesis
      using next_item [OF assms Cons.prems(1, 2) ok d [unfolded Item] refl] IH Item
      by (subst ext_collect.simps) (simp add: Let_def)
  qed
qed

end

lemma below_15: "(i :: u8) < 16 \<Longrightarrow> i \<noteq> 15 \<Longrightarrow> i < 15"
proof -
  assume "i < 16" "i \<noteq> 15"
  then have "unat i < 16" "unat i \<noteq> unat (15 :: u8)" by (auto simp: word_less_nat_alt word_unat_eq_iff)
  then show "i < 15" by (simp add: word_less_nat_alt)
qed

lemma one_validate_cases:
  assumes "validate_one_byte bs off = Inr ()"
  shows "one_stop (drop off bs) \<or> (\<exists>x r. one_ok x \<and> drop off bs = one_item x @ r)"
proof (cases "drop off bs")
  case Nil then show ?thesis by (simp add: one_stop_def)
next
  case (Cons b r)
  let ?i = "drop_bit 4 b" and ?k = "unat (b AND 0x0f) + 1"
  consider "b = 0" | "?i = 15" | "b \<noteq> 0" "?i \<noteq> 15" "?k \<le> length r"
    using assms by (auto simp: validate_one_step [OF Cons] split: if_splits)
  then show ?thesis
  proof cases
    case 1 then show ?thesis using Cons by (intro disjI2 exI [of _ Pad]) simp
  next
    case 2 then show ?thesis using Cons by (simp add: one_stop_def)
  next
    case 3
    have "b = push_bit 4 ?i OR of_nat (length (take ?k r) - 1)" using nibbles_of [of b] 3(3) by simp
    then have "drop off bs = one_item (Item ?i (take ?k r)) @ drop ?k r" using Cons by simp
    moreover have "?i < 15" using below_15 [OF nibble_bounds(1) 3(2)] .
    moreover have "?i \<noteq> 0 \<or> ?k \<noteq> 1" using 3(1) nibbles_of [of b] by (cases "b AND 0x0f = 0") (auto simp: unat_eq_0)
    ultimately show ?thesis using 3 nibble_bounds(2) [of b]
      by (intro disjI2 exI [of _ "Item ?i (take ?k r)"] exI [of _ "drop ?k r"]) auto
  qed
qed

lemma one_item_header:
  assumes "one_ok (Item i v)"
  obtains b where "one_item (Item i v) = b # v" "b \<noteq> 0" "drop_bit 4 b = i" "unat (b AND 0x0f) + 1 = length v"
proof -
  have i: "i < 16" and v: "length v - 1 < 16" "length v \<noteq> 0"
    using assms by (auto simp: word_less_nat_alt)
  define b where "b = push_bit 4 i OR of_nat (length v - 1)"
  have n: "drop_bit 4 b = i" unfolding b_def by (rule nibbles(1) [OF i v(1)])
  have "unat (b AND 0x0f) = length v - 1" unfolding b_def by (rule nibbles(2) [OF i v(1)])
  then have k: "unat (b AND 0x0f) + 1 = length v" using v(2) by simp
  have z: "b \<noteq> 0"
  proof
    assume "b = 0"
    with n k have "i = 0" "length v = 1" by auto
    with assms show False by simp
  qed
  show thesis using that [OF _ z n k] by (simp only: one_item.simps b_def)
qed

interpretation one: element_form "\<lambda>p. p = ONE_BYTE_PROFILE" one_item one_ok one_stop validate_one_byte
proof unfold_locales
  show "one_item Pad = [0]" by simp
  show "one_item x \<noteq> []" for x by (cases x) auto
  show "one_stop []" by (simp add: one_stop_def)
  show "validate_one_byte bs off = validate_one_byte bs (off + length (one_item x))"
    if "one_ok x" "drop off bs = one_item x @ r" for x off bs r
  proof (cases x)
    case Pad with that show ?thesis using validate_one_step [of off bs 0] by simp
  next
    case (Item i v)
    with that(1) obtain b where b: "one_item x = b # v" "b \<noteq> 0" "drop_bit 4 b = i" "unat (b AND 0x0f) + 1 = length v"
      by (metis one_item_header)
    then have d: "drop off bs = b # v @ r" using that(2) by simp
    show ?thesis using validate_one_step [OF d] b Item that(1) by auto
  qed
  show "validate_one_byte bs off = Inr ()" if "one_stop (drop off bs)" for off bs
  proof (cases "drop off bs")
    case Nil then show ?thesis by (subst validate_one_byte.simps) simp
  next
    case (Cons b r) then show ?thesis using validate_one_step [OF Cons] that by (auto simp: one_stop_def)
  qed
  show "one_stop (drop off bs) \<or> (\<exists>x r. one_ok x \<and> drop off bs = one_item x @ r)"
    if "validate_one_byte bs off = Inr ()" for off bs
    using that by (rule one_validate_cases)
next
  fix p and it :: ExtensionIter and r assume "p = ONE_BYTE_PROFILE" and it: "ei_profile it = Some p" "ei_end it = length (ei_bytes it)"
  note it = it [unfolded \<open>p = _\<close>]
  show "ext_next it = ext_next (it\<lparr>ei_offset := ei_offset it + 1\<rparr>)"
    if "drop (ei_offset it) (ei_bytes it) = 0 # r"
    using ext_next_one [OF it that] by simp
  show "fst (ext_next it) = None" if s: "one_stop (drop (ei_offset it) (ei_bytes it))"
  proof (cases "drop (ei_offset it) (ei_bytes it)")
    case Nil then show ?thesis using it(2) by (simp add: ext_next_end)
  next
    case (Cons b r)
    with s have "drop_bit 4 b = 15" by (simp add: one_stop_def)
    then show ?thesis using ext_next_one [OF it Cons] by auto
  qed
  fix i v e assume ok: "one_ok (Item i v)" and d: "drop (ei_offset it) (ei_bytes it) = one_item (Item i v) @ r"
    and e: "e = ei_base it + ei_offset it + length (one_item (Item i v))"
  let ?it = "it\<lparr>ei_offset := ei_offset it + 1\<rparr>"
  obtain b where b: "one_item (Item i v) = b # v" "b \<noteq> 0" "drop_bit 4 b = i" "unat (b AND 0x0f) + 1 = length v"
    using ok by (rule one_item_header)
  have d1: "drop (ei_offset it) (ei_bytes it) = b # v @ r" using d b(1) by simp
  have dv: "drop (ei_offset ?it) (ei_bytes ?it) = v @ r"
    using arg_cong [OF d1, of "drop 1"] by (simp add: add.commute)
  have l: "ei_offset ?it \<le> length (ei_bytes ?it)" using arg_cong [OF d1, of length] by simp
  have "ext_next it = ext_emit ?it i (length v)"
    using ext_next_one [OF it d1] b ok by auto
  also have "\<dots> = (Some \<lparr>re_id = i, re_value = v, re_range = (e - length v, e)\<rparr>,
      it\<lparr>ei_offset := ei_offset it + length (one_item (Item i v))\<rparr>)"
    using ext_emit_at [OF dv l] e by simp
  finally show "ext_next it = \<dots>" .
qed

interpretation two: element_form two_byte_profile two_item two_ok two_stop validate_two_byte
proof unfold_locales
  show "two_item Pad = [0]" by simp
  show "two_item x \<noteq> []" for x by (cases x) auto
  show "two_stop []" by (simp add: two_stop_def)
  show "validate_two_byte bs off = validate_two_byte bs (off + length (two_item x))"
    if "two_ok x" "drop off bs = two_item x @ r" for x off bs r
    using that validate_two_step [of off bs "hd (two_item x)" "tl (two_item x) @ r"]
    by (cases x) (auto simp: unat_of_nat_fits)
  show "validate_two_byte bs off = Inr ()" if "two_stop (drop off bs)" for off bs
    using that by (subst validate_two_byte.simps) (simp add: two_stop_def)
  show "two_stop (drop off bs) \<or> (\<exists>x r. two_ok x \<and> drop off bs = two_item x @ r)"
    if v: "validate_two_byte bs off = Inr ()" for off bs
  proof (cases "drop off bs")
    case Nil then show ?thesis by (simp add: two_stop_def)
  next
    case (Cons b r)
    show ?thesis
    proof (cases "b = 0")
      case True then show ?thesis using Cons by (intro disjI2 exI [of _ Pad]) simp
    next
      case False
      with v validate_two_step [OF Cons] have "r \<noteq> [] \<and> unat (hd r) + 1 \<le> length r" by (auto split: if_splits)
      then obtain k s where r: "r = k # s" "unat k \<le> length s" by (cases r) auto
      then have "drop off bs = two_item (Item b (take (unat k) s)) @ drop (unat k) s" using Cons by simp
      then show ?thesis using False unat_bounds(1) [of k] r
        by (intro disjI2 exI [of _ "Item b (take (unat k) s)"] exI [of _ "drop (unat k) s"]) auto
    qed
  qed
next
  fix p and it :: ExtensionIter and r assume p: "two_byte_profile p" and it: "ei_profile it = Some p" "ei_end it = length (ei_bytes it)"
  show "ext_next it = ext_next (it\<lparr>ei_offset := ei_offset it + 1\<rparr>)"
    if "drop (ei_offset it) (ei_bytes it) = 0 # r"
    using ext_next_two [OF it(1) p it(2) that] by simp
  show "fst (ext_next it) = None" if "two_stop (drop (ei_offset it) (ei_bytes it))"
    using that it(2) by (simp add: ext_next_end two_stop_def)
  fix i v e assume ok: "two_ok (Item i v)" and d: "drop (ei_offset it) (ei_bytes it) = two_item (Item i v) @ r"
    and e: "e = ei_base it + ei_offset it + length (two_item (Item i v))"
  let ?it = "it\<lparr>ei_offset := ei_offset it + 2\<rparr>"
  have d1: "drop (ei_offset it) (ei_bytes it) = i # (of_nat (length v) # v @ r)" using d by simp
  have dv: "drop (ei_offset ?it) (ei_bytes ?it) = v @ r"
    using arg_cong [OF d1, of "drop 2"] by (simp add: add.commute)
  have l: "ei_offset ?it \<le> length (ei_bytes ?it)" using arg_cong [OF d1, of length] by simp
  have "ext_next it = ext_emit ?it i (length v)"
    using ext_next_two [OF it(1) p it(2) d1] ok by (auto simp: unat_of_nat_fits)
  also have "\<dots> = (Some \<lparr>re_id = i, re_value = v, re_range = (e - length v, e)\<rparr>,
      it\<lparr>ei_offset := ei_offset it + length (two_item (Item i v))\<rparr>)"
    using ext_emit_at [OF dv l] e by simp
  finally show "ext_next it = \<dots>" .
qed

subsection \<open>The wire format of RTP packets\<close>

text \<open>
  An extension block is a profile, its items and the bytes behind a terminator; a block of an unknown
  profile has no items, only bytes.
\<close>

record ext_block =
  eb_profile :: u16
  eb_items :: "ext_item list"
  eb_rest :: "u8 list"

definition item_form :: "u16 \<Rightarrow> ext_item \<Rightarrow> u8 list" where
  "item_form profile = (if profile = 0xBEDE then one_item else two_item)"

definition block_bytes :: "ext_block \<Rightarrow> u8 list" where
  "block_bytes b = concat (map (item_form (eb_profile b)) (eb_items b)) @ eb_rest b"

definition block_ok :: "ext_block \<Rightarrow> bool" where
  "block_ok b \<longleftrightarrow>
     (if eb_profile b = 0xBEDE then list_all one_ok (eb_items b) \<and> one_stop (eb_rest b)
      else if 0x1000 \<le> eb_profile b \<and> eb_profile b \<le> 0x100F then list_all two_ok (eb_items b) \<and> eb_rest b = []
      else eb_items b = [])"

lemma item_form_iff: "item_form profile = (if profile = ONE_BYTE_PROFILE then one_item else two_item)"
  by (simp add: item_form_def ONE_BYTE_PROFILE_def)

lemma block_ok_iff: "block_ok b \<longleftrightarrow>
     (if eb_profile b = ONE_BYTE_PROFILE then list_all one_ok (eb_items b) \<and> one_stop (eb_rest b)
      else if two_byte_profile (eb_profile b) then list_all two_ok (eb_items b) \<and> eb_rest b = []
      else eb_items b = [])"
  by (simp add: block_ok_def ONE_BYTE_PROFILE_def two_byte_profile_range)

definition ext_wf :: "ext_block \<Rightarrow> bool" where
  "ext_wf b \<longleftrightarrow> block_ok b \<and> 4 dvd length (block_bytes b) \<and> length (block_bytes b) \<le> 16 * 1024"

definition ext_bytes :: "ext_block \<Rightarrow> u8 list" where
  "ext_bytes b = to_be16 (eb_profile b) @ to_be16 (of_nat (length (block_bytes b) div 4)) @ block_bytes b"

text \<open>Padding is counted by its last byte, which counts itself.\<close>

definition pad_bytes :: "u8 list option \<Rightarrow> u8 list" where
  "pad_bytes ps = (case ps of None \<Rightarrow> [] | Some xs \<Rightarrow> xs @ [of_nat (length xs + 1)])"

definition pad_ok :: "u8 list option \<Rightarrow> bool" where
  "pad_ok ps \<longleftrightarrow> (case ps of None \<Rightarrow> True | Some xs \<Rightarrow> length xs < 255)"

record rtp_view =
  rv_marker :: bool
  rv_payload_type :: u8
  rv_sequence :: u16
  rv_timestamp :: u32
  rv_ssrc :: u32
  rv_csrcs :: "u32 list"
  rv_extension :: "ext_block option"
  rv_payload :: "u8 list"
  rv_padding :: "u8 list option"

definition first_byte :: "bool \<Rightarrow> bool \<Rightarrow> nat \<Rightarrow> u8" where
  "first_byte p x cc = 0x80 OR (if p then 0x20 else 0) OR (if x then 0x10 else 0) OR of_nat cc"

definition second_byte :: "bool \<Rightarrow> u8 \<Rightarrow> u8" where
  "second_byte m pt = (if m then 0x80 else 0) OR pt"

definition rtp_fixed :: "rtp_view \<Rightarrow> u8 list" where
  "rtp_fixed v = [first_byte (rv_padding v \<noteq> None) (rv_extension v \<noteq> None) (length (rv_csrcs v)),
     second_byte (rv_marker v) (rv_payload_type v)] @ to_be16 (rv_sequence v) @
     to_be32 (rv_timestamp v) @ to_be32 (rv_ssrc v)"

definition rtp_header :: "rtp_view \<Rightarrow> u8 list" where
  "rtp_header v = rtp_fixed v @ concat (map to_be32 (rv_csrcs v)) @
     (case rv_extension v of None \<Rightarrow> [] | Some b \<Rightarrow> ext_bytes b)"

definition rtp_bytes :: "rtp_view \<Rightarrow> u8 list" where
  "rtp_bytes v = rtp_header v @ rv_payload v @ pad_bytes (rv_padding v)"

definition rtp_wf :: "rtp_view \<Rightarrow> bool" where
  "rtp_wf v \<longleftrightarrow> unat (rv_payload_type v) < 128 \<and> length (rv_csrcs v) \<le> 15 \<and>
     (case rv_extension v of None \<Rightarrow> True | Some b \<Rightarrow> ext_wf b) \<and> pad_ok (rv_padding v)"

definition rtp_packet_of :: "rtp_view \<Rightarrow> RtpPacket" where
  "rtp_packet_of v =
     \<lparr>rp_bytes = rtp_bytes v,
      rp_payload = (length (rtp_header v), length (rtp_header v) + length (rv_payload v)),
      rp_extensions = map_option (\<lambda>b. (16 + 4 * length (rv_csrcs v), length (rtp_header v))) (rv_extension v),
      rp_extension_profile = map_option eb_profile (rv_extension v),
      rp_sequence = rv_sequence v, rp_timestamp = rv_timestamp v, rp_ssrc = rv_ssrc v,
      rp_payload_type = rv_payload_type v, rp_marker = rv_marker v\<rparr>"

subsection \<open>The parts of a packet\<close>

lemma flag_bits: "(b :: u8) AND 0x80 \<noteq> 0 \<longleftrightarrow> bit b 7" "b AND 0x20 \<noteq> 0 \<longleftrightarrow> bit b 5" "b AND 0x10 \<noteq> 0 \<longleftrightarrow> bit b 4"
  by (simp_all add: bit_iff_and_push_bit_not_eq_0)

lemma first_byte_fields:
  assumes "cc < 16"
  shows "drop_bit 6 (first_byte p x cc) = 2" "first_byte p x cc AND 0x20 \<noteq> 0 \<longleftrightarrow> p"
    "first_byte p x cc AND 0x10 \<noteq> 0 \<longleftrightarrow> x" "unat (first_byte p x cc AND 0x0f) = cc"
proof -
  have "list_all (\<lambda>k. drop_bit 6 (first_byte p x k) = 2 \<and> (first_byte p x k AND 0x20 \<noteq> 0) = p \<and>
      (first_byte p x k AND 0x10 \<noteq> 0) = x \<and> unat (first_byte p x k AND 0x0f) = k) [0..<16]"
    by (cases p; cases x; simp; code_simp)
  then show "drop_bit 6 (first_byte p x cc) = 2" "first_byte p x cc AND 0x20 \<noteq> 0 \<longleftrightarrow> p"
    "first_byte p x cc AND 0x10 \<noteq> 0 \<longleftrightarrow> x" "unat (first_byte p x cc AND 0x0f) = cc"
    using assms by (auto simp: list_all_iff)
qed

lemma first_byte_of:
  assumes "drop_bit 6 b = 2"
  shows "b = first_byte (b AND 0x20 \<noteq> 0) (b AND 0x10 \<noteq> 0) (unat (b AND 0x0f))"
proof -
  have "bit (drop_bit 6 b) 0 = bit (2 :: u8) 0" "bit (drop_bit 6 b) 1 = bit (2 :: u8) 1" using assms by simp_all
  then have "\<not> bit b 6" "bit b 7" by (simp_all add: bit_drop_bit_eq)
  then show ?thesis unfolding first_byte_def flag_bits by (intro byte_eqI) (simp_all add: byte_bits)
qed

lemma second_byte_fields:
  assumes "unat pt < 128"
  shows "second_byte m pt AND 0x7f = pt" "second_byte m pt AND 0x80 \<noteq> 0 \<longleftrightarrow> m"
proof -
  have "take_bit 7 pt = pt" using assms by (intro take_bit_fits) simp
  then have n: "\<not> bit pt 7" by (metis bit_take_bit_iff less_irrefl)
  show "second_byte m pt AND 0x7f = pt" "second_byte m pt AND 0x80 \<noteq> 0 \<longleftrightarrow> m"
    unfolding second_byte_def flag_bits by (intro byte_eqI; simp add: byte_bits n) (simp add: byte_bits n)
qed

lemma second_byte_of: "b = second_byte (b AND 0x80 \<noteq> 0) (b AND 0x7f)" "unat (b AND 0x7f) < 128"
proof -
  show "b = second_byte (b AND 0x80 \<noteq> 0) (b AND 0x7f)"
    unfolding second_byte_def flag_bits by (intro byte_eqI) (simp_all add: byte_bits)
  have "b AND 0x7f = take_bit 7 b" by (simp add: take_bit_eq_mask mask_eq_exp_minus_1)
  then show "unat (b AND 0x7f) < 128"
    using take_bit_nat_less_exp [of 7 "unat b"] by (simp add: unsigned_take_bit_eq)
qed

lemma u32_list: "length xs = 4 * n \<Longrightarrow> \<exists>cs. length cs = n \<and> xs = concat (map to_be32 cs)"
proof (induction n arbitrary: xs)
  case 0 then show ?case by simp
next
  case (Suc n)
  then have "length xs = Suc (Suc (Suc (Suc (4 * n))))" by simp
  then obtain a b c d ys where xs: "xs = a # b # c # d # ys" "length ys = 4 * n"
    by (auto simp only: length_Suc_conv)
  then obtain cs where "length cs = n" "ys = concat (map to_be32 cs)" using Suc.IH by blast
  then show ?case using xs by (intro exI [of _ "be32 a b c d # cs"]) simp
qed

lemma length_u32_list [simp]: "length (concat (map to_be32 cs)) = 4 * length cs"
  by (induction cs) auto

lemma read_at:
  "drop off bs = a # b # r \<Longrightarrow> read_u16 bs off = Inr (be16 a b)"
proof -
  assume d: "drop off bs = a # b # r"
  have "length (drop off bs) = Suc (Suc (length r))" using d by simp
  then have "off + 2 \<le> length bs" by simp
  then show ?thesis using d by (simp add: read_u16_def get_range_def numeral_2_eq_2)
qed

lemma validate_block:
  "validate_extension_elements bs profile = Inr () \<longleftrightarrow>
     (\<exists>b. block_ok b \<and> eb_profile b = profile \<and> bs = block_bytes b)" (is "_ \<longleftrightarrow> ?R")
proof -
  have "?R \<longleftrightarrow> (\<exists>xs r. block_ok \<lparr>eb_profile = profile, eb_items = xs, eb_rest = r\<rparr> \<and>
      bs = block_bytes \<lparr>eb_profile = profile, eb_items = xs, eb_rest = r\<rparr>)" (is "_ \<longleftrightarrow> ?S")
    by (metis ext_block.surjective ext_block.select_convs(1) old.unit.exhaust)
  also have "?S \<longleftrightarrow> validate_extension_elements bs profile = Inr ()"
    using one.validate_iff [of bs] two.validate_iff [of bs] two_byte_not_one [of profile]
    by (auto simp: validate_extension_elements_def block_ok_iff block_bytes_def item_form_iff two_stop_def)
  finally show ?thesis by simp
qed

lemma collect_block:
  assumes "block_ok b" and "ei_profile it = Some (eb_profile b)" "ei_offset it = 0"
    "ei_bytes it = block_bytes b" "ei_end it = length (block_bytes b)"
  shows "ext_collect it = placed (item_form (eb_profile b)) (ei_base it) (eb_items b)"
proof -
  consider "eb_profile b = ONE_BYTE_PROFILE" | "two_byte_profile (eb_profile b)"
    | "eb_profile b \<noteq> ONE_BYTE_PROFILE" "\<not> two_byte_profile (eb_profile b)" by blast
  then show ?thesis
  proof cases
    case 1 then show ?thesis
      using assms one.collect_items [OF 1, of it "eb_items b" "eb_rest b"]
      by (simp add: block_ok_iff block_bytes_def item_form_iff)
  next
    case 2 then show ?thesis
      using assms two.collect_items [OF 2, of it "eb_items b" "[]"] two_byte_not_one [OF 2]
      by (simp add: block_ok_iff block_bytes_def item_form_iff two_stop_def)
  next
    case 3
    have "ext_next it = (None, it\<lparr>ei_offset := ei_end it\<rparr>)"
      using 3 assms by (subst ext_next.simps) (auto simp: get_at_def ext_next_end)
    then show ?thesis using 3 assms(1) by (subst ext_collect.simps) (simp add: block_ok_iff)
  qed
qed

lemma extension_block_of:
  assumes "ext_wf b" and "length pre = hl"
  shows "rtp_extension_block (pre @ ext_bytes b @ rest) hl =
    Inr (Some (hl + 4, hl + length (ext_bytes b)), Some (eb_profile b), hl + length (ext_bytes b))"
proof -
  let ?n = "length (block_bytes b)" and ?bs = "pre @ ext_bytes b @ rest"
  let ?w = "of_nat (?n div 4) :: u16"
  have n: "unat ?w * 4 = ?n" "?n \<le> MAX_RTP_EXTENSION_BYTES"
    using assms(1) by (auto simp: ext_wf_def MAX_RTP_EXTENSION_BYTES_def unat_of_nat_fits dvd_div_mult_self)
  have r: "read_u16 ?bs hl = Inr (eb_profile b)" "read_u16 ?bs (hl + 2) = Inr ?w"
    using assms(2) read_at [of hl ?bs "ucast (drop_bit 8 (eb_profile b))" "ucast (eb_profile b)"]
      read_at [of "hl + 2" ?bs "ucast (drop_bit 8 ?w)" "ucast ?w"]
    by (auto simp: ext_bytes_def to_be16_def simp del: ucast_drop_bit_eq)
  have l: "length (ext_bytes b) = 4 + ?n" by (simp add: ext_bytes_def)
  have g: "get_range ?bs (hl + 4) (hl + 4 + ?n) = Some (block_bytes b)"
    using assms(2) l by (simp add: get_range_def ext_bytes_def)
  have "validate_extension_elements (block_bytes b) (eb_profile b) = Inr ()"
    using assms(1) by (auto simp: validate_block ext_wf_def)
  then show ?thesis
    using assms(2) n l r g by (simp add: rtp_extension_block_def Let_def add.assoc)
qed

lemma extension_block_cases:
  assumes "rtp_extension_block (pre @ s) hl = Inr (e, p, hl')" and "length pre = hl"
  obtains b rest where "ext_wf b" "s = ext_bytes b @ rest" "e = Some (hl + 4, hl + length (ext_bytes b))"
    "p = Some (eb_profile b)" "hl' = hl + length (ext_bytes b)"
proof -
  have l: "4 \<le> length s" using assms by (auto simp: rtp_extension_block_def Let_def split: if_splits)
  then obtain a b c d t where s: "s = a # b # c # d # t" by (auto simp: numeral_eq_Suc Suc_le_length_iff)
  have r: "read_u16 (pre @ s) hl = Inr (be16 a b)" "read_u16 (pre @ s) (hl + 2) = Inr (be16 c d)"
    using assms(2) s by (simp_all add: read_at)
  let ?n = "unat (be16 c d) * 4"
  have n: "?n \<le> MAX_RTP_EXTENSION_BYTES" "?n \<le> length t"
    and g: "get_range (pre @ s) (hl + 4) (hl + 4 + ?n) = Some (take ?n t)"
    and v: "validate_extension_elements (take ?n t) (be16 a b) = Inr ()"
    and q: "e = Some (hl + 4, hl + 4 + ?n)" "p = Some (be16 a b)" "hl' = hl + 4 + ?n"
    using assms r s
    by (auto simp: rtp_extension_block_def Let_def and_then_Inr_iff get_range_def add.assoc split: if_splits)
  from v obtain x where x: "block_ok x" "eb_profile x = be16 a b" "take ?n t = block_bytes x"
    by (auto simp: validate_block)
  have lx: "length (block_bytes x) = ?n" using x(3) n(2) by (metis length_take min.absorb2)
  have "ext_bytes x = a # b # c # d # block_bytes x" using x(2) lx by (simp add: ext_bytes_def)
  then have s': "s = ext_bytes x @ drop ?n t" using s x(3) by (metis append_Cons append_take_drop_id)
  have lb: "length (ext_bytes x) = 4 + ?n" using lx by (simp add: ext_bytes_def)
  show thesis
    by (rule that [of x "drop ?n t"]) (use x lx n q s' lb in \<open>simp_all add: ext_wf_def MAX_RTP_EXTENSION_BYTES_def\<close>)
qed

lemma padding_of:
  assumes "pad_ok ps" and "length pre = hl"
  shows "rtp_padding (pre @ body @ pad_bytes ps) (ps \<noteq> None) hl = Inr (of_nat (length (pad_bytes ps)))"
proof (cases ps)
  case None then show ?thesis by (simp add: rtp_padding_def pad_bytes_def)
next
  case (Some xs)
  then have "unat (of_nat (length xs + 1) :: u8) = length xs + 1" using assms(1)
    by (intro unat_of_nat_fits) (simp add: pad_ok_def)
  moreover from this have "(of_nat (length xs + 1) :: u8) \<noteq> 0" by (metis Suc_eq_plus1 nat.simps(3) unsigned_0)
  ultimately show ?thesis using Some assms(2)
    by (simp add: rtp_padding_def pad_bytes_def last_byte_def)
qed

lemma padding_cases:
  assumes "rtp_padding (pre @ s) p hl = Inr k" and "length pre = hl"
  obtains ps body where "pad_ok ps" "s = body @ pad_bytes ps" "(ps \<noteq> None) = p" "k = of_nat (length (pad_bytes ps))"
    "unat k = length (pad_bytes ps)"
proof (cases p)
  case False
  then have "k = 0" using assms(1) by (simp add: rtp_padding_def)
  then show thesis using that [of None s] False by (simp add: pad_ok_def pad_bytes_def)
next
  case True
  have k: "k = last (pre @ s)" "k \<noteq> 0" "unat k \<le> length s"
    using assms True by (auto simp: rtp_padding_def last_byte_def and_then_Inr_iff ok_or_Inr_iff split: if_splits)
  let ?m = "length s - unat k"
  have "unat k \<noteq> 0" using k(2) by (simp add: unat_eq_0)
  then have "s \<noteq> []" "drop ?m s \<noteq> []" using k(3) by auto
  then have d: "drop ?m s = butlast (drop ?m s) @ [k]" using k(1) by (metis append_butlast_last_id last_appendR last_drop drop_eq_Nil not_less)
  define xs where "xs = butlast (drop ?m s)"
  have x: "length xs + 1 = unat k" using k(3) \<open>unat k \<noteq> 0\<close> by (simp add: xs_def)
  then have "of_nat (length xs + 1) = k" by (simp only:) simp
  then have pb: "pad_bytes (Some xs) = drop ?m s" using d by (simp add: pad_bytes_def xs_def)
  show thesis
    by (rule that [of "Some xs" "take ?m s"])
      (use True pb x unat_bounds(1) [of k] k(3) in \<open>simp_all add: pad_ok_def\<close>)
qed

subsection \<open>Whole packets\<close>

lemma rtp_parse_fixed:
  assumes "bs = [b0, b1, s0, s1, t0, t1, t2, t3, x0, x1, x2, x3] @ rest"
  shows "rtp_parse bs =
    (if drop_bit 6 b0 \<noteq> 2 then Inl InvalidVersion
     else let hl = 12 + unat (b0 AND 0x0f) * 4
          in if hl > length bs then Inl InvalidLength
             else and_then (if b0 AND 0x10 \<noteq> 0 then rtp_extension_block bs hl else Inr (None, None, hl))
               (\<lambda>(e, p, hl). and_then (rtp_padding bs (b0 AND 0x20 \<noteq> 0) hl) (\<lambda>k.
                 if unat k > length bs then Inl InvalidPadding
                 else if length bs - unat k < hl then Inl InvalidLength
                 else Inr \<lparr>rp_bytes = bs, rp_payload = (hl, length bs - unat k), rp_extensions = e,
                   rp_extension_profile = p, rp_sequence = be16 s0 s1, rp_timestamp = be32 t0 t1 t2 t3,
                   rp_ssrc = be32 x0 x1 x2 x3, rp_payload_type = b1 AND 0x7f,
                   rp_marker = (b1 AND 0x80 \<noteq> 0)\<rparr>)))"
proof -
  have r: "read_u8 bs 0 = Inr b0" "read_u8 bs 1 = Inr b1" "read_u16 bs 2 = Inr (be16 s0 s1)"
    "read_u32 bs 4 = Inr (be32 t0 t1 t2 t3)" "read_u32 bs 8 = Inr (be32 x0 x1 x2 x3)" "\<not> length bs < 12"
    using assms by (simp_all add: read_u8_def get_at_def read_u16_def read_u32_def get_range_def)
  have "\<not> unat (b0 AND 0x0f) > MAX_RTP_CSRC" using nibble_bounds(2) [of b0] by (simp add: MAX_RTP_CSRC_def)
  then show ?thesis unfolding rtp_parse_def Let_def r(1-5) and_then_simps using r(6) by simp
qed

lemma rtp_bytes_parts:
  obtains s0 s1 t0 t1 t2 t3 x0 x1 x2 x3 where
    "to_be16 (rv_sequence v) = [s0, s1]" "be16 s0 s1 = rv_sequence v"
    "to_be32 (rv_timestamp v) = [t0, t1, t2, t3]" "be32 t0 t1 t2 t3 = rv_timestamp v"
    "to_be32 (rv_ssrc v) = [x0, x1, x2, x3]" "be32 x0 x1 x2 x3 = rv_ssrc v"
  by (rule that [OF to_be16_def be16_to_be16 to_be32_def be32_to_be32 to_be32_def be32_to_be32])

lemma rtp_parse_bytes:
  assumes "rtp_wf v"
  shows "rtp_parse (rtp_bytes v) = Inr (rtp_packet_of v)"
proof -
  obtain s0 s1 t0 t1 t2 t3 x0 x1 x2 x3 where f:
    "to_be16 (rv_sequence v) = [s0, s1]" "be16 s0 s1 = rv_sequence v"
    "to_be32 (rv_timestamp v) = [t0, t1, t2, t3]" "be32 t0 t1 t2 t3 = rv_timestamp v"
    "to_be32 (rv_ssrc v) = [x0, x1, x2, x3]" "be32 x0 x1 x2 x3 = rv_ssrc v"
    by (rule rtp_bytes_parts)
  let ?cc = "length (rv_csrcs v)" and ?bs = "rtp_bytes v" and ?h = "length (rtp_header v)"
  let ?b0 = "first_byte (rv_padding v \<noteq> None) (rv_extension v \<noteq> None) ?cc"
    and ?b1 = "second_byte (rv_marker v) (rv_payload_type v)"
  let ?pre = "rtp_fixed v @ concat (map to_be32 (rv_csrcs v))"
    and ?ext = "case rv_extension v of None \<Rightarrow> [] | Some b \<Rightarrow> ext_bytes b"
  have bs: "?bs = [?b0, ?b1, s0, s1, t0, t1, t2, t3, x0, x1, x2, x3] @
      concat (map to_be32 (rv_csrcs v)) @ ?ext @ rv_payload v @ pad_bytes (rv_padding v)"
    by (simp add: rtp_bytes_def rtp_header_def rtp_fixed_def f)
  have pre: "length ?pre = 12 + ?cc * 4" by (simp add: rtp_fixed_def)
  have h: "?h = 12 + ?cc * 4 + length ?ext" by (simp add: rtp_header_def rtp_fixed_def)
  have b0: "drop_bit 6 ?b0 = 2" "(?b0 AND 0x20 \<noteq> 0) = (rv_padding v \<noteq> None)"
    "(?b0 AND 0x10 \<noteq> 0) = (rv_extension v \<noteq> None)" "unat (?b0 AND 0x0f) = ?cc"
    using assms by (intro first_byte_fields; simp add: rtp_wf_def)+
  have b1: "?b1 AND 0x7f = rv_payload_type v" "(?b1 AND 0x80 \<noteq> 0) = rv_marker v"
    using assms by (intro second_byte_fields; simp add: rtp_wf_def)+
  have e: "(if rv_extension v \<noteq> None then rtp_extension_block ?bs (12 + ?cc * 4) else Inr (None, None, 12 + ?cc * 4)) =
      Inr (map_option (\<lambda>b. (16 + ?cc * 4, ?h)) (rv_extension v), map_option eb_profile (rv_extension v), ?h)"
  proof (cases "rv_extension v")
    case (Some b)
    then have "?bs = ?pre @ ext_bytes b @ rv_payload v @ pad_bytes (rv_padding v)"
      by (simp add: rtp_bytes_def rtp_header_def)
    then show ?thesis
      using extension_block_of [OF _ pre] assms Some h by (simp add: rtp_wf_def)
  qed (simp add: h)
  have k: "rtp_padding ?bs (rv_padding v \<noteq> None) ?h = Inr (of_nat (length (pad_bytes (rv_padding v))))"
    unfolding rtp_bytes_def using assms by (intro padding_of) (simp_all add: rtp_wf_def)
  have u: "unat (of_nat (length (pad_bytes (rv_padding v))) :: u8) = length (pad_bytes (rv_padding v))"
    using assms by (intro unat_of_nat_fits) (auto simp: rtp_wf_def pad_ok_def pad_bytes_def split: option.splits)
  have "length ?bs = ?h + length (rv_payload v) + length (pad_bytes (rv_padding v))" by (simp add: rtp_bytes_def)
  moreover have "12 + ?cc * 4 \<le> ?h" using h by simp
  ultimately show ?thesis
    unfolding rtp_parse_fixed [OF bs] Let_def b0 e and_then_simps split k using u b1 f
    by (simp add: rtp_packet_of_def mult.commute)
qed

lemma optional_block_cases:
  assumes "(if x then rtp_extension_block (pre @ s) hl else Inr (None, None, hl)) = Inr (e, p, hl')"
    and "length pre = hl"
  obtains eo rest where "(eo \<noteq> None) = x" "case eo of None \<Rightarrow> True | Some b \<Rightarrow> ext_wf b"
    "s = (case eo of None \<Rightarrow> [] | Some b \<Rightarrow> ext_bytes b) @ rest"
    "hl' = hl + length (case eo of None \<Rightarrow> [] | Some b \<Rightarrow> ext_bytes b)"
proof (cases x)
  case False
  then show thesis using assms that [of None s] by simp
next
  case True
  then have "rtp_extension_block (pre @ s) hl = Inr (e, p, hl')" using assms by simp
  then show thesis
    by (rule extension_block_cases [OF _ assms(2)]) (use that [of "Some _"] True in auto)
qed

lemma and_then_chain:
  "and_then m (\<lambda>(a, b, c). and_then (g c) (h a b c)) = Inr y \<Longrightarrow> \<exists>a b c k. m = Inr (a, b, c) \<and> g c = Inr k"
  by (auto simp: and_then_Inr_iff split: prod.splits)

lemma rtp_parse_accepts:
  assumes "rtp_parse bs = Inr p"
  obtains v where "rtp_wf v" "bs = rtp_bytes v"
proof -
  have "12 \<le> length bs" using assms by (auto simp: rtp_parse_def split: if_splits)
  then obtain b0 b1 s0 s1 t0 t1 t2 t3 x0 x1 x2 x3 rest where
    bs: "bs = [b0, b1, s0, s1, t0, t1, t2, t3, x0, x1, x2, x3] @ rest" (is "_ = ?f @ _")
    by (auto simp: numeral_eq_Suc Suc_le_length_iff)
  let ?cc = "unat (b0 AND 0x0f)"
  note a = assms [unfolded rtp_parse_fixed [OF bs] Let_def]
  have ver: "drop_bit 6 b0 = 2" and "12 + ?cc * 4 \<le> length bs" using a by (auto split: if_splits)
  then have "length (take (4 * ?cc) rest) = 4 * ?cc" using bs by simp
  then obtain cs where cs: "length cs = ?cc" "take (4 * ?cc) rest = concat (map to_be32 cs)" using u32_list by blast
  define pre where "pre = ?f @ concat (map to_be32 cs)"
  define s where "s = drop (4 * ?cc) rest"
  have bs': "bs = pre @ s" using bs cs(2) by (simp add: pre_def s_def) (metis append_take_drop_id)
  have pre: "length pre = 12 + ?cc * 4" using cs(1) by (simp add: pre_def)
  obtain e q hl' k where
    e: "(if b0 AND 0x10 \<noteq> 0 then rtp_extension_block bs (12 + ?cc * 4) else Inr (None, None, 12 + ?cc * 4)) = Inr (e, q, hl')"
    and k: "rtp_padding bs (b0 AND 0x20 \<noteq> 0) hl' = Inr k"
    using and_then_chain [OF if_error [OF if_error [OF a]]] by blast
  let ?e = "\<lambda>eo. case eo of None \<Rightarrow> [] | Some b \<Rightarrow> ext_bytes b"
  obtain eo r1 where eo: "(eo \<noteq> None) = (b0 AND 0x10 \<noteq> 0)" "case eo of None \<Rightarrow> True | Some b \<Rightarrow> ext_wf b"
      "s = ?e eo @ r1" "hl' = 12 + ?cc * 4 + length (?e eo)"
    by (rule optional_block_cases [OF e [unfolded bs'] pre])
  have "rtp_padding ((pre @ ?e eo) @ r1) (b0 AND 0x20 \<noteq> 0) hl' = Inr k" using k bs' eo(3) by simp
  then obtain ps body where ps: "pad_ok ps" "r1 = body @ pad_bytes ps" "(ps \<noteq> None) = (b0 AND 0x20 \<noteq> 0)"
    by (rule padding_cases) (simp add: eo(4) pre)
  let ?v = "\<lparr>rv_marker = (b1 AND 0x80 \<noteq> 0), rv_payload_type = b1 AND 0x7f, rv_sequence = be16 s0 s1,
    rv_timestamp = be32 t0 t1 t2 t3, rv_ssrc = be32 x0 x1 x2 x3, rv_csrcs = cs, rv_extension = eo,
    rv_payload = body, rv_padding = ps\<rparr>"
  have "rtp_fixed ?v = ?f"
    using ps(3) eo(1) cs(1) by (simp add: rtp_fixed_def first_byte_of [OF ver, symmetric] second_byte_of(1) [symmetric])
  then have "bs = rtp_bytes ?v" using bs' eo(3) ps(2) by (simp add: rtp_bytes_def rtp_header_def pre_def)
  moreover have "rtp_wf ?v"
    using eo(2) ps(1) second_byte_of(2) nibble_bounds(2) [of b0] cs(1) by (simp add: rtp_wf_def)
  ultimately show thesis using that by blast
qed

lemma placed_extensions:
  assumes "rtp_wf v"
  shows "extensions (rtp_packet_of v) = Inr it \<Longrightarrow> ext_collect it = (case rv_extension v of None \<Rightarrow> []
    | Some b \<Rightarrow> placed (item_form (eb_profile b)) (16 + 4 * length (rv_csrcs v)) (eb_items b))"
    and "is_ok (extensions (rtp_packet_of v))"
proof -
  let ?p = "16 + 4 * length (rv_csrcs v)"
  have "is_ok (extensions (rtp_packet_of v)) \<and> (\<forall>it. extensions (rtp_packet_of v) = Inr it \<longrightarrow>
      ext_collect it = (case rv_extension v of None \<Rightarrow> []
        | Some b \<Rightarrow> placed (item_form (eb_profile b)) ?p (eb_items b)))"
  proof (cases "rv_extension v")
    case None
    then show ?thesis
      by (simp add: extensions_def rtp_packet_of_def ext_collect.simps ext_next_end)
  next
    case (Some b)
    then have ok: "block_ok b" using assms by (simp add: rtp_wf_def ext_wf_def)
    have h: "length (rtp_header v) = ?p + length (block_bytes b)"
      using Some by (simp add: rtp_header_def rtp_fixed_def ext_bytes_def)
    have "rtp_bytes v = (rtp_fixed v @ concat (map to_be32 (rv_csrcs v)) @ to_be16 (eb_profile b) @
        to_be16 (of_nat (length (block_bytes b) div 4))) @ block_bytes b @ rv_payload v @ pad_bytes (rv_padding v)"
      (is "_ = ?pre @ _") using Some by (simp add: rtp_bytes_def rtp_header_def ext_bytes_def)
    moreover have "length ?pre = ?p" by (simp add: rtp_fixed_def)
    ultimately have "get_range (rtp_bytes v) ?p (length (rtp_header v)) = Some (block_bytes b)"
      using h by (simp add: get_range_def)
    then show ?thesis using Some h ok
      by (simp add: extensions_def rtp_packet_of_def collect_block)
  qed
  then show "extensions (rtp_packet_of v) = Inr it \<Longrightarrow> ext_collect it = (case rv_extension v of None \<Rightarrow> []
    | Some b \<Rightarrow> placed (item_form (eb_profile b)) ?p (eb_items b))"
    and "is_ok (extensions (rtp_packet_of v))" by auto
qed

text \<open>Every placed value is the slice of the packet its range names.\<close>

lemma placed_in_range:
  assumes f: "\<And>i v. \<exists>h. f (Item i v) = h @ v"
  shows "x \<in> set (placed f (length pre) xs) \<Longrightarrow>
    get_range (pre @ concat (map f xs) @ post) (fst (re_range x)) (snd (re_range x)) = Some (re_value x) \<and>
    length pre \<le> fst (re_range x) \<and> snd (re_range x) \<le> length pre + length (concat (map f xs))"
proof (induction xs arbitrary: pre)
  case Nil then show ?case by simp
next
  case (Cons y ys)
  have IH: ?case if "x \<in> set (placed f (length (pre @ f y)) ys)"
    using Cons.IH [OF that] by simp
  show ?case
  proof (cases y)
    case Pad then show ?thesis using Cons.prems IH by simp
  next
    case (Item i v)
    obtain h where h: "f y = h @ v" using f Item by blast
    show ?thesis
    proof (cases "x \<in> set (placed f (length (pre @ f y)) ys)")
      case False
      then have "x = \<lparr>re_id = i, re_value = v, re_range = (length pre + length h, length pre + length h + length v)\<rparr>"
        using Cons.prems Item h by (auto simp: Let_def)
      then show ?thesis by (simp add: h get_range_def)
    qed (rule IH)
  qed
qed

lemma item_form_suffix: "\<exists>h. item_form p (Item i v) = h @ v"
  by (auto simp: item_form_iff)

text \<open>
  C7. The RTP parser accepts exactly the packets of the wire format and reads every field of them:
  it returns a packet if and only if the datagram is the encoding of a well-formed packet, and then the
  header fields, the payload and the padding are those encoded.
\<close>

theorem rtp_parse_exact:
  "rtp_parse bs = Inr p \<longleftrightarrow> (\<exists>v. rtp_wf v \<and> bs = rtp_bytes v \<and> p = rtp_packet_of v \<and> payload p = rv_payload v)"
proof -
  have "payload (rtp_packet_of v) = rv_payload v" for v
    by (simp add: payload_def rtp_packet_of_def get_range_def rtp_bytes_def unwrap_or_default_def)
  then show ?thesis using rtp_parse_bytes by (metis rtp_parse_accepts sum.inject(2))
qed

text \<open>
  C8. Iterating over the extensions of a packet the parser accepted never fails and ends; the elements
  come in wire order with their identifiers and values, and each is the slice of the datagram that its
  range names, inside the extension block, which ends where the payload starts.
\<close>

theorem extensions_exact:
  assumes "rtp_parse bs = Inr p"
  shows "\<exists>v it. rtp_wf v \<and> bs = rtp_bytes v \<and> extensions p = Inr it \<and>
    ext_collect it = (case rv_extension v of None \<Rightarrow> []
      | Some b \<Rightarrow> placed (item_form (eb_profile b)) (16 + 4 * length (rv_csrcs v)) (eb_items b)) \<and>
    (\<forall>x \<in> set (ext_collect it). get_range bs (fst (re_range x)) (snd (re_range x)) = Some (re_value x) \<and>
      16 \<le> fst (re_range x) \<and> snd (re_range x) \<le> fst (rp_payload p))"
proof -
  obtain v where v: "rtp_wf v" "bs = rtp_bytes v" using rtp_parse_accepts [OF assms] .
  then have p: "p = rtp_packet_of v" using assms rtp_parse_bytes by auto
  obtain it where it: "extensions p = Inr it" using placed_extensions(2) [OF v(1)] p by (cases "extensions p") auto
  have "get_range bs (fst (re_range x)) (snd (re_range x)) = Some (re_value x) \<and>
      16 \<le> fst (re_range x) \<and> snd (re_range x) \<le> fst (rp_payload p)" if "x \<in> set (ext_collect it)" for x
  proof (cases "rv_extension v")
    case None
    then show ?thesis using that placed_extensions(1) [OF v(1)] it p by simp
  next
    case (Some b)
    let ?pre = "rtp_fixed v @ concat (map to_be32 (rv_csrcs v)) @ to_be16 (eb_profile b) @
        to_be16 (of_nat (length (block_bytes b) div 4))"
    have n: "length ?pre = 16 + 4 * length (rv_csrcs v)" by (simp add: rtp_fixed_def)
    have "x \<in> set (placed (item_form (eb_profile b)) (length ?pre) (eb_items b))"
      using that placed_extensions(1) [OF v(1)] it p Some n by (simp del: length_append)
    from placed_in_range [OF item_form_suffix this, of "eb_rest b @ rv_payload v @ pad_bytes (rv_padding v)"]
    show ?thesis using Some n v(2)
      by (simp add: rtp_bytes_def rtp_header_def ext_bytes_def block_bytes_def p rtp_packet_of_def)
  qed
  then show ?thesis using v it placed_extensions(1) [OF v(1)] p by blast
qed

theorem extensions_exact_witness:
  "\<exists>p it. rtp_parse [0x90, 0x60, 0, 1, 0, 0, 0, 2, 0, 0, 0, 3, 0xBE, 0xDE, 0, 1, 0x10, 0xAA, 0, 0, 0x55] = Inr p \<and>
     extensions p = Inr it \<and> (\<forall>x \<in> set (ext_collect it). snd (re_range x) \<le> fst (rp_payload p))"
proof -
  let ?bs = "[0x90, 0x60, 0, 1, 0, 0, 0, 2, 0, 0, 0, 3, 0xBE, 0xDE, 0, 1, 0x10, 0xAA, 0, 0, 0x55] :: u8 list"
  have "is_ok (rtp_parse ?bs)" by code_simp
  then obtain p where p: "rtp_parse ?bs = Inr p" by (cases "rtp_parse ?bs") auto
  show ?thesis using extensions_exact [OF p] p by blast
qed

subsection \<open>The wire format of RTCP packets\<close>

record rtcp_view =
  cv_type :: u8
  cv_count :: u8
  cv_body :: "u8 list"
  cv_padding :: "u8 list option"

definition rtcp_first :: "bool \<Rightarrow> u8 \<Rightarrow> u8" where
  "rtcp_first p n = 0x80 OR (if p then 0x20 else 0) OR n"

definition rtcp_bytes :: "rtcp_view \<Rightarrow> u8 list" where
  "rtcp_bytes v = [rtcp_first (cv_padding v \<noteq> None) (cv_count v), cv_type v] @
     to_be16 (of_nat (length (cv_body v @ pad_bytes (cv_padding v)) div 4)) @ cv_body v @ pad_bytes (cv_padding v)"

definition rtcp_wf :: "rtcp_view \<Rightarrow> bool" where
  "rtcp_wf v \<longleftrightarrow> unat (cv_count v) < 32 \<and> 4 dvd length (cv_body v @ pad_bytes (cv_padding v)) \<and>
     length (rtcp_bytes v) \<le> MAX_RTCP_PACKET_BYTES \<and> pad_ok (cv_padding v)"

definition rtcp_packet_of :: "rtcp_view \<Rightarrow> RtcpPacket" where
  "rtcp_packet_of v = \<lparr>cp_bytes = rtcp_bytes v, cp_packet_type = cv_type v, cp_count = cv_count v,
     cp_padding = of_nat (length (pad_bytes (cv_padding v)))\<rparr>"

lemma rtcp_first_fields:
  assumes "unat n < 32"
  shows "drop_bit 6 (rtcp_first p n) = 2" "(rtcp_first p n AND 0x20 \<noteq> 0) = p" "rtcp_first p n AND 0x1f = n"
proof -
  have "take_bit 5 n = n" using assms by (intro take_bit_fits) simp
  then have n: "5 \<le> k \<Longrightarrow> \<not> bit n k" for k by (metis bit_take_bit_iff not_less)
  show "drop_bit 6 (rtcp_first p n) = 2"
    unfolding rtcp_first_def by (intro byte_eqI) (simp_all add: byte_bits n)
  show "rtcp_first p n AND 0x1f = n"
    unfolding rtcp_first_def by (intro byte_eqI) (simp_all add: byte_bits n)
  show "(rtcp_first p n AND 0x20 \<noteq> 0) = p" unfolding flag_bits rtcp_first_def by (simp add: byte_bits n)
qed

lemma rtcp_first_of:
  assumes "drop_bit 6 b = 2"
  shows "b = rtcp_first (b AND 0x20 \<noteq> 0) (b AND 0x1f)" "unat (b AND 0x1f) < 32"
proof -
  have "bit (drop_bit 6 b) 0 = bit (2 :: u8) 0" "bit (drop_bit 6 b) 1 = bit (2 :: u8) 1" using assms by simp_all
  then have "\<not> bit b 6" "bit b 7" by (simp_all add: bit_drop_bit_eq)
  then show "b = rtcp_first (b AND 0x20 \<noteq> 0) (b AND 0x1f)"
    unfolding rtcp_first_def flag_bits by (intro byte_eqI) (simp_all add: byte_bits)
  have "b AND 0x1f = take_bit 5 b" by (simp add: take_bit_eq_mask mask_eq_exp_minus_1)
  then show "unat (b AND 0x1f) < 32"
    using take_bit_nat_less_exp [of 5 "unat b"] by (simp add: unsigned_take_bit_eq)
qed

text \<open>The padding of an RTCP packet is checked like that of an RTP packet with a header of four bytes.\<close>

lemma rtcp_padding_rtp: "4 \<le> length bs \<Longrightarrow> rtcp_padding bs p (length bs) = rtp_padding bs p 4"
  by (auto simp: rtcp_padding_def rtp_padding_def Let_def)

lemma rtcp_parse_fixed:
  assumes "bs = [b0, b1, c, d] @ rest"
  shows "rtcp_parse bs =
    (if drop_bit 6 b0 \<noteq> 2 then Inl InvalidVersion
     else if (unat (be16 c d) + 1) * 4 \<noteq> length bs \<or> length bs > MAX_RTCP_PACKET_BYTES then Inl InvalidLength
     else and_then (rtp_padding bs (b0 AND 0x20 \<noteq> 0) 4) (\<lambda>k.
       Inr \<lparr>cp_bytes = bs, cp_packet_type = b1, cp_count = b0 AND 0x1f, cp_padding = k\<rparr>))"
proof -
  have r: "read_u8 bs 0 = Inr b0" "read_u8 bs 1 = Inr b1" "read_u16 bs 2 = Inr (be16 c d)" "4 \<le> length bs"
    using assms by (simp_all add: read_u8_def get_at_def read_u16_def get_range_def)
  show ?thesis
    unfolding rtcp_parse_def Let_def r(1-3) and_then_simps using r(4)
    by (auto simp: rtcp_padding_rtp)
qed

lemma rtcp_parse_bytes:
  assumes "rtcp_wf v"
  shows "rtcp_parse (rtcp_bytes v) = Inr (rtcp_packet_of v)"
proof -
  let ?b0 = "rtcp_first (cv_padding v \<noteq> None) (cv_count v)" and ?n = "length (cv_body v @ pad_bytes (cv_padding v))"
  let ?w = "of_nat (?n div 4) :: u16"
  have bs: "rtcp_bytes v = [?b0, cv_type v, ucast (drop_bit 8 ?w), ucast ?w] @ cv_body v @ pad_bytes (cv_padding v)"
    by (simp add: rtcp_bytes_def to_be16_def del: ucast_drop_bit_eq)
  have l: "length (rtcp_bytes v) = 4 + ?n" by (simp add: rtcp_bytes_def)
  then have "?n \<le> 65532" using assms by (simp add: rtcp_wf_def MAX_RTCP_PACKET_BYTES_def)
  then have "?n div 4 < 2 ^ 16" using div_le_dividend [of ?n 4] by simp
  then have w: "(unat ?w + 1) * 4 = length (rtcp_bytes v)"
    using assms l by (simp add: rtcp_wf_def unat_of_nat_fits dvd_div_mult_self)
  have b: "drop_bit 6 ?b0 = 2" "(?b0 AND 0x20 \<noteq> 0) = (cv_padding v \<noteq> None)" "?b0 AND 0x1f = cv_count v"
    using assms by (intro rtcp_first_fields; simp add: rtcp_wf_def)+
  have "rtp_padding ([?b0, cv_type v, ucast (drop_bit 8 ?w), ucast ?w] @ cv_body v @ pad_bytes (cv_padding v))
      (cv_padding v \<noteq> None) 4 = Inr (of_nat (length (pad_bytes (cv_padding v))))"
    using assms by (intro padding_of) (simp_all add: rtcp_wf_def)
  then have "rtp_padding (rtcp_bytes v) (cv_padding v \<noteq> None) 4 = Inr (of_nat (length (pad_bytes (cv_padding v))))"
    unfolding bs .
  then show ?thesis
    unfolding rtcp_parse_fixed [OF bs] b be16_to_be16 w using assms
    by (simp add: rtcp_packet_of_def rtcp_wf_def)
qed

lemma rtcp_parse_accepts:
  assumes "rtcp_parse bs = Inr p"
  obtains v where "rtcp_wf v" "bs = rtcp_bytes v" "p = rtcp_packet_of v"
proof -
  have "4 \<le> length bs" using assms by (auto simp: rtcp_parse_def split: if_splits)
  then obtain b0 b1 c d rest where bs: "bs = [b0, b1, c, d] @ rest" by (auto simp: numeral_eq_Suc Suc_le_length_iff)
  note a = assms [unfolded rtcp_parse_fixed [OF bs]]
  have ver: "drop_bit 6 b0 = 2" and n: "(unat (be16 c d) + 1) * 4 = length bs" "length bs \<le> MAX_RTCP_PACKET_BYTES"
    using a by (auto split: if_splits)
  obtain k where "rtp_padding bs (b0 AND 0x20 \<noteq> 0) 4 = Inr k" using if_error [OF if_error [OF a]] by (auto simp: and_then_Inr_iff)
  then obtain ps body where ps: "pad_ok ps" "rest = body @ pad_bytes ps" "(ps \<noteq> None) = (b0 AND 0x20 \<noteq> 0)"
    unfolding bs by (rule padding_cases) auto
  let ?v = "\<lparr>cv_type = b1, cv_count = b0 AND 0x1f, cv_body = body, cv_padding = ps\<rparr>"
  have l: "length (body @ pad_bytes ps) = unat (be16 c d) * 4" using n(1) bs ps(2) by simp
  have w: "to_be16 (of_nat (length (body @ pad_bytes ps) div 4)) = [c, d]" unfolding l by simp
  have "rtcp_bytes ?v = bs"
    unfolding rtcp_bytes_def rtcp_view.simps w bs ps(2) ps(3) rtcp_first_of(1) [OF ver, symmetric] by simp
  moreover from this have "rtcp_wf ?v"
    using l n(2) ps(1) rtcp_first_of(2) [OF ver] by (simp only: rtcp_wf_def rtcp_view.simps) simp
  ultimately show thesis using that [of ?v] rtcp_parse_bytes [of ?v] assms by simp
qed

subsection \<open>Compound RTCP datagrams\<close>

text \<open>\<open>for packet in compound\<close>: every step moves the cursor towards the end of the datagram.\<close>

definition compound_left :: "RtcpCompound \<Rightarrow> nat" where
  "compound_left c = (if cc_offset c \<le> length (cc_bytes c) then length (cc_bytes c) - cc_offset c else 1)"

lemma compound_next_advances:
  "compound_next c = (Some r, c') \<Longrightarrow> compound_left c' < compound_left c"
  by (auto simp: compound_next_def compound_fail_def compound_left_def Let_def split: if_splits sum.splits)

function compound_collect :: "RtcpCompound \<Rightarrow> (PacketError + RtcpPacket) list" where
  "compound_collect c = (case compound_next c of (None, c') \<Rightarrow> [] | (Some r, c') \<Rightarrow> r # compound_collect c')"
  by pat_completeness auto
termination
  by (relation "measure compound_left") (auto dest!: sym [of _ "compound_next _"] dest: compound_next_advances)

declare compound_collect.simps [simp del]

lemma length_rtcp_bytes: "rtcp_wf v \<Longrightarrow> 4 \<le> length (rtcp_bytes v)"
  by (simp add: rtcp_bytes_def)

text \<open>One step at the suffix \<open>s\<close> of the datagram.\<close>

lemma compound_next_at:
  assumes "drop (cc_offset c) (cc_bytes c) = [b0, b1, x, y] @ t" (is "_ = ?s") and "cc_reports c \<noteq> MAX_RTCP_REPORT_BLOCKS"
  defines "n \<equiv> (unat (be16 x y) + 1) * 4"
  shows "compound_next c = (if n > length ?s then compound_fail InvalidLength c
    else (Some (and_then (rtcp_parse (take n ?s)) (\<lambda>p. if cp_padding p \<noteq> 0 \<and> n \<noteq> length ?s
        then Inl InvalidPadding else Inr p)),
      c\<lparr>cc_offset := cc_offset c + n, cc_reports := cc_reports c + 1\<rparr>))"
proof -
  have l: "length (cc_bytes c) = cc_offset c + length ?s" using arg_cong [OF assms(1), of length] by simp
  have "drop (cc_offset c + 2) (cc_bytes c) = x # y # t"
    using arg_cong [OF assms(1), of "drop 2"] by (simp add: add.commute)
  then have r: "read_u16 (cc_bytes c) (cc_offset c + 2) = Inr (be16 x y)" by (rule read_at)
  have g: "n \<le> length ?s \<Longrightarrow> get_range (cc_bytes c) (cc_offset c) (cc_offset c + n) = Some (take n ?s)"
    using assms(1) l by (simp add: get_range_def)
  define s where "s = ?s"
  have "4 \<le> length s" by (simp add: s_def)
  then show ?thesis
    unfolding compound_next_def r Let_def n_def [symmetric] sum.case
    using assms(2) l g unfolding s_def [symmetric] by (auto simp: unwrap_or_default_def)
qed

text \<open>A step reads a packet if and only if the suffix starts with one, padded only at the very end.\<close>

lemma compound_next_packet:
  assumes "rtcp_wf v" "drop (cc_offset c) (cc_bytes c) = rtcp_bytes v @ s" "cc_reports c < MAX_RTCP_REPORT_BLOCKS"
    and "s = [] \<or> cv_padding v = None"
  shows "compound_next c = (Some (Inr (rtcp_packet_of v)),
    c\<lparr>cc_offset := cc_offset c + length (rtcp_bytes v), cc_reports := cc_reports c + 1\<rparr>)"
proof -
  let ?n = "length (cv_body v @ pad_bytes (cv_padding v))"
  let ?w = "of_nat (?n div 4) :: u16"
  obtain b0 b1 t where b: "rtcp_bytes v = [b0, b1, ucast (drop_bit 8 ?w), ucast ?w] @ t"
    by (simp add: rtcp_bytes_def to_be16_def del: ucast_drop_bit_eq)
  have l: "length (rtcp_bytes v) = 4 + ?n" by (simp add: rtcp_bytes_def)
  then have "?n \<le> 65532" using assms(1) by (simp add: rtcp_wf_def MAX_RTCP_PACKET_BYTES_def)
  then have "?n div 4 < 2 ^ 16" using div_le_dividend [of ?n 4] by simp
  then have w: "(unat ?w + 1) * 4 = length (rtcp_bytes v)"
    using assms(1) l by (simp add: rtcp_wf_def unat_of_nat_fits dvd_div_mult_self)
  have d: "drop (cc_offset c) (cc_bytes c) = [b0, b1, ucast (drop_bit 8 ?w), ucast ?w] @ t @ s"
    using assms(2) b by simp
  have s: "[b0, b1, ucast (drop_bit 8 ?w), ucast ?w] @ t @ s = rtcp_bytes v @ s" using b by simp
  have "cv_padding v = None \<Longrightarrow> cp_padding (rtcp_packet_of v) = 0" by (simp add: rtcp_packet_of_def pad_bytes_def)
  then show ?thesis
    unfolding compound_next_at [OF d less_imp_neq [OF assms(3)]] be16_to_be16 w s
    using assms(4) rtcp_parse_bytes [OF assms(1)] by auto
qed

lemma compound_next_accepts:
  assumes "compound_next c = (Some (Inr p), c')"
  obtains v s where "rtcp_wf v" "drop (cc_offset c) (cc_bytes c) = rtcp_bytes v @ s" "cc_reports c \<noteq> MAX_RTCP_REPORT_BLOCKS"
    "s = [] \<or> cv_padding v = None" "p = rtcp_packet_of v"
proof -
  have "cc_offset c + 4 \<le> length (cc_bytes c)" and r: "cc_reports c \<noteq> MAX_RTCP_REPORT_BLOCKS"
    using assms by (auto simp: compound_next_def compound_fail_def split: if_splits)
  then have "4 \<le> length (drop (cc_offset c) (cc_bytes c))" by simp
  then obtain b0 b1 x y t where d: "drop (cc_offset c) (cc_bytes c) = [b0, b1, x, y] @ t" (is "_ = ?s")
    using four_bytes by metis
  let ?n = "(unat (be16 x y) + 1) * 4"
  have n: "?n \<le> length ?s" and "rtcp_parse (take ?n ?s) = Inr p" and k: "cp_padding p = 0 \<or> ?n = length ?s"
    using assms unfolding compound_next_at [OF d r]
    by (auto simp only: compound_fail_def and_then_Inr_iff prod.inject option.inject not_less sum.inject split: if_splits)
  then obtain v where v: "rtcp_wf v" "take ?n ?s = rtcp_bytes v" "p = rtcp_packet_of v" using rtcp_parse_accepts by metis
  have "drop ?n ?s = [] \<or> cv_padding v = None"
  proof (cases "cv_padding v")
    case (Some xs)
    then have "unat (of_nat (length xs + 1) :: u8) = length xs + 1" using v(1)
      by (intro unat_of_nat_fits) (simp add: rtcp_wf_def pad_ok_def)
    then have "cp_padding p \<noteq> 0" using v(3) Some by (auto simp: rtcp_packet_of_def pad_bytes_def)
    then show ?thesis using k by simp
  qed simp
  moreover have "?s = rtcp_bytes v @ drop ?n ?s" using v(2) by (metis append_take_drop_id)
  ultimately show thesis using that [of v] v r d by metis
qed

definition compound_wf :: "rtcp_view list \<Rightarrow> bool" where
  "compound_wf vs \<longleftrightarrow> list_all rtcp_wf vs \<and> list_all (\<lambda>v. cv_padding v = None) (butlast vs)"

lemma compound_wf_Cons: "compound_wf (v # vs) \<longleftrightarrow> rtcp_wf v \<and> (vs = [] \<or> cv_padding v = None) \<and> compound_wf vs"
  by (auto simp: compound_wf_def)

lemma compound_collect_packets:
  "compound_wf vs \<Longrightarrow> drop (cc_offset c) (cc_bytes c) = concat (map rtcp_bytes vs) \<Longrightarrow>
   cc_offset c \<le> length (cc_bytes c) \<Longrightarrow> cc_reports c + length vs \<le> MAX_RTCP_REPORT_BLOCKS \<Longrightarrow>
   compound_collect c = map (\<lambda>v. Inr (rtcp_packet_of v)) vs"
proof (induction vs arbitrary: c)
  case Nil
  then have "cc_offset c = length (cc_bytes c)" by simp
  then show ?case by (subst compound_collect.simps) (simp add: compound_next_def)
next
  case (Cons v vs)
  let ?c = "c\<lparr>cc_offset := cc_offset c + length (rtcp_bytes v), cc_reports := cc_reports c + 1\<rparr>"
  have v: "rtcp_wf v" "compound_wf vs" "vs = [] \<or> cv_padding v = None" using Cons.prems(1) by (auto simp: compound_wf_Cons)
  have d: "drop (cc_offset c) (cc_bytes c) = rtcp_bytes v @ concat (map rtcp_bytes vs)" using Cons.prems(2) by simp
  have n: "compound_next c = (Some (Inr (rtcp_packet_of v)), ?c)"
    using v Cons.prems(4) by (intro compound_next_packet [OF v(1) d]) auto
  have "drop (cc_offset ?c) (cc_bytes ?c) = concat (map rtcp_bytes vs)"
    using arg_cong [OF d, of "drop (length (rtcp_bytes v))"] by (simp add: add.commute)
  moreover have "cc_offset ?c \<le> length (cc_bytes ?c)"
    using arg_cong [OF d, of length] Cons.prems(3) by simp
  ultimately have "compound_collect ?c = map (\<lambda>v. Inr (rtcp_packet_of v)) vs"
    using v(2) Cons.prems(4) by (intro Cons.IH) auto
  then show ?case using n by (subst compound_collect.simps) simp
qed

lemma compound_collect_accepts:
  "compound_collect c = map Inr ps \<Longrightarrow> cc_offset c \<le> length (cc_bytes c) \<Longrightarrow> cc_reports c \<le> MAX_RTCP_REPORT_BLOCKS \<Longrightarrow>
   \<exists>vs. compound_wf vs \<and> drop (cc_offset c) (cc_bytes c) = concat (map rtcp_bytes vs) \<and>
     cc_reports c + length vs \<le> MAX_RTCP_REPORT_BLOCKS \<and> ps = map rtcp_packet_of vs"
proof (induction ps arbitrary: c)
  case Nil
  then have "fst (compound_next c) = None" by (subst (asm) compound_collect.simps) (auto split: prod.splits option.splits)
  then have "cc_offset c = length (cc_bytes c)"
    by (auto simp: compound_next_def compound_fail_def Let_def split: if_splits sum.splits)
  then show ?case using Nil by (intro exI [of _ "[]"]) (simp add: compound_wf_def)
next
  case (Cons p ps)
  then obtain c' where n: "compound_next c = (Some (Inr p), c')" "compound_collect c' = map Inr ps"
    by (subst (asm) compound_collect.simps) (auto split: prod.splits option.splits)
  obtain v s where v: "rtcp_wf v" "drop (cc_offset c) (cc_bytes c) = rtcp_bytes v @ s"
      "cc_reports c \<noteq> MAX_RTCP_REPORT_BLOCKS" "s = [] \<or> cv_padding v = None" "p = rtcp_packet_of v"
    using n(1) by (rule compound_next_accepts)
  have c': "c' = c\<lparr>cc_offset := cc_offset c + length (rtcp_bytes v), cc_reports := cc_reports c + 1\<rparr>"
    using compound_next_packet [OF v(1, 2) _ v(4)] v(3) Cons.prems(3) n(1) by auto
  have s: "drop (cc_offset c') (cc_bytes c') = s"
    using arg_cong [OF v(2), of "drop (length (rtcp_bytes v))"] c' by (simp add: add.commute)
  have "cc_offset c' \<le> length (cc_bytes c')"
    using arg_cong [OF v(2), of length] Cons.prems(2) c' by simp
  then obtain vs where vs: "compound_wf vs" "s = concat (map rtcp_bytes vs)"
      "cc_reports c' + length vs \<le> MAX_RTCP_REPORT_BLOCKS" "ps = map rtcp_packet_of vs"
    using Cons.IH [OF n(2)] Cons.prems(3) v(3) c' s by auto
  have "vs = [] \<or> cv_padding v = None" using v(4) vs(1, 2) length_rtcp_bytes by (cases vs) (auto simp: compound_wf_Cons rtcp_bytes_def)
  then show ?case using v vs c' by (intro exI [of _ "v # vs"]) (simp add: compound_wf_Cons)
qed

text \<open>
  C9. A compound RTCP datagram is read without error if and only if it is a sequence of one to 256
  well-formed packets of which at most the last is padded, and then exactly those packets are read, in
  order.
\<close>

theorem compound_exact:
  "(\<exists>c. compound_parse bs = Inr c \<and> compound_collect c = map Inr ps) \<longleftrightarrow>
   (\<exists>vs. vs \<noteq> [] \<and> length vs \<le> 256 \<and> compound_wf vs \<and> bs = concat (map rtcp_bytes vs) \<and> ps = map rtcp_packet_of vs)"
  (is "?L \<longleftrightarrow> ?R")
proof
  assume ?L
  then have "bs \<noteq> []" and "compound_collect \<lparr>cc_bytes = bs, cc_offset = 0, cc_reports = 0\<rparr> = map Inr ps"
    by (auto simp: compound_parse_def split: if_splits)
  then obtain vs where "bs \<noteq> []" "compound_wf vs" "bs = concat (map rtcp_bytes vs)" "length vs \<le> 256" "ps = map rtcp_packet_of vs"
    using compound_collect_accepts [of "\<lparr>cc_bytes = bs, cc_offset = 0, cc_reports = 0\<rparr>" ps]
    by (auto simp: MAX_RTCP_REPORT_BLOCKS_def)
  then show ?R by (intro exI [of _ vs]) auto
next
  assume ?R
  then obtain vs where vs: "vs \<noteq> []" "length vs \<le> 256" "compound_wf vs" "bs = concat (map rtcp_bytes vs)"
    "ps = map rtcp_packet_of vs" by blast
  have "length bs \<le> length vs * MAX_RTCP_PACKET_BYTES"
    using vs(3) unfolding vs(4) by (induction vs) (auto simp: compound_wf_Cons rtcp_wf_def)
  also have "\<dots> \<le> MAX_RTCP_PACKET_BYTES * MAX_RTCP_REPORT_BLOCKS"
    using vs(2) by (simp add: MAX_RTCP_REPORT_BLOCKS_def MAX_RTCP_PACKET_BYTES_def)
  finally have "length bs \<le> MAX_RTCP_PACKET_BYTES * MAX_RTCP_REPORT_BLOCKS" .
  moreover have "bs \<noteq> []" using vs(1, 3, 4) by (cases vs) (auto simp: compound_wf_Cons rtcp_bytes_def)
  ultimately show ?L
    using compound_collect_packets [OF vs(3), of "\<lparr>cc_bytes = bs, cc_offset = 0, cc_reports = 0\<rparr>"] vs
    by (simp add: compound_parse_def MAX_RTCP_REPORT_BLOCKS_def)
qed

end
