(* ===== verification/Vla.thy ===== *)
theory Vla
  imports Bytes DD_Bits "HOL-Library.Code_Target_Nat"
begin

text \<open>
  The decoder of the RTP extension for the allocation of video layers,
  \<open>crates/pulsebeam-core/src/vla.rs\<close>.  The wire format is specified by an encoder, and the decoder
  inverts it; whatever the decoder accepts has the shape the format allows.
\<close>

unbundle bit_operations_syntax

subsection \<open>The data\<close>

definition MAX_VLA_LEN :: nat where "MAX_VLA_LEN = 255"

record ResolutionAndFramerate =
  rf_width :: u32
  rf_height :: u32
  rf_framerate :: u8

record TemporalLayerAllocation =
  cumulative_kbps :: u64

record SpatialLayerAllocation =
  temporal_layers :: "TemporalLayerAllocation list"
  resolution_and_framerate :: "ResolutionAndFramerate option"

record SimulcastStreamAllocation =
  spatial_layers :: "SpatialLayerAllocation list"

record VideoLayersAllocation =
  current_simulcast_stream_index :: u8
  simulcast_streams :: "SimulcastStreamAllocation list"

datatype VlaReadError = TooLong | Truncated | Invalid | TrailingBytes

subsection \<open>The reader\<close>

text \<open>A reader is the bytes that are left; every operation returns the rest.\<close>

definition vla_byte :: "u8 list \<Rightarrow> VlaReadError + (u8 \<times> u8 list)" where
  "vla_byte r = (case r of [] \<Rightarrow> Inl Truncated | b # rest \<Rightarrow> Inr (b, rest))"

definition vla_take :: "nat \<Rightarrow> u8 list \<Rightarrow> VlaReadError + (u8 list \<times> u8 list)" where
  "vla_take n r = (if n \<le> length r then Inr (take n r, drop n r) else Inl Truncated)"

text \<open>The shifts of \<open>(0..63).step_by(7)\<close> are below 64, so \<open>checked_shl\<close> does not fail.\<close>

fun rate_loop :: "nat list \<Rightarrow> u64 \<Rightarrow> u8 list \<Rightarrow> VlaReadError + (u64 \<times> u8 list)" where
  "rate_loop [] value r = Inl Invalid"
| "rate_loop (shift # shifts) value r =
     and_then (vla_byte r) (\<lambda>(byte, r).
     if shift \<ge> 64 then Inl Invalid
     else let value = value OR push_bit shift (ucast (byte AND 127))
          in if byte AND 128 = 0 then Inr (value, r) else rate_loop shifts value r)"

definition rate :: "u8 list \<Rightarrow> VlaReadError + (u64 \<times> u8 list)" where
  "rate r = rate_loop [0, 7, 14, 21, 28, 35, 42, 49, 56] 0 r"

subsection \<open>The decoder\<close>

definition vla_masks :: "u8 \<Rightarrow> nat \<Rightarrow> u8 list \<Rightarrow> VlaReadError + (u8 list \<times> u8 list)" where
  "vla_masks shared_mask stream_count r =
     (if shared_mask \<noteq> 0 then Inr (replicate stream_count shared_mask, r)
      else and_then (vla_take ((stream_count + 1) div 2) r) (\<lambda>(bs, r).
           Inr (take stream_count (concat (map (\<lambda>byte. [drop_bit 4 byte, byte AND 15]) bs)), r)))"

definition active_count :: "u8 list \<Rightarrow> nat" where
  "active_count masks = length (filter id (concat (map (\<lambda>m. map (\<lambda>i. m AND push_bit i 1 \<noteq> 0) [0..<4]) masks)))"

text \<open>The lazy iterator over the two-bit counts is the list of its values.\<close>

definition temporal_counts :: "u8 list \<Rightarrow> u8 list" where
  "temporal_counts counts =
     map (\<lambda>b. sat_add (b AND 3) 1) (concat (map (\<lambda>byte. [drop_bit 6 byte, drop_bit 4 byte, drop_bit 2 byte, byte]) counts))"

text \<open>\<open>u8::BITS - mask.leading_zeros()\<close>, the position behind the highest set bit.\<close>

definition spatial_count :: "u8 \<Rightarrow> nat" where
  "spatial_count m = 8 - leading_zeros m"

fun temporal_loop :: "nat \<Rightarrow> u8 list \<Rightarrow> VlaReadError + (TemporalLayerAllocation list \<times> u8 list)" where
  "temporal_loop 0 r = Inr ([], r)"
| "temporal_loop (Suc n) r =
     and_then (rate r) (\<lambda>(kbps, r).
     and_then (temporal_loop n r) (\<lambda>(ls, r). Inr (\<lparr>cumulative_kbps = kbps\<rparr> # ls, r)))"

text \<open>The inner loop, over the spatial positions \<open>spatials\<close> of a stream; \<open>cs\<close> is the iterator of counts.\<close>

fun spatial_loop :: "u8 \<Rightarrow> nat list \<Rightarrow> u8 list \<Rightarrow> u8 list \<Rightarrow>
    VlaReadError + (SpatialLayerAllocation list \<times> u8 list \<times> u8 list)" where
  "spatial_loop m [] cs r = Inr ([], cs, r)"
| "spatial_loop m (spatial # spatials) cs r =
     (if spatial \<ge> 8 then Inl Invalid
      else let active = m AND push_bit spatial 1 \<noteq> 0
           in and_then
                (if active
                 then case cs of [] \<Rightarrow> Inl Truncated
                      | count # cs \<Rightarrow> and_then (temporal_loop (unat count) r) (\<lambda>(ls, r). Inr (ls, cs, r))
                 else Inr ([], cs, r)) (\<lambda>(ls, cs, r).
              and_then (spatial_loop m spatials cs r) (\<lambda>(layers, cs, r).
              Inr (\<lparr>temporal_layers = ls, resolution_and_framerate = None\<rparr> # layers, cs, r))))"

fun stream_loop :: "u8 list \<Rightarrow> u8 list \<Rightarrow> u8 list \<Rightarrow>
    VlaReadError + (SimulcastStreamAllocation list \<times> u8 list \<times> u8 list)" where
  "stream_loop [] cs r = Inr ([], cs, r)"
| "stream_loop (m # masks) cs r =
     and_then (spatial_loop m [0..<spatial_count m] cs r) (\<lambda>(layers, cs, r).
     and_then (stream_loop masks cs r) (\<lambda>(streams, cs, r).
     Inr (\<lparr>spatial_layers = layers\<rparr> # streams, cs, r)))"

definition read_resolution :: "SpatialLayerAllocation \<Rightarrow> u8 list \<Rightarrow>
    VlaReadError + (SpatialLayerAllocation \<times> u8 list)" where
  "read_resolution spatial r =
     (if temporal_layers spatial = [] then Inr (spatial, r)
      else and_then (vla_take 5 r) (\<lambda>(bs, r).
           case bs of
             [width_hi, width_lo, height_hi, height_lo, framerate] \<Rightarrow>
               Inr (spatial\<lparr>resolution_and_framerate := Some
                      \<lparr>rf_width = sat_add (ucast (be16 width_hi width_lo)) 1,
                       rf_height = sat_add (ucast (be16 height_hi height_lo)) 1,
                       rf_framerate = framerate\<rparr>\<rparr>, r)
           | _ \<Rightarrow> Inl Truncated))"

definition read_stream_resolutions :: "SimulcastStreamAllocation \<Rightarrow> u8 list \<Rightarrow>
    VlaReadError + (SimulcastStreamAllocation \<times> u8 list)" where
  "read_stream_resolutions stream r =
     and_then (each_mut read_resolution (spatial_layers stream) r) (\<lambda>(layers, r).
     Inr (stream\<lparr>spatial_layers := layers\<rparr>, r))"

definition vla_parse :: "u8 list \<Rightarrow> VlaReadError + VideoLayersAllocation" where
  "vla_parse bs =
     (if length bs > MAX_VLA_LEN then Inl TooLong
      else and_then (vla_byte bs) (\<lambda>(header, r).
        if header = 0 \<and> r = [] then Inr \<lparr>current_simulcast_stream_index = 0, simulcast_streams = []\<rparr>
        else let current = drop_bit 6 header; stream_count = sat_add (drop_bit 4 header AND 3) 1
             in if current \<ge> stream_count then Inl Invalid
                else let shared_mask = header AND 15
                in and_then (vla_masks shared_mask (unat stream_count) r) (\<lambda>(masks, r).
                   and_then (vla_take ((active_count masks + 3) div 4) r) (\<lambda>(counts, r).
                   and_then (stream_loop masks (temporal_counts counts) r) (\<lambda>(streams, cs, r).
                   and_then (if r \<noteq> [] then each_mut read_stream_resolutions streams r
                             else Inr (streams, r)) (\<lambda>(streams, r).
                   if r \<noteq> [] then Inl TrailingBytes
                   else Inr \<lparr>current_simulcast_stream_index = current, simulcast_streams = streams\<rparr>))))))"

subsection \<open>The wire format\<close>

definition active :: "SpatialLayerAllocation \<Rightarrow> bool" where
  "active l \<longleftrightarrow> temporal_layers l \<noteq> []"

definition layer_mask :: "SpatialLayerAllocation list \<Rightarrow> u8" where
  "layer_mask ls = horner_sum of_bool 2 (map active ls)"

text \<open>A rate in groups of seven bits, least significant first, the high bit set on all but the last.\<close>

fun leb128 :: "nat \<Rightarrow> u8 list" where
  "leb128 n = (if n < 128 then [of_nat n] else of_nat (n mod 128 + 128) # leb128 (n div 128))"

declare leb128.simps [simp del]

definition layer_rates :: "SpatialLayerAllocation \<Rightarrow> u8 list" where
  "layer_rates l = concat (map (\<lambda>t. leb128 (unat (cumulative_kbps t))) (temporal_layers l))"

definition layer_counts :: "SpatialLayerAllocation list \<Rightarrow> u8 list" where
  "layer_counts ls = map (\<lambda>l. of_nat (length (temporal_layers l))) (filter active ls)"

definition count_byte :: "u8 list \<Rightarrow> u8" where
  "count_byte cs = push_bit 6 (cs ! 0 - 1) OR push_bit 4 (cs ! 1 - 1) OR push_bit 2 (cs ! 2 - 1) OR (cs ! 3 - 1)"

fun pack_counts :: "u8 list \<Rightarrow> u8 list" where
  "pack_counts (a # b # c # d # cs) = count_byte [a, b, c, d] # pack_counts cs"
| "pack_counts [a, b, c] = [count_byte [a, b, c, 1]]"
| "pack_counts [a, b] = [count_byte [a, b, 1, 1]]"
| "pack_counts [a] = [count_byte [a, 1, 1, 1]]"
| "pack_counts [] = []"

fun pack_nibbles :: "u8 list \<Rightarrow> u8 list" where
  "pack_nibbles (a # b # ms) = (push_bit 4 a OR b) # pack_nibbles ms"
| "pack_nibbles [a] = [push_bit 4 a]"
| "pack_nibbles [] = []"

definition resolution_bytes :: "ResolutionAndFramerate \<Rightarrow> u8 list" where
  "resolution_bytes x = to_be16 (of_nat (unat (rf_width x) - 1)) @ to_be16 (of_nat (unat (rf_height x) - 1)) @ [rf_framerate x]"

definition layer_resolution :: "SpatialLayerAllocation \<Rightarrow> u8 list" where
  "layer_resolution l = (case resolution_and_framerate l of None \<Rightarrow> [] | Some x \<Rightarrow> resolution_bytes x)"

definition all_layers :: "VideoLayersAllocation \<Rightarrow> SpatialLayerAllocation list" where
  "all_layers a = concat (map spatial_layers (simulcast_streams a))"

definition stream_masks :: "VideoLayersAllocation \<Rightarrow> u8 list" where
  "stream_masks a = map (\<lambda>s. layer_mask (spatial_layers s)) (simulcast_streams a)"

text \<open>The mask all streams share, zero if they differ.\<close>

definition shared_mask_of :: "u8 list \<Rightarrow> u8" where
  "shared_mask_of ms = (if list_all (\<lambda>m. m = hd ms) ms then hd ms else 0)"

definition vla_bytes :: "VideoLayersAllocation \<Rightarrow> u8 list" where
  "vla_bytes a =
     (if simulcast_streams a = [] then [0]
      else let ms = stream_masks a; shared = shared_mask_of ms
           in [push_bit 6 (current_simulcast_stream_index a) OR push_bit 4 (of_nat (length ms - 1)) OR shared] @
              (if shared \<noteq> 0 then [] else pack_nibbles ms) @
              pack_counts (layer_counts (all_layers a)) @
              concat (map layer_rates (all_layers a)) @ concat (map layer_resolution (all_layers a)))"

text \<open>
  The shape of an allocation: at most four streams of at most four spatial positions with at most four
  temporal layers, no inactive position at the end of a stream, rates of 63 bits, dimensions from 1 to
  65536, and resolutions for all active positions or for none.
\<close>

definition resolution_ok :: "ResolutionAndFramerate \<Rightarrow> bool" where
  "resolution_ok x \<longleftrightarrow> 1 \<le> unat (rf_width x) \<and> unat (rf_width x) \<le> 65536 \<and> 1 \<le> unat (rf_height x) \<and> unat (rf_height x) \<le> 65536"

definition layer_ok :: "SpatialLayerAllocation \<Rightarrow> bool" where
  "layer_ok l \<longleftrightarrow> length (temporal_layers l) \<le> 4 \<and>
     list_all (\<lambda>t. unat (cumulative_kbps t) < 2 ^ 63) (temporal_layers l) \<and>
     (case resolution_and_framerate l of None \<Rightarrow> True | Some x \<Rightarrow> active l \<and> resolution_ok x)"

definition stream_ok :: "SimulcastStreamAllocation \<Rightarrow> bool" where
  "stream_ok s \<longleftrightarrow> length (spatial_layers s) \<le> 4 \<and> (spatial_layers s = [] \<or> active (last (spatial_layers s))) \<and>
     list_all layer_ok (spatial_layers s)"

definition vla_shape :: "VideoLayersAllocation \<Rightarrow> bool" where
  "vla_shape a \<longleftrightarrow>
     (if simulcast_streams a = [] then current_simulcast_stream_index a = 0
      else length (simulcast_streams a) \<le> 4 \<and>
        unat (current_simulcast_stream_index a) < length (simulcast_streams a) \<and>
        list_all stream_ok (simulcast_streams a) \<and>
        (list_all (\<lambda>l. resolution_and_framerate l = None) (all_layers a) \<or>
         list_all (\<lambda>l. (resolution_and_framerate l \<noteq> None) = active l) (all_layers a)))"

subsection \<open>Rates\<close>

lemma byte_low7: "unat (b AND 127 :: u8) = unat b mod 128"
proof -
  have "b AND 127 = take_bit 7 b" by (simp add: take_bit_eq_mask mask_eq_exp_minus_1)
  then have "unat (b AND 127) = take_bit 7 (unat b)" by (simp only: unsigned_take_bit_eq)
  then show ?thesis by (simp only: take_bit_eq_mod) simp
qed

lemma byte_high: "(b AND 128 = (0 :: u8)) = (unat b < 128)"
proof -
  have "(b AND 128 = 0) = (\<not> bit b 7)" by (simp add: bit_iff_and_push_bit_not_eq_0)
  also have "\<dots> = (unat b < 128)"
  proof
    assume "\<not> bit b 7"
    then have "take_bit 7 b = b" by (intro byte_eqI) (simp_all add: bit_take_bit_iff)
    then have "unat b = take_bit 7 (unat b)" by (metis unsigned_take_bit_eq)
    then show "unat b < 128" using take_bit_nat_less_exp [of 7 "unat b"] by simp
  next
    assume "unat b < 128"
    then have "take_bit 7 b = b" by (intro take_bit_fits) simp
    then show "\<not> bit b 7" by (metis bit_take_bit_iff less_irrefl)
  qed
  finally show ?thesis .
qed

definition shifts_from :: "nat \<Rightarrow> nat list" where
  "shifts_from k = map (\<lambda>i. 7 * i) [k..<9]"

lemma shifts_from_step: "k < 9 \<Longrightarrow> shifts_from k = 7 * k # shifts_from (Suc k)"
  by (simp add: shifts_from_def upt_conv_Cons)

lemma rate_shifts: "rate r = rate_loop (shifts_from 0) 0 r"
  by (simp add: rate_def shifts_from_def upt_conv_Cons)

lemma shift_group:
  assumes "k < 9" and "n < 2 ^ (63 - 7 * k)"
  shows "push_bit (7 * k) (of_nat (n mod 128)) OR push_bit (7 * Suc k) (of_nat (n div 128)) =
    (push_bit (7 * k) (of_nat n) :: u64)"
proof (rule bit_word_eqI)
  fix i assume "i < LENGTH(64)"
  moreover have "bit (n mod 128) j \<longleftrightarrow> j < 7 \<and> bit n j" "bit (n div 128) j \<longleftrightarrow> bit n (7 + j)" for j
    using bit_take_bit_iff [of 7 n j] bit_drop_bit_eq [of 7 n]
    by (simp_all add: take_bit_eq_mod drop_bit_eq_div o_def)
  moreover have "7 * Suc k \<le> i \<Longrightarrow> 7 + (i - 7 * Suc k) = i - 7 * k" by simp
  ultimately show "bit (push_bit (7 * k) (of_nat (n mod 128)) OR push_bit (7 * Suc k) (of_nat (n div 128)) :: u64) i =
      bit (push_bit (7 * k) (of_nat n) :: u64) i"
    using assms by (cases "7 * Suc k \<le> i") (auto simp: bit_or_iff bit_push_bit_iff bit_of_nat_iff)
qed

lemma rate_leb128:
  "k < 9 \<Longrightarrow> n < 2 ^ (63 - 7 * k) \<Longrightarrow>
   rate_loop (shifts_from k) value (leb128 n @ r) = Inr (value OR push_bit (7 * k) (of_nat n), r)"
proof (induction n arbitrary: k "value" rule: leb128.induct)
  case (1 n)
  let ?b = "of_nat (if n < 128 then n else n mod 128 + 128) :: u8"
  have b: "unat ?b = (if n < 128 then n else n mod 128 + 128)" by (rule unat_of_nat_fits) simp
  have "(of_nat (unat (?b AND 127)) :: u64) = of_nat (n mod 128)" unfolding byte_low7 b by simp
  then have low: "ucast (?b AND 127) = (of_nat (n mod 128) :: u64)" by (simp only: of_nat_unat)
  show ?case
  proof (cases "n < 128")
    case True
    then show ?thesis using 1(2) b low
      by (simp add: shifts_from_step leb128.simps [of n] vla_byte_def byte_high)
  next
    case False
    have "Suc k < 9"
    proof (rule ccontr)
      assume "\<not> Suc k < 9"
      then have "k = 8" using 1(2) by simp
      then show False using 1(3) False by simp
    qed
    moreover have "n div 128 < 2 ^ (63 - 7 * Suc k)"
    proof -
      have "63 - 7 * k = (63 - 7 * Suc k) + 7" using \<open>Suc k < 9\<close> by simp
      then have "(2 :: nat) ^ (63 - 7 * k) = 2 ^ (63 - 7 * Suc k) * 128" by (simp only: power_add) simp
      then have "n < 2 ^ (63 - 7 * Suc k) * 128" using 1(3) by simp
      then show ?thesis by (simp add: less_mult_imp_div_less)
    qed
    ultimately have "rate_loop (shifts_from (Suc k)) (value OR push_bit (7 * k) (of_nat (n mod 128))) (leb128 (n div 128) @ r) =
        Inr ((value OR push_bit (7 * k) (of_nat (n mod 128))) OR push_bit (7 * Suc k) (of_nat (n div 128)), r)"
      using 1(1) [OF False] by blast
    then show ?thesis using 1(2, 3) False b low shift_group [OF 1(2, 3)]
      by (simp add: shifts_from_step leb128.simps [of n] vla_byte_def byte_high or.assoc)
  qed
qed

lemma rate_exact: "unat v < 2 ^ 63 \<Longrightarrow> rate (leb128 (unat v) @ r) = Inr (v, r)"
  unfolding rate_shifts using rate_leb128 [of 0 "unat v" 0 r] by simp

lemma temporal_loop_exact:
  "list_all (\<lambda>t. unat (cumulative_kbps t) < 2 ^ 63) ts \<Longrightarrow>
   temporal_loop (length ts) (concat (map (\<lambda>t. leb128 (unat (cumulative_kbps t))) ts) @ r) = Inr (ts, r)"
  by (induction ts) (simp_all add: rate_exact)

subsection \<open>Packed counts and masks\<close>

lemma pair_bits:
  assumes "unat x < 4" "unat y < 4" "unat z < 4" "unat w < 4"
  defines "m \<equiv> push_bit 6 x OR push_bit 4 y OR push_bit 2 z OR (w :: u8)"
  shows "drop_bit 6 m AND 3 = x" "drop_bit 4 m AND 3 = y" "drop_bit 2 m AND 3 = z" "m AND 3 = w"
proof -
  have "take_bit 2 v = v \<Longrightarrow> 2 \<le> i \<Longrightarrow> \<not> bit v i" for i and v :: u8 by (metis bit_take_bit_iff not_less)
  moreover have "take_bit 2 x = x" "take_bit 2 y = y" "take_bit 2 z = z" "take_bit 2 w = w"
    using assms(1-4) by (auto intro!: take_bit_fits)
  ultimately have n: "2 \<le> i \<Longrightarrow> \<not> bit x i" "2 \<le> i \<Longrightarrow> \<not> bit y i" "2 \<le> i \<Longrightarrow> \<not> bit z i" "2 \<le> i \<Longrightarrow> \<not> bit w i" for i
    by blast+
  show "drop_bit 6 m AND 3 = x" "drop_bit 4 m AND 3 = y" "drop_bit 2 m AND 3 = z" "m AND 3 = w"
    unfolding m_def by (rule byte_eqI; simp add: byte_bits n)+
qed

lemma count_byte_fields:
  assumes "a \<in> {1, 2, 3, 4}" "b \<in> {1, 2, 3, 4}" "c \<in> {1, 2, 3, 4}" "d \<in> {1, 2, 3, 4 :: u8}"
  shows "temporal_counts (count_byte [a, b, c, d] # bs) = a # b # c # d # temporal_counts bs"
proof -
  have p: "unat (v - 1) < 4" "sat_add (v - 1) 1 = v" if "v \<in> {1, 2, 3, 4 :: u8}" for v
    using that by (auto simp: sat_add_def)
  show ?thesis
    unfolding temporal_counts_def count_byte_def
    using pair_bits [OF p(1) [OF assms(1)] p(1) [OF assms(2)] p(1) [OF assms(3)] p(1) [OF assms(4)]]
      p(2) [OF assms(1)] p(2) [OF assms(2)] p(2) [OF assms(3)] p(2) [OF assms(4)]
    by (simp del: drop_bit_or)
qed

lemma temporal_counts_pack:
  "list_all (\<lambda>c. c \<in> {1, 2, 3, 4}) cs \<Longrightarrow> \<exists>junk. temporal_counts (pack_counts cs) = cs @ junk"
proof (induction cs rule: pack_counts.induct)
  case (1 a b c d cs)
  then obtain junk where "temporal_counts (pack_counts cs) = cs @ junk" by auto
  moreover have "temporal_counts (count_byte [a, b, c, d] # pack_counts cs) = a # b # c # d # temporal_counts (pack_counts cs)"
    using 1(2) by (intro count_byte_fields) (simp_all only: list.pred_inject)
  ultimately show ?case by (intro exI [of _ junk]) simp
next
  case (2 a b c)
  then show ?case using count_byte_fields [of a b c 1 "[]"] by auto
next
  case (3 a b)
  then show ?case using count_byte_fields [of a b 1 1 "[]"] by auto
next
  case (4 a)
  then show ?case using count_byte_fields [of a 1 1 1 "[]"] by auto
qed (simp add: temporal_counts_def)

lemma length_pack_counts: "length (pack_counts cs) = (length cs + 3) div 4"
  by (induction cs rule: pack_counts.induct) auto

lemma nibble_pair:
  assumes "unat (a :: u8) < 16" "unat b < 16"
  shows "drop_bit 4 (push_bit 4 a OR b) = a" "(push_bit 4 a OR b) AND 15 = b"
proof -
  have "take_bit 4 a = a" "take_bit 4 b = b" using assms by (auto intro!: take_bit_fits)
  then have n: "4 \<le> i \<Longrightarrow> \<not> bit a i" "4 \<le> i \<Longrightarrow> \<not> bit b i" for i by (metis bit_take_bit_iff not_less)+
  show "drop_bit 4 (push_bit 4 a OR b) = a" by (rule byte_eqI) (simp_all add: byte_bits n)
  show "(push_bit 4 a OR b) AND 15 = b" by (rule byte_eqI) (simp_all add: byte_bits n)
qed

lemma masks_pack:
  "list_all (\<lambda>m. unat m < 16) ms \<Longrightarrow>
   take (length ms) (concat (map (\<lambda>byte. [drop_bit 4 byte, byte AND 15]) (pack_nibbles ms))) = ms"
proof (induction ms rule: pack_nibbles.induct)
  case (2 a)
  then show ?case using nibble_pair(1) [of a 0] by simp
qed (simp_all add: nibble_pair del: drop_bit_or)

lemma length_pack_nibbles: "length (pack_nibbles ms) = (length ms + 1) div 2"
  by (induction ms rule: pack_nibbles.induct) auto

subsection \<open>Masks of streams\<close>

lemma bit_layer_mask: "length ls \<le> 8 \<Longrightarrow> bit (layer_mask ls) i \<longleftrightarrow> i < length ls \<and> active (ls ! i)"
  by (auto simp: layer_mask_def bit_horner_sum_bit_word_iff)

lemma layer_mask_less: "length ls \<le> 4 \<Longrightarrow> unat (layer_mask ls) < 16"
proof -
  assume "length ls \<le> 4"
  then have "take_bit 4 (layer_mask ls) = layer_mask ls"
    by (intro bit_word_eqI) (auto simp: bit_take_bit_iff bit_layer_mask)
  then have "unat (layer_mask ls) = take_bit 4 (unat (layer_mask ls))" by (metis unsigned_take_bit_eq)
  then show ?thesis using take_bit_nat_less_exp [of 4 "unat (layer_mask ls)"] by simp
qed

lemma spatial_count_eq:
  assumes "n < 8" "bit m n" "\<And>i. n < i \<Longrightarrow> \<not> bit m i"
  shows "spatial_count m = Suc n"
proof -
  have "m \<noteq> 0" using assms(2) by auto
  note z = leading_zeros_bounds [OF this, simplified]
  have "take_bit (Suc n) m = m" using assms(3) by (intro bit_word_eqI) (auto simp: bit_take_bit_iff, meson not_less_eq)
  then have "unat m = take_bit (Suc n) (unat m)" by (metis unsigned_take_bit_eq)
  then have "unat m < 2 ^ Suc n" using take_bit_nat_less_exp [of "Suc n" "unat m"] by simp
  with z(2) have "(2::nat) ^ (7 - leading_zeros m) < 2 ^ Suc n" by simp
  then have "7 - leading_zeros m < Suc n" by (rule power_less_imp_less_exp [rotated]) simp
  moreover have "(2::nat) ^ n < 2 ^ (8 - leading_zeros m)" by (rule order_le_less_trans [OF bit_imp_exp_le [OF assms(2)] z(3)])
  then have "n < 8 - leading_zeros m" by (rule power_less_imp_less_exp [rotated]) simp
  ultimately show ?thesis unfolding spatial_count_def using z(1) by simp
qed

lemma spatial_count_mask:
  assumes "length ls \<le> 4" "ls = [] \<or> active (last ls)"
  shows "spatial_count (layer_mask ls) = length ls"
proof (cases "ls = []")
  case True
  then show ?thesis by (simp add: layer_mask_def spatial_count_def leading_zeros_def)
next
  case False
  then have "spatial_count (layer_mask ls) = Suc (length ls - 1)"
    using assms by (intro spatial_count_eq) (auto simp: bit_layer_mask last_conv_nth)
  then show ?thesis using False by simp
qed

lemma filter_positions: "length (filter (\<lambda>i. i < length ls \<and> P (ls ! i)) [0..<n]) = length (filter P (take n ls))"
proof (induction n)
  case (Suc n)
  then show ?case by (cases "n < length ls") (auto simp: take_Suc_conv_app_nth)
qed simp

lemma active_count_masks:
  "list_all (\<lambda>ls. length ls \<le> 4) lss \<Longrightarrow> active_count (map layer_mask lss) = length (layer_counts (concat lss))"
proof (induction lss)
  case (Cons ls lss)
  have "(layer_mask ls AND push_bit i 1 \<noteq> 0) = (i < length ls \<and> active (ls ! i))" for i
    unfolding bit_iff_and_push_bit_not_eq_0 [symmetric] using Cons.prems by (simp add: bit_layer_mask)
  then have "length (filter id (map (\<lambda>i. layer_mask ls AND push_bit i 1 \<noteq> 0) [0..<4])) = length (filter active (take 4 ls))"
    by (simp only: filter_map o_def id_apply length_map filter_positions)
  then show ?case using Cons by (simp add: active_count_def layer_counts_def del: upt_rec_numeral)
qed (simp add: active_count_def layer_counts_def)

subsection \<open>The loops invert the format\<close>

definition strip :: "SpatialLayerAllocation \<Rightarrow> SpatialLayerAllocation" where
  "strip l = l\<lparr>resolution_and_framerate := None\<rparr>"

definition strip_stream :: "SimulcastStreamAllocation \<Rightarrow> SimulcastStreamAllocation" where
  "strip_stream s = s\<lparr>spatial_layers := map strip (spatial_layers s)\<rparr>"

lemma strip_inactive: "layer_ok l \<Longrightarrow> \<not> active l \<Longrightarrow> strip l = l"
  by (cases l) (auto simp: strip_def layer_ok_def split: option.splits)

lemma strip_cons: "temporal_layers l = ts \<Longrightarrow> \<lparr>temporal_layers = ts, resolution_and_framerate = None\<rparr> = strip l"
  by (cases l) (simp add: strip_def)

lemma spatial_loop_exact:
  "list_all layer_ok ls \<Longrightarrow> (\<forall>j < length ls. bit m (i + j) = active (ls ! j)) \<Longrightarrow> i + length ls \<le> 8 \<Longrightarrow>
   spatial_loop m [i..<i + length ls] (layer_counts ls @ cs) (concat (map layer_rates ls) @ r) = Inr (map strip ls, cs, r)"
proof (induction ls arbitrary: i)
  case (Cons l ls)
  have up: "[i..<i + length (l # ls)] = i # [Suc i..<Suc i + length ls]"
    using upt_conv_Cons [of i "i + length (l # ls)"] by simp
  have act: "(m AND push_bit i 1 \<noteq> 0) = active l"
    unfolding bit_iff_and_push_bit_not_eq_0 [symmetric] using Cons.prems(2) by auto
  have IH: "spatial_loop m [Suc i..<Suc i + length ls] (layer_counts ls @ cs) (concat (map layer_rates ls) @ r) = Inr (map strip ls, cs, r)"
    using Cons.prems by (intro Cons.IH) auto
  have ok: "list_all (\<lambda>t. unat (cumulative_kbps t) < 2 ^ 63) (temporal_layers l)" "length (temporal_layers l) \<le> 4"
    using Cons.prems(1) by (auto simp: layer_ok_def)
  have c: "unat (of_nat (length (temporal_layers l)) :: u8) = length (temporal_layers l)"
    using ok(2) by (intro unat_of_nat_fits) simp
  show ?case
  proof (cases "active l")
    case True
    then show ?thesis unfolding up spatial_loop.simps Let_def act
      using Cons.prems(3) IH c temporal_loop_exact [OF ok(1)] strip_cons [of l]
      by (simp add: layer_counts_def layer_rates_def)
  next
    case False
    then have "temporal_layers l = []" by (simp add: active_def)
    then show ?thesis unfolding up spatial_loop.simps Let_def act
      using Cons.prems(3) IH False strip_cons [of l]
      by (simp add: layer_counts_def layer_rates_def)
  qed
qed (simp add: layer_counts_def)

lemma layer_counts_append: "layer_counts (xs @ ys) = layer_counts xs @ layer_counts ys"
  by (simp add: layer_counts_def)

lemma stream_loop_exact:
  "list_all stream_ok ss \<Longrightarrow>
   stream_loop (map (\<lambda>s. layer_mask (spatial_layers s)) ss) (layer_counts (concat (map spatial_layers ss)) @ cs)
     (concat (map layer_rates (concat (map spatial_layers ss))) @ r) = Inr (map strip_stream ss, cs, r)"
proof (induction ss)
  case (Cons s ss)
  let ?ls = "spatial_layers s"
  have ok: "length ?ls \<le> 4" "?ls = [] \<or> active (last ?ls)" "list_all layer_ok ?ls"
    using Cons.prems by (auto simp: stream_ok_def)
  have "spatial_loop (layer_mask ?ls) [0..<0 + length ?ls] (layer_counts ?ls @ layer_counts (concat (map spatial_layers ss)) @ cs)
      (concat (map layer_rates ?ls) @ concat (map layer_rates (concat (map spatial_layers ss))) @ r) =
      Inr (map strip ?ls, layer_counts (concat (map spatial_layers ss)) @ cs, concat (map layer_rates (concat (map spatial_layers ss))) @ r)"
    using ok by (intro spatial_loop_exact) (auto simp: bit_layer_mask)
  then show ?case using Cons spatial_count_mask [OF ok(1, 2)]
    by (cases s) (simp add: layer_counts_append strip_stream_def)
qed (simp add: layer_counts_def)

lemma read_resolution_exact:
  assumes "layer_ok l" "(resolution_and_framerate l \<noteq> None) = active l"
  shows "read_resolution (strip l) (layer_resolution l @ r) = Inr (l, r)"
proof (cases "resolution_and_framerate l")
  case None
  then show ?thesis using assms strip_inactive [of l]
    by (simp add: read_resolution_def active_def layer_resolution_def)
next
  case (Some x)
  have d: "sat_add (ucast (of_nat (unat w - 1) :: u16)) 1 = w" if "1 \<le> unat w" "unat w \<le> 65536" for w :: u32
  proof -
    have "unat (of_nat (unat w - 1) :: u16) = unat w - 1" using that by (intro unat_of_nat_fits) simp
    then have u: "unat (ucast (of_nat (unat w - 1) :: u16) :: u32) = unat w - 1" by (simp add: unsigned_ucast_eq take_bit_nat_eq_self)
    then have "unat (sat_add (ucast (of_nat (unat w - 1) :: u16)) 1 :: u32) = unat w"
      using that by (simp only: unat_sat_add u) simp
    then show ?thesis by (simp only: word_unat_eq_iff)
  qed
  have ok: "resolution_ok x" "active l" using assms(1) Some by (auto simp: layer_ok_def)
  show ?thesis using ok Some d
    by (cases l; cases x) (simp add: read_resolution_def active_def strip_def layer_resolution_def resolution_bytes_def
      vla_take_def resolution_ok_def to_be16_def del: ucast_drop_bit_eq)
qed

lemma read_layers_exact:
  "list_all layer_ok ls \<Longrightarrow> list_all (\<lambda>l. (resolution_and_framerate l \<noteq> None) = active l) ls \<Longrightarrow>
   each_mut read_resolution (map strip ls) (concat (map layer_resolution ls) @ r) = Inr (ls, r)"
  by (induction ls) (simp_all only: list.pred_inject list.map concat.simps each_mut.simps append_assoc
    read_resolution_exact and_then_simps split append_Nil)

lemma read_streams_exact:
  "list_all stream_ok ss \<Longrightarrow>
   list_all (\<lambda>l. (resolution_and_framerate l \<noteq> None) = active l) (concat (map spatial_layers ss)) \<Longrightarrow>
   each_mut read_stream_resolutions (map strip_stream ss) (concat (map layer_resolution (concat (map spatial_layers ss))) @ r) = Inr (ss, r)"
proof (induction ss)
  case (Cons s ss)
  then show ?case
    by (cases s) (simp add: read_stream_resolutions_def strip_stream_def stream_ok_def read_layers_exact)
qed simp

lemma strip_none: "list_all (\<lambda>l. resolution_and_framerate l = None) (concat (map spatial_layers ss)) \<Longrightarrow>
    map strip_stream ss = ss \<and> concat (map layer_resolution (concat (map spatial_layers ss))) = []"
proof (induction ss)
  case (Cons s ss)
  have "map strip ls = ls \<and> concat (map layer_resolution ls) = []"
    if "list_all (\<lambda>l. resolution_and_framerate l = None) ls" for ls
    using that by (induction ls) (auto simp: strip_def layer_resolution_def)
  from this [of "spatial_layers s"] show ?case using Cons by (cases s) (auto simp: strip_stream_def)
qed simp

lemma header_fields:
  assumes "unat c < 4" "unat n < 4" "unat (m :: u8) < 16"
  defines "h \<equiv> push_bit 6 c OR push_bit 4 n OR m"
  shows "drop_bit 6 h = c" "drop_bit 4 h AND 3 = n" "h AND 15 = m"
proof -
  have "take_bit 2 c = c" "take_bit 2 n = n" "take_bit 4 m = m" using assms(1-3) by (auto intro!: take_bit_fits)
  then have z: "2 \<le> i \<Longrightarrow> \<not> bit c i" "2 \<le> i \<Longrightarrow> \<not> bit n i" "4 \<le> i \<Longrightarrow> \<not> bit m i" for i
    by (metis bit_take_bit_iff not_less)+
  show "drop_bit 6 h = c" "drop_bit 4 h AND 3 = n" "h AND 15 = m"
    unfolding h_def by (rule byte_eqI; simp add: byte_bits z)+
qed

lemma shared_mask_of_less: "ms \<noteq> [] \<Longrightarrow> list_all (\<lambda>m. unat m < 16) ms \<Longrightarrow> unat (shared_mask_of ms) < 16"
  by (cases ms) (auto simp: shared_mask_of_def)

lemma masks_exact:
  assumes "list_all (\<lambda>m. unat m < 16) ms" "ms \<noteq> []"
  shows "vla_masks (shared_mask_of ms) (length ms)
    ((if shared_mask_of ms \<noteq> 0 then [] else pack_nibbles ms) @ r) = Inr (ms, r)"
proof (cases "shared_mask_of ms = 0")
  case True
  then show ?thesis using masks_pack [OF assms(1)] length_pack_nibbles [of ms]
    by (simp add: vla_masks_def vla_take_def)
next
  case False
  then have "list_all (\<lambda>m. m = hd ms) ms" "shared_mask_of ms = hd ms" by (auto simp: shared_mask_of_def split: if_splits)
  then have "ms = replicate (length ms) (shared_mask_of ms)"
    by (intro replicate_eqI) (auto simp: list_all_iff)
  then show ?thesis using False by (simp add: vla_masks_def)
qed

lemma layer_counts_range:
  "list_all layer_ok ls \<Longrightarrow> list_all (\<lambda>c. c \<in> {1, 2, 3, 4}) (layer_counts ls)"
proof -
  have "(of_nat n :: u8) \<in> {1, 2, 3, 4}" if "n \<le> 4" "n \<noteq> 0" for n
  proof -
    have "n \<in> {1, 2, 3, 4}" using that by auto
    then show ?thesis by auto
  qed
  moreover assume "list_all layer_ok ls"
  ultimately show ?thesis by (force simp: list_all_iff layer_counts_def layer_ok_def active_def)
qed

lemma layer_resolution_nonempty: "layer_resolution l = [] \<longleftrightarrow> resolution_and_framerate l = None"
  by (auto simp: layer_resolution_def resolution_bytes_def split: option.splits)

lemma all_layers_ok: "list_all stream_ok (simulcast_streams a) \<Longrightarrow> list_all layer_ok (all_layers a)"
  by (auto simp: list_all_iff all_layers_def stream_ok_def)

lemma resolutions_exact:
  assumes "list_all stream_ok ss" "ls = concat (map spatial_layers ss)"
    and "list_all (\<lambda>l. resolution_and_framerate l = None) ls \<or> list_all (\<lambda>l. (resolution_and_framerate l \<noteq> None) = active l) ls"
  shows "(if concat (map layer_resolution ls) \<noteq> []
      then each_mut read_stream_resolutions (map strip_stream ss) (concat (map layer_resolution ls))
      else Inr (map strip_stream ss, concat (map layer_resolution ls))) = Inr (ss, [])"
proof (cases "list_all (\<lambda>l. resolution_and_framerate l = None) ls")
  case True
  then show ?thesis using strip_none [of ss] assms(2) by simp
next
  case False
  then have "concat (map layer_resolution ls) \<noteq> []" by (auto simp: list_all_iff layer_resolution_nonempty)
  then show ?thesis using read_streams_exact [OF assms(1), of "[]"] assms(2, 3) False by simp
qed

lemma vla_parse_parts:
  assumes "length (h # t) \<le> MAX_VLA_LEN" and "\<not> (h = 0 \<and> t = [])"
    and "\<not> sat_add (drop_bit 4 h AND 3) 1 \<le> drop_bit 6 h"
    and "vla_masks (h AND 15) (unat (sat_add (drop_bit 4 h AND 3) 1)) t = Inr (ms, p @ r1)"
    and "(active_count ms + 3) div 4 = length p"
    and "stream_loop ms (temporal_counts p) r1 = Inr (ss, cs, r2)"
    and "(if r2 \<noteq> [] then each_mut read_stream_resolutions ss r2 else Inr (ss, r2)) = Inr (ss', [])"
  shows "vla_parse (h # t) = Inr \<lparr>current_simulcast_stream_index = drop_bit 6 h, simulcast_streams = ss'\<rparr>"
proof -
  have "vla_take ((active_count ms + 3) div 4) (p @ r1) = Inr (p, r1)" using assms(5) by (simp add: vla_take_def)
  then show ?thesis
    unfolding vla_parse_def vla_byte_def list.case and_then_simps split Let_def assms(4)
    unfolding and_then_simps split assms(6) unfolding and_then_simps split assms(7)
    using assms(1, 2, 3, 6, 7) by (simp only: and_then_simps split assms(6, 7)) auto
qed

text \<open>
  C10. The decoder of the layer allocation extension inverts its wire format: an allocation of at most
  four streams, four spatial positions and four temporal layers, with rates of 63 bits and dimensions from
  1 to 65536, comes back from its encoding unchanged, whenever the encoding fits into the extension.
\<close>

theorem vla_roundtrip:
  assumes "vla_shape a" and "length (vla_bytes a) \<le> 255"
  shows "vla_parse (vla_bytes a) = Inr a"
proof (cases "simulcast_streams a = []")
  case True
  then show ?thesis using assms(1) by (cases a) (simp add: vla_shape_def vla_bytes_def vla_parse_def vla_byte_def MAX_VLA_LEN_def)
next
  case False
  define ss where "ss = simulcast_streams a"
  define ms where "ms = stream_masks a"
  define ls where "ls = all_layers a"
  let ?c = "current_simulcast_stream_index a" and ?n = "of_nat (length ms - 1) :: u8" and ?m = "shared_mask_of ms"
  let ?h = "push_bit 6 ?c OR push_bit 4 ?n OR ?m"
  let ?t = "(if ?m \<noteq> 0 then [] else pack_nibbles ms) @ pack_counts (layer_counts ls) @
    concat (map layer_rates ls) @ concat (map layer_resolution ls)"
  have sh: "length ms \<le> 4" "unat ?c < length ms" "list_all stream_ok ss" "ms \<noteq> []"
    and res: "list_all (\<lambda>l. resolution_and_framerate l = None) ls \<or> list_all (\<lambda>l. (resolution_and_framerate l \<noteq> None) = active l) ls"
    using assms(1) False by (auto simp: vla_shape_def ms_def ss_def ls_def stream_masks_def)
  have ms: "ms = map layer_mask (map spatial_layers ss)" by (simp add: ms_def ss_def stream_masks_def)
  have ls: "ls = concat (map spatial_layers ss)" by (simp add: ls_def ss_def all_layers_def)
  have l4: "list_all (\<lambda>ls. length ls \<le> 4) (map spatial_layers ss)" using sh(3) by (auto simp: list_all_iff stream_ok_def)
  have small: "list_all (\<lambda>m. unat m < 16) ms" using l4 by (auto simp: ms list_all_iff layer_mask_less)
  have n: "unat ?n = length ms - 1" using sh(1) by (intro unat_of_nat_fits) simp
  have h: "drop_bit 6 ?h = ?c" "drop_bit 4 ?h AND 3 = ?n" "?h AND 15 = ?m"
    using sh(1, 2) n shared_mask_of_less [OF sh(4) small] by (intro header_fields; simp)+
  have cnt: "unat (sat_add ?n 1) = length ms" using n sh(1, 4) by (simp add: unat_sat_add)
  have bytes: "vla_bytes a = ?h # ?t" using False by (simp add: vla_bytes_def ms_def ls_def Let_def)
  have "?h = 0 \<Longrightarrow> ?m = 0" using h(3) by simp
  then have nz: "\<not> (?h = 0 \<and> ?t = [])" using sh(4) by (cases ms rule: pack_nibbles.cases) auto
  have lt: "\<not> sat_add ?n 1 \<le> ?c" using cnt sh(2) by (simp add: word_le_nat_alt)
  obtain junk where junk: "temporal_counts (pack_counts (layer_counts ls)) = layer_counts ls @ junk"
    using temporal_counts_pack [OF layer_counts_range] all_layers_ok sh(3) by (metis ls_def ss_def)
  have ac: "(active_count ms + 3) div 4 = length (pack_counts (layer_counts ls))"
    using active_count_masks [OF l4] length_pack_counts [of "layer_counts ls"] by (simp add: ms ls)
  have m: "vla_masks ?m (length ms) ?t =
      Inr (ms, pack_counts (layer_counts ls) @ concat (map layer_rates ls) @ concat (map layer_resolution ls))"
    by (rule masks_exact [OF small sh(4)])
  have st: "stream_loop ms (layer_counts ls @ junk) (concat (map layer_rates ls) @ concat (map layer_resolution ls)) =
      Inr (map strip_stream ss, junk, concat (map layer_resolution ls))"
    unfolding ms ls map_map o_def by (rule stream_loop_exact [OF sh(3)])
  have "vla_parse (?h # ?t) = Inr \<lparr>current_simulcast_stream_index = drop_bit 6 ?h, simulcast_streams = ss\<rparr>"
  proof (rule vla_parse_parts [OF _ nz _ _ ac _ resolutions_exact [OF sh(3) ls res]])
    show "length (?h # ?t) \<le> MAX_VLA_LEN" using assms(2) unfolding bytes MAX_VLA_LEN_def .
    show "\<not> sat_add (drop_bit 4 ?h AND 3) 1 \<le> drop_bit 6 ?h" unfolding h by (rule lt)
    show "vla_masks (?h AND 15) (unat (sat_add (drop_bit 4 ?h AND 3) 1)) ?t =
      Inr (ms, pack_counts (layer_counts ls) @ concat (map layer_rates ls) @ concat (map layer_resolution ls))"
      unfolding h cnt by (rule m)
    show "stream_loop ms (temporal_counts (pack_counts (layer_counts ls))) (concat (map layer_rates ls) @ concat (map layer_resolution ls)) =
      Inr (map strip_stream ss, junk, concat (map layer_resolution ls))" unfolding junk by (rule st)
  qed
  then show ?thesis unfolding bytes h by (simp add: ss_def)
qed

subsection \<open>What the decoder accepts\<close>

lemma take_bit_less: "take_bit n w = w \<Longrightarrow> unat w < 2 ^ n" for w :: "'a::len word"
  by (metis take_bit_nat_less_exp unsigned_take_bit_eq)

lemma fits_mono: "take_bit n w = w \<Longrightarrow> n \<le> m \<Longrightarrow> take_bit m w = w" for w :: "'a::len word"
proof (rule bit_word_eqI)
  fix i assume "take_bit n w = w" "n \<le> m"
  then have "bit w i \<Longrightarrow> i < m" by (metis bit_take_bit_iff order_less_le_trans)
  then show "bit (take_bit m w) i = bit w i" by (auto simp: bit_take_bit_iff)
qed

lemma rate_loop_bound:
  "rate_loop (shifts_from k) value r = Inr (v, r') \<Longrightarrow> k \<le> 9 \<Longrightarrow> take_bit (7 * k) value = value \<Longrightarrow> take_bit 63 v = v"
proof (induction "9 - k" arbitrary: k "value" r)
  case 0
  then show ?case by (simp add: shifts_from_def)
next
  case (Suc n)
  then have k: "k < 9" by simp
  obtain b s where r: "r = b # s" using Suc(3) shifts_from_step [OF k] by (cases r) (auto simp: vla_byte_def)
  let ?v = "value OR push_bit (7 * k) (ucast (b AND 127)) :: u64"
  have v: "take_bit (7 * Suc k) ?v = ?v"
  proof (rule bit_word_eqI)
    fix i assume "i < LENGTH(64)"
    have "bit value i \<Longrightarrow> i < 7 * k" using Suc(5) by (metis bit_take_bit_iff)
    moreover have "bit (b AND 127) j \<Longrightarrow> j < 7" for j
    proof -
      have "b AND 127 = take_bit 7 b" by (simp add: take_bit_eq_mask mask_eq_exp_minus_1)
      then show "bit (b AND 127) j \<Longrightarrow> j < 7" by (simp only: bit_take_bit_iff)
    qed
    ultimately show "bit (take_bit (7 * Suc k) ?v) i = bit ?v i"
      by (fastforce simp: bit_take_bit_iff bit_or_iff bit_push_bit_iff bit_ucast_iff)
  qed
  show ?case
  proof (cases "b AND 128 = 0")
    case True
    then have "v = ?v" using Suc(3) k r by (simp add: shifts_from_step vla_byte_def Let_def)
    then show ?thesis using fits_mono [OF v, of 63] k by simp
  next
    case False
    then have "rate_loop (shifts_from (Suc k)) ?v s = Inr (v, r')"
      using Suc(3) k r by (simp add: shifts_from_step vla_byte_def Let_def)
    then show ?thesis using Suc(1) [of "Suc k" ?v s] Suc(2) k v by simp
  qed
qed

lemma rate_bound: "rate r = Inr (v, r') \<Longrightarrow> unat v < 2 ^ 63"
  using rate_loop_bound [of 0 0 r v r'] take_bit_less [of 63 v] by (simp add: rate_shifts)

lemma temporal_loop_shape:
  "temporal_loop n r = Inr (ts, r') \<Longrightarrow> length ts = n \<and> list_all (\<lambda>t. unat (cumulative_kbps t) < 2 ^ 63) ts"
  by (induction n arbitrary: r ts) (auto simp: and_then_Inr_iff dest!: rate_bound)

lemma temporal_counts_range: "list_all (\<lambda>c. 1 \<le> unat c \<and> unat c \<le> 4) (temporal_counts bs)"
proof -
  have "1 \<le> unat (sat_add (b AND 3) 1) \<and> unat (sat_add (b AND 3) 1) \<le> 4" for b :: u8
  proof -
    have "b AND 3 = take_bit 2 b" by (simp add: take_bit_eq_mask mask_eq_exp_minus_1)
    then have "unat (b AND 3) < 4" using take_bit_less [of 2 "b AND 3"] by simp
    then show ?thesis by (simp only: unat_sat_add) simp
  qed
  then show ?thesis by (simp add: temporal_counts_def list_all_iff)
qed

lemma spatial_loop_shape:
  "spatial_loop m [i..<n] cs r = Inr (ls, cs', r') \<Longrightarrow> list_all (\<lambda>c. 1 \<le> unat c \<and> unat c \<le> 4) cs \<Longrightarrow>
   length ls = n - i \<and> (\<forall>j < length ls. active (ls ! j) = bit m (i + j)) \<and> list_all layer_ok ls \<and>
   list_all (\<lambda>l. resolution_and_framerate l = None) ls \<and> list_all (\<lambda>c. 1 \<le> unat c \<and> unat c \<le> 4) cs'"
proof (induction "n - i" arbitrary: i cs r ls)
  case 0
  then show ?case by simp
next
  case (Suc k)
  then have up: "[i..<n] = i # [Suc i..<n]" by (simp add: upt_conv_Cons)
  let ?a = "m AND push_bit i 1 \<noteq> 0"
  have act: "?a = bit m i" unfolding bit_iff_and_push_bit_not_eq_0 [symmetric] ..
  obtain ts cs1 r1 ls1 where
    t: "(if ?a then case cs of [] \<Rightarrow> Inl Truncated
          | count # cs \<Rightarrow> and_then (temporal_loop (unat count) r) (\<lambda>(ls, r). Inr (ls, cs, r))
        else Inr ([], cs, r)) = Inr (ts, cs1, r1)"
    and s: "spatial_loop m [Suc i..<n] cs1 r1 = Inr (ls1, cs', r')"
    and ls: "ls = \<lparr>temporal_layers = ts, resolution_and_framerate = None\<rparr> # ls1"
    using if_error [OF Suc(3) [unfolded up spatial_loop.simps Let_def]]
    by (auto simp only: and_then_Inr_triple sum.inject prod.inject)
  have ts: "(ts \<noteq> []) = bit m i" "length ts \<le> 4" "list_all (\<lambda>t. unat (cumulative_kbps t) < 2 ^ 63) ts"
    "list_all (\<lambda>c. 1 \<le> unat c \<and> unat c \<le> 4) cs1"
    using t Suc(4) unfolding act
    by (auto simp: and_then_Inr_iff split: if_splits list.splits dest!: temporal_loop_shape)
  have IH: "length ls1 = n - Suc i \<and> (\<forall>j < length ls1. active (ls1 ! j) = bit m (Suc i + j)) \<and> list_all layer_ok ls1 \<and>
     list_all (\<lambda>l. resolution_and_framerate l = None) ls1 \<and> list_all (\<lambda>c. 1 \<le> unat c \<and> unat c \<le> 4) cs'"
    using Suc(2) by (intro Suc(1) [OF _ s ts(4)]) simp
  have "active (ls ! j) = bit m (i + j)" if "j < length ls" for j
    using that IH ts(1) by (cases j) (auto simp: ls active_def)
  then show ?case using IH ts Suc(2) by (auto simp: ls layer_ok_def)
qed

lemma spatial_count_top:
  assumes "unat m < 16"
  shows "spatial_count m \<le> 4" "spatial_count m = 0 \<or> bit m (spatial_count m - 1)"
proof -
  have "take_bit 4 m = m" using assms by (intro take_bit_fits) simp
  then have hi: "bit m i \<Longrightarrow> i < 4" for i by (metis bit_take_bit_iff)
  have "spatial_count m \<le> 4 \<and> (spatial_count m = 0 \<or> bit m (spatial_count m - 1))"
  proof (cases "m = 0")
    case True
    then have "spatial_count m = 0" by (simp add: spatial_count_def leading_zeros_def)
    then show ?thesis by simp
  next
    case False
    define t where "t = Max {i. bit m i}"
    have "finite {i. bit m i}" by (rule finite_subset [of _ "{..<4}"]) (auto dest: hi)
    moreover have "\<exists>i. bit m i"
    proof (rule ccontr)
      assume "\<nexists>i. bit m i"
      then have "m = 0" by (intro bit_word_eqI) simp
      with False show False by simp
    qed
    ultimately have "bit m t" and t: "\<And>i. bit m i \<Longrightarrow> i \<le> t"
      using Max_in [of "{i. bit m i}"] unfolding t_def by (auto intro: Max_ge)
    then have "spatial_count m = Suc t" using hi [of t] by (intro spatial_count_eq) (auto dest: t)
    then show ?thesis using \<open>bit m t\<close> hi [of t] by auto
  qed
  then show "spatial_count m \<le> 4" and "spatial_count m = 0 \<or> bit m (spatial_count m - 1)" by auto
qed

lemma stream_loop_shape:
  "stream_loop ms cs r = Inr (ss, cs', r') \<Longrightarrow> list_all (\<lambda>m. unat m < 16) ms \<Longrightarrow>
   list_all (\<lambda>c. 1 \<le> unat c \<and> unat c \<le> 4) cs \<Longrightarrow>
   length ss = length ms \<and> list_all stream_ok ss \<and>
   list_all (\<lambda>l. resolution_and_framerate l = None) (concat (map spatial_layers ss))"
proof (induction ms arbitrary: cs r ss)
  case Nil
  then show ?case by simp
next
  case (Cons m ms)
  obtain ls cs1 r1 ss1 where
    l: "spatial_loop m [0..<spatial_count m] cs r = Inr (ls, cs1, r1)"
    and s: "stream_loop ms cs1 r1 = Inr (ss1, cs', r')" and ss: "ss = \<lparr>spatial_layers = ls\<rparr> # ss1"
    using Cons.prems(1) unfolding stream_loop.simps
    by (auto simp only: and_then_Inr_triple sum.inject prod.inject)
  note sh = spatial_loop_shape [OF l Cons.prems(3)]
  have m: "unat m < 16" "list_all (\<lambda>m. unat m < 16) ms" using Cons.prems(2) by simp_all
  have "ls = [] \<or> active (last ls)"
  proof (cases "ls = []")
    case False
    have "\<forall>j < length ls. active (ls ! j) = bit m (0 + j)" using sh by blast
    from this [rule_format, of "length ls - 1"] have "active (ls ! (length ls - 1)) = bit m (length ls - 1)"
      using False by simp
    then show ?thesis using spatial_count_top(2) [OF m(1)] sh False by (auto simp: last_conv_nth)
  qed simp
  then have "stream_ok \<lparr>spatial_layers = ls\<rparr>" using sh spatial_count_top(1) [OF m(1)] by (simp add: stream_ok_def)
  moreover have "list_all (\<lambda>c. 1 \<le> unat c \<and> unat c \<le> 4) cs1" using sh by blast
  note Cons.IH [OF s m(2) this]
  ultimately show ?case using sh by (simp add: ss)
qed

lemma resolution_dimension: "1 \<le> unat (sat_add (ucast (w :: u16)) 1 :: u32) \<and> unat (sat_add (ucast w) 1 :: u32) \<le> 65536"
proof -
  have "unat (ucast w :: u32) < 65536" using unat_bounds(2) [of w] by (simp add: unsigned_ucast_eq take_bit_nat_eq_self)
  then show ?thesis by (simp only: unat_sat_add) simp
qed

lemma read_resolution_shape:
  assumes "read_resolution l r = Inr (l', r')" "layer_ok l" "resolution_and_framerate l = None"
  shows "layer_ok l' \<and> active l' = active l \<and> (resolution_and_framerate l' \<noteq> None) = active l'"
proof (cases "temporal_layers l = []")
  case True
  then show ?thesis using assms by (auto simp: read_resolution_def active_def)
next
  case False
  then have "5 \<le> length r" using assms(1) by (auto simp: read_resolution_def vla_take_def split: if_splits)
  then obtain a b c d e t where "r = a # b # c # d # e # t" by (auto simp: numeral_eq_Suc Suc_le_length_iff)
  then obtain x where "l' = l\<lparr>resolution_and_framerate := Some x\<rparr>" "resolution_ok x"
    using assms(1) False resolution_dimension [of "be16 a b"] resolution_dimension [of "be16 c d"]
    by (auto simp: read_resolution_def vla_take_def resolution_ok_def)
  then show ?thesis using False assms(2, 3) by (simp add: layer_ok_def active_def)
qed

lemma read_layers_shape:
  "each_mut read_resolution ls r = Inr (ls', r') \<Longrightarrow> list_all layer_ok ls \<Longrightarrow>
   list_all (\<lambda>l. resolution_and_framerate l = None) ls \<Longrightarrow>
   list_all2 (\<lambda>l l'. active l' = active l) ls ls' \<and> list_all layer_ok ls' \<and>
   list_all (\<lambda>l. (resolution_and_framerate l \<noteq> None) = active l) ls'"
proof (induction ls arbitrary: r ls')
  case (Cons l ls)
  then obtain l1 r1 ls1 where "read_resolution l r = Inr (l1, r1)" "each_mut read_resolution ls r1 = Inr (ls1, r')"
      "ls' = l1 # ls1"
    by (auto simp: and_then_Inr_pair)
  then show ?case using read_resolution_shape [of l r l1 r1] Cons.IH [of r1 ls1] Cons.prems(2, 3) by auto
qed simp

lemma read_streams_shape:
  "each_mut read_stream_resolutions ss r = Inr (ss', r') \<Longrightarrow> list_all stream_ok ss \<Longrightarrow>
   list_all (\<lambda>l. resolution_and_framerate l = None) (concat (map spatial_layers ss)) \<Longrightarrow>
   length ss' = length ss \<and> list_all stream_ok ss' \<and>
   list_all (\<lambda>l. (resolution_and_framerate l \<noteq> None) = active l) (concat (map spatial_layers ss'))"
proof (induction ss arbitrary: r ss')
  case (Cons s ss)
  then obtain s1 r1 ss1 where s1: "read_stream_resolutions s r = Inr (s1, r1)"
      and "each_mut read_stream_resolutions ss r1 = Inr (ss1, r')" "ss' = s1 # ss1"
    by (auto simp: and_then_Inr_pair)
  moreover obtain ls1 where l: "each_mut read_resolution (spatial_layers s) r = Inr (ls1, r1)"
      and "s1 = s\<lparr>spatial_layers := ls1\<rparr>"
    using s1 by (auto simp: and_then_Inr_pair read_stream_resolutions_def)
  ultimately have ss1: "each_mut read_stream_resolutions ss r1 = Inr (ss1, r')" "ss' = s\<lparr>spatial_layers := ls1\<rparr> # ss1"
    by simp_all
  have ok: "list_all layer_ok (spatial_layers s)" "list_all (\<lambda>l. resolution_and_framerate l = None) (spatial_layers s)"
    "length (spatial_layers s) \<le> 4" "spatial_layers s = [] \<or> active (last (spatial_layers s))"
    using Cons.prems by (auto simp: stream_ok_def)
  note sh = read_layers_shape [OF l ok(1, 2)]
  have n: "length ls1 = length (spatial_layers s)" using sh by (auto dest: list_all2_lengthD)
  have "ls1 = [] \<or> active (last ls1)"
  proof (cases "ls1 = []")
    case False
    then have "spatial_layers s \<noteq> []" using n by auto
    moreover have "list_all2 (\<lambda>l l'. active l' = active l) (spatial_layers s) ls1" using sh by blast
    from list_all2_nthD2 [OF this, of "length ls1 - 1"]
    have "active (ls1 ! (length ls1 - 1)) = active (spatial_layers s ! (length ls1 - 1))" using False by simp
    ultimately show ?thesis using ok(4) n False by (simp add: last_conv_nth)
  qed simp
  then have "stream_ok (s\<lparr>spatial_layers := ls1\<rparr>)" using sh ok(3) n by (simp add: stream_ok_def)
  then show ?case using Cons.IH [OF ss1(1)] Cons.prems(2, 3) sh ss1(2) by simp
qed simp

lemma vla_masks_shape:
  assumes "vla_masks m n r = Inr (ms, r')" "unat m < 16"
  shows "length ms = n \<and> list_all (\<lambda>m. unat m < 16) ms"
proof (cases "m = 0")
  case False
  then show ?thesis using assms by (auto simp: vla_masks_def list_all_iff)
next
  case True
  then obtain bs where bs: "length bs = (n + 1) div 2" "ms = take n (concat (map (\<lambda>byte. [drop_bit 4 byte, byte AND 15]) bs))"
    using assms(1) that [of "take ((n + 1) div 2) r"]
    by (auto simp: vla_masks_def vla_take_def and_then_Inr_pair split: if_splits)
  have "length (concat (map (\<lambda>byte. [drop_bit 4 byte, byte AND 15]) bs)) = 2 * length bs" by (induction bs) auto
  moreover have "n \<le> 2 * ((n + 1) div 2)" by presburger
  ultimately have "length ms = n" using bs by simp
  moreover have "unat (drop_bit 4 b) < 16" "unat (b AND 15) < 16" for b :: u8
  proof -
    have "unat (drop_bit 4 b) = unat b div 16" using unat_drop_bit [of 4 b] by simp
    then show "unat (drop_bit 4 b) < 16" using unat_bounds(1) [of b] by simp
    have "b AND 15 = take_bit 4 b" by (simp add: take_bit_eq_mask mask_eq_exp_minus_1)
    then show "unat (b AND 15) < 16" using take_bit_less [of 4 "b AND 15"] by simp
  qed
  ultimately show ?thesis unfolding bs(2) by (auto simp: list_all_iff dest!: in_set_takeD)
qed

text \<open>
  C11. Whatever the layer allocation decoder accepts has the shape of the format: at most four streams
  with the current one among them, at most four spatial positions each of which the last is active, at most
  four temporal layers per position, rates below 2^63, dimensions from 1 to 65536, no resolution on an
  inactive position, and resolutions on all active positions or on none.
\<close>

theorem vla_parse_shape:
  assumes "vla_parse bs = Inr a"
  shows "vla_shape a"
proof -
  obtain h t where bs: "bs = h # t" using assms by (cases bs) (auto simp: vla_parse_def vla_byte_def split: if_splits)
  show ?thesis
  proof (cases "h = 0 \<and> t = []")
    case True
    then show ?thesis using assms bs by (auto simp: vla_parse_def vla_byte_def vla_shape_def split: if_splits)
  next
    case False
    let ?n = "sat_add (drop_bit 4 h AND 3) 1"
    note p = assms [unfolded bs vla_parse_def vla_byte_def list.case and_then_simps split Let_def]
    from if_error [OF p] False have p: "(if ?n \<le> drop_bit 6 h then Inl Invalid else
        and_then (vla_masks (h AND 15) (unat ?n) t) (\<lambda>(masks, r).
        and_then (vla_take ((active_count masks + 3) div 4) r) (\<lambda>(counts, r).
        and_then (stream_loop masks (temporal_counts counts) r) (\<lambda>(streams, cs, r).
        and_then (if r \<noteq> [] then each_mut read_stream_resolutions streams r else Inr (streams, r)) (\<lambda>(streams, r).
        if r \<noteq> [] then Inl TrailingBytes
        else Inr \<lparr>current_simulcast_stream_index = drop_bit 6 h, simulcast_streams = streams\<rparr>))))) = Inr a"
      by (simp only: if_False)
    have cur: "unat (drop_bit 6 h) < unat ?n" using p by (auto simp: word_le_nat_alt split: if_splits)
    obtain ms r1 p1 r2 ss cs r3 ss' r4 where
      m: "vla_masks (h AND 15) (unat ?n) t = Inr (ms, r1)"
      and s: "stream_loop ms (temporal_counts p1) r2 = Inr (ss, cs, r3)"
      and r: "(if r3 \<noteq> [] then each_mut read_stream_resolutions ss r3 else Inr (ss, r3)) = Inr (ss', r4)"
      and e: "(if r4 \<noteq> [] then Inl TrailingBytes
        else Inr \<lparr>current_simulcast_stream_index = drop_bit 6 h, simulcast_streams = ss'\<rparr>) = Inr a"
      using if_error [OF p] unfolding and_then_Inr_triple and_then_Inr_pair by blast
    have a: "a = \<lparr>current_simulcast_stream_index = drop_bit 6 h, simulcast_streams = ss'\<rparr>" using if_error [OF e] by simp
    have "h AND 15 = take_bit 4 h" "drop_bit 4 h AND 3 = take_bit 2 (drop_bit 4 h)"
      by (simp_all add: take_bit_eq_mask mask_eq_exp_minus_1)
    then have b: "unat (h AND 15) < 16" "unat (drop_bit 4 h AND 3) < 4"
      using take_bit_less [of 4 "h AND 15"] take_bit_less [of 2 "drop_bit 4 h AND 3"] by simp_all
    then have n: "unat ?n \<le> 4" by (simp only: unat_sat_add) simp
    note ms = vla_masks_shape [OF m b(1)]
    note sh = stream_loop_shape [OF s conjunct2 [OF ms] temporal_counts_range]
    have "length ss' = unat ?n \<and> list_all stream_ok ss' \<and>
        (list_all (\<lambda>l. resolution_and_framerate l = None) (concat (map spatial_layers ss')) \<or>
         list_all (\<lambda>l. (resolution_and_framerate l \<noteq> None) = active l) (concat (map spatial_layers ss')))"
    proof (cases "r3 = []")
      case True
      then show ?thesis using r sh ms by simp
    next
      case False
      then have "each_mut read_stream_resolutions ss r3 = Inr (ss', r4)" using r by simp
      from read_streams_shape [OF this] show ?thesis using sh ms by simp
    qed
    then show ?thesis using cur n a by (auto simp: vla_shape_def all_layers_def)
  qed
qed

definition example_allocation :: VideoLayersAllocation where
  "example_allocation =
     \<lparr>current_simulcast_stream_index = 1,
      simulcast_streams =
        [\<lparr>spatial_layers = [\<lparr>temporal_layers = [], resolution_and_framerate = None\<rparr>,
           \<lparr>temporal_layers = [\<lparr>cumulative_kbps = 300\<rparr>, \<lparr>cumulative_kbps = 500\<rparr>],
            resolution_and_framerate = Some \<lparr>rf_width = 640, rf_height = 360, rf_framerate = 30\<rparr>\<rparr>]\<rparr>,
         \<lparr>spatial_layers = [\<lparr>temporal_layers = [\<lparr>cumulative_kbps = 90000\<rparr>],
            resolution_and_framerate = Some \<lparr>rf_width = 65536, rf_height = 1, rf_framerate = 60\<rparr>\<rparr>]\<rparr>]\<rparr>"

theorem vla_roundtrip_witness:
  "length (vla_bytes example_allocation) = 20 \<and> vla_parse (vla_bytes example_allocation) = Inr example_allocation"
proof -
  have "vla_shape example_allocation" by code_simp
  moreover have "length (vla_bytes example_allocation) = 20" by code_simp
  ultimately show ?thesis using vla_roundtrip [of example_allocation] by simp
qed

theorem vla_parse_shape_witness: "\<exists>a. vla_parse [0x01, 0x00, 0x05] = Inr a \<and> vla_shape a"
proof -
  have "is_ok (vla_parse [0x01, 0x00, 0x05])" by code_simp
  then obtain a where "vla_parse [0x01, 0x00, 0x05] = Inr a" by (cases "vla_parse [0x01, 0x00, 0x05]") auto
  then show ?thesis using vla_parse_shape by blast
qed

end
