(* ===== verification/H264.thy ===== *)
theory H264
  imports Bytes "HOL-Library.Code_Target_Nat"
begin

text \<open>
  H.264 RTP payloads, \<open>crates/pulsebeam-core/src/h264.rs\<close>: the classification of a payload by the NAL
  units it carries, the depacketizer that rebuilds an access unit in Annex B form, and the packetizer
  that cuts one into single-unit and FU-A payloads.
\<close>

unbundle bit_operations_syntax

subsection \<open>Constants\<close>

definition NALU_TYPE_MASK :: u8 where "NALU_TYPE_MASK = 0x1F"
definition IDR_NALU_TYPE :: u8 where "IDR_NALU_TYPE = 5"
definition SPS_NALU_TYPE :: u8 where "SPS_NALU_TYPE = 7"
definition PPS_NALU_TYPE :: u8 where "PPS_NALU_TYPE = 8"
definition STAPA_NALU_TYPE :: u8 where "STAPA_NALU_TYPE = 24"
definition FUA_NALU_TYPE :: u8 where "FUA_NALU_TYPE = 28"
definition FUB_NALU_TYPE :: u8 where "FUB_NALU_TYPE = 29"

definition STAPA_HEADER_SIZE :: nat where "STAPA_HEADER_SIZE = 1"
definition STAPA_NALU_LENGTH_SIZE :: nat where "STAPA_NALU_LENGTH_SIZE = 2"
definition FUA_HEADER_SIZE :: nat where "FUA_HEADER_SIZE = 2"
definition FUB_HEADER_SIZE :: nat where "FUB_HEADER_SIZE = 4"

definition FU_START_MASK :: u8 where "FU_START_MASK = 0x80"
definition FU_END_MASK :: u8 where "FU_END_MASK = 0x40"
definition FU_RESERVED_MASK :: u8 where "FU_RESERVED_MASK = 0x20"
definition ANNEX_B_START_CODE :: "u8 list" where "ANNEX_B_START_CODE = [0, 0, 0, 1]"
definition MAX_FRAME_SIZE :: nat where "MAX_FRAME_SIZE = 16 * 1024 * 1024"
definition MAX_ACCESS_UNIT_SIZE :: nat where "MAX_ACCESS_UNIT_SIZE = MAX_FRAME_SIZE"

definition FLAG_SPS :: u8 where "FLAG_SPS = 1"
definition FLAG_PPS :: u8 where "FLAG_PPS = 2"
definition FLAG_IDR :: u8 where "FLAG_IDR = 4"

lemmas nalu_consts = NALU_TYPE_MASK_def STAPA_NALU_TYPE_def FUA_NALU_TYPE_def FUB_NALU_TYPE_def
  STAPA_HEADER_SIZE_def STAPA_NALU_LENGTH_SIZE_def FUA_HEADER_SIZE_def FUB_HEADER_SIZE_def
  FU_START_MASK_def FU_END_MASK_def FU_RESERVED_MASK_def

subsection \<open>Classification\<close>

datatype NalFlags = NalFlags (nf_bits: u8)

definition nf_empty :: NalFlags where "nf_empty = NalFlags 0"
definition nf_sps :: "NalFlags \<Rightarrow> bool" where "nf_sps f \<longleftrightarrow> nf_bits f AND FLAG_SPS \<noteq> 0"
definition nf_pps :: "NalFlags \<Rightarrow> bool" where "nf_pps f \<longleftrightarrow> nf_bits f AND FLAG_PPS \<noteq> 0"
definition nf_idr :: "NalFlags \<Rightarrow> bool" where "nf_idr f \<longleftrightarrow> nf_bits f AND FLAG_IDR \<noteq> 0"

definition nf_set :: "u8 \<Rightarrow> NalFlags \<Rightarrow> NalFlags" where
  "nf_set flag f = NalFlags (nf_bits f OR flag)"

definition note_nalu_type :: "u8 \<Rightarrow> NalFlags \<Rightarrow> NalFlags" where
  "note_nalu_type nalu_type f =
     (if nalu_type = IDR_NALU_TYPE then nf_set FLAG_IDR f
      else if nalu_type = SPS_NALU_TYPE then nf_set FLAG_SPS f
      else if nalu_type = PPS_NALU_TYPE then nf_set FLAG_PPS f
      else f)"

definition single_nalu_type :: "u8 \<Rightarrow> bool" where
  "single_nalu_type t \<longleftrightarrow> 1 \<le> t \<and> t \<le> 23"

function classify_stapa :: "u8 list \<Rightarrow> nat \<Rightarrow> NalFlags \<Rightarrow> NalFlags" where
  "classify_stapa payload offset flags =
     (if offset + STAPA_NALU_LENGTH_SIZE \<le> length payload then
        case (get_at payload offset, get_at payload (offset + 1)) of
          (Some hi, Some lo) \<Rightarrow>
            let len = unat (be16 hi lo); offset = offset + STAPA_NALU_LENGTH_SIZE
            in if len = 0 \<or> offset + len > length payload then flags
               else (case get_at payload offset of
                 None \<Rightarrow> flags
               | Some nalu \<Rightarrow> classify_stapa payload (offset + len) (note_nalu_type (nalu AND NALU_TYPE_MASK) flags))
        | _ \<Rightarrow> flags
      else flags)"
  by pat_completeness auto
termination
  by (relation "measure (\<lambda>(payload, offset, flags). length payload - offset)")
    (auto simp: STAPA_NALU_LENGTH_SIZE_def)

definition classify :: "u8 list \<Rightarrow> NalFlags" where
  "classify payload =
     (case payload of
        [] \<Rightarrow> nf_empty
      | first # _ \<Rightarrow>
          let ty = first AND NALU_TYPE_MASK
          in if single_nalu_type ty then note_nalu_type ty nf_empty
             else if ty = STAPA_NALU_TYPE then classify_stapa payload STAPA_HEADER_SIZE nf_empty
             else if ty = FUA_NALU_TYPE \<or> ty = FUB_NALU_TYPE then
               let header_size = (if ty = FUA_NALU_TYPE then FUA_HEADER_SIZE else FUB_HEADER_SIZE)
               in if length payload < header_size then nf_empty
                  else (case get_at payload 1 of
                    None \<Rightarrow> nf_empty
                  | Some fu_header \<Rightarrow>
                      if fu_header AND FU_START_MASK \<noteq> 0
                      then note_nalu_type (fu_header AND NALU_TYPE_MASK) nf_empty else nf_empty)
             else nf_empty)"

subsection \<open>The depacketizer\<close>

datatype DepacketizationError =
    EmptyPayload
  | InvalidNalType u8
  | InvalidStapA
  | InvalidFuA
  | UnexpectedFuA
  | IncompleteFuA
  | UnexpectedFrameBoundary
  | AccessUnitTooLarge

record Depacketizer =
  dp_frame :: "u8 list"
  dp_fua :: "(u8 \<times> u8 list) option"
  dp_started :: bool
  dp_max_access_unit_size :: nat

definition h264_default :: Depacketizer where
  "h264_default =
     \<lparr>dp_frame = [], dp_fua = None, dp_started = False, dp_max_access_unit_size = MAX_ACCESS_UNIT_SIZE\<rparr>"

definition with_max_access_unit_size :: "nat \<Rightarrow> Depacketizer" where
  "with_max_access_unit_size n = h264_default\<lparr>dp_max_access_unit_size := max n 1\<rparr>"

definition depacketizer_reset :: "Depacketizer \<Rightarrow> Depacketizer" where
  "depacketizer_reset d = d\<lparr>dp_frame := [], dp_fua := None, dp_started := False\<rparr>"

definition ensure_capacity :: "nat \<Rightarrow> Depacketizer \<Rightarrow> DepacketizationError + unit" where
  "ensure_capacity additional d =
     (if length (dp_frame d) + additional > dp_max_access_unit_size d then Inl AccessUnitTooLarge else Inr ())"

function stapa_units :: "u8 list \<Rightarrow> nat \<Rightarrow> u8 list list \<Rightarrow> DepacketizationError + u8 list list" where
  "stapa_units payload offset units =
     (if offset < length payload then
        let length_end = offset + STAPA_NALU_LENGTH_SIZE
        in case get_range payload offset length_end of
             Some [hi, lo] \<Rightarrow>
               let len = unat (be16 hi lo); offset = length_end; unit_end = offset + len
               in (case get_range payload offset unit_end of
                     None \<Rightarrow> Inl InvalidStapA
                   | Some u \<Rightarrow>
                       (case u of
                          [] \<Rightarrow> Inl InvalidStapA
                        | header # _ \<Rightarrow>
                            if header AND 0x80 \<noteq> 0 \<or> \<not> single_nalu_type (header AND NALU_TYPE_MASK)
                            then Inl InvalidStapA
                            else stapa_units payload unit_end (units @ [u])))
           | _ \<Rightarrow> Inl InvalidStapA
      else Inr units)"
  by pat_completeness auto
termination
  by (relation "measure (\<lambda>(payload, offset, units). length payload - offset)")
    (auto simp: STAPA_NALU_LENGTH_SIZE_def)

definition push_fua :: "u8 list \<Rightarrow> u8 \<Rightarrow> Depacketizer \<Rightarrow> DepacketizationError + Depacketizer" where
  "push_fua payload indicator d =
     (case payload of
        _ # fu_header # body \<Rightarrow>
          let nalu_type = fu_header AND NALU_TYPE_MASK
          in if \<not> single_nalu_type nalu_type \<or> body = [] then Inl InvalidFuA
             else let is_start = fu_header AND FU_START_MASK \<noteq> 0; is_end = fu_header AND FU_END_MASK \<noteq> 0
             in if indicator AND 0x80 \<noteq> 0 \<or> fu_header AND FU_RESERVED_MASK \<noteq> 0 \<or> is_start \<and> is_end then Inl InvalidFuA
                else and_then
                  (if is_start then
                     if dp_fua d \<noteq> None then Inl InvalidFuA
                     else let header = (indicator AND 0xe0) OR nalu_type
                          in and_then (ensure_capacity (length ANNEX_B_START_CODE + 1 + length body) d) (\<lambda>_.
                             Inr (d\<lparr>dp_fua := Some (header, header # body)\<rparr>))
                   else (case dp_fua d of
                       None \<Rightarrow> Inl InvalidFuA
                     | Some (header, data) \<Rightarrow>
                         if header AND 0x1f \<noteq> nalu_type \<or> header AND 0xe0 \<noteq> indicator AND 0xe0 then Inl InvalidFuA
                         else if length (dp_frame d) + length ANNEX_B_START_CODE + length data + length body
                                   > dp_max_access_unit_size d
                         then Inl AccessUnitTooLarge
                         else Inr (d\<lparr>dp_fua := Some (header, data @ body)\<rparr>))) (\<lambda>d.
                   if is_end then
                     case dp_fua d of
                       None \<Rightarrow> Inl InvalidFuA
                     | Some (_, data) \<Rightarrow>
                         Inr (d\<lparr>dp_fua := None, dp_frame := dp_frame d @ ANNEX_B_START_CODE @ data\<rparr>)
                   else Inr d)
      | _ \<Rightarrow> Inl InvalidFuA)"

definition push_payload :: "u8 list \<Rightarrow> Depacketizer \<Rightarrow> DepacketizationError + Depacketizer" where
  "push_payload payload d =
     (case payload of
        [] \<Rightarrow> Inl EmptyPayload
      | indicator # _ \<Rightarrow>
          let ty = indicator AND NALU_TYPE_MASK
          in if single_nalu_type ty then
               if dp_fua d \<noteq> None \<or> indicator AND 0x80 \<noteq> 0 then Inl UnexpectedFuA
               else and_then (ensure_capacity (length ANNEX_B_START_CODE + length payload) d) (\<lambda>_.
                    Inr (d\<lparr>dp_frame := dp_frame d @ ANNEX_B_START_CODE @ payload\<rparr>))
             else if ty = STAPA_NALU_TYPE then
               if dp_fua d \<noteq> None \<or> indicator AND 0x80 \<noteq> 0 \<or> length payload < STAPA_HEADER_SIZE then Inl InvalidStapA
               else and_then (stapa_units payload STAPA_HEADER_SIZE []) (\<lambda>units.
                    if units = [] then Inl InvalidStapA
                    else and_then (ensure_capacity (sum_list (map (\<lambda>u. length ANNEX_B_START_CODE + length u) units)) d) (\<lambda>_.
                         Inr (d\<lparr>dp_frame := dp_frame d @ concat (map (\<lambda>u. ANNEX_B_START_CODE @ u) units)\<rparr>)))
             else if ty = FUA_NALU_TYPE then push_fua payload indicator d
             else if ty = FUB_NALU_TYPE then Inl InvalidFuA
             else Inl (InvalidNalType ty))"

text \<open>An error resets the depacketizer, whatever the payload had changed before.\<close>

definition dp_push :: "u8 list \<Rightarrow> bool \<Rightarrow> bool \<Rightarrow> Depacketizer \<Rightarrow>
    (DepacketizationError + u8 list option) \<times> Depacketizer" where
  "dp_push payload start_of_frame end_of_frame d =
     (if \<not> start_of_frame \<and> \<not> dp_started d then (Inl UnexpectedFrameBoundary, depacketizer_reset d)
      else let d = (if start_of_frame then (depacketizer_reset d)\<lparr>dp_started := True\<rparr> else d)
           in case push_payload payload d of
                Inl error \<Rightarrow> (Inl error, depacketizer_reset d)
              | Inr d \<Rightarrow>
                  if end_of_frame then
                    if dp_fua d \<noteq> None then (Inl IncompleteFuA, depacketizer_reset d)
                    else if dp_frame d = [] then (Inl EmptyPayload, depacketizer_reset d)
                    else (Inr (Some (dp_frame d)), d\<lparr>dp_frame := [], dp_started := False\<rparr>)
                  else (Inr None, d))"

subsection \<open>The packetizer\<close>

record PacketizedChunk =
  pc_payload :: "u8 list"
  pc_start_of_frame :: bool
  pc_end_of_frame :: bool

record Packetizer =
  pk_mtu :: nat

definition h264_packetizer_new :: "nat \<Rightarrow> Packetizer" where
  "h264_packetizer_new mtu = \<lparr>pk_mtu = max mtu (FUA_HEADER_SIZE + 1)\<rparr>"

function annex_b_starts :: "u8 list \<Rightarrow> nat \<Rightarrow> (nat \<times> nat) list" where
  "annex_b_starts au i =
     (if i + 3 < length au then
        (case (case (get_at au i, get_at au (i + 1), get_at au (i + 2), get_at au (i + 3)) of
                (Some a, Some b, Some c, d) \<Rightarrow>
                  if a = 0 \<and> b = 0 \<and> c = 1 then Some (i + 3)
                  else if a = 0 \<and> b = 0 \<and> c = 0 \<and> d = Some 1 then Some (i + 4)
                  else None
              | _ \<Rightarrow> None) of
           Some start \<Rightarrow> (i, start) # annex_b_starts au start
         | None \<Rightarrow> annex_b_starts au (i + 1))
      else [])"
  by pat_completeness auto
termination
  by (relation "measure (\<lambda>(au, i). length au - i)") (auto split: option.splits if_splits)

definition annex_b_nalus :: "u8 list \<Rightarrow> u8 list list" where
  "annex_b_nalus au =
     (let starts = annex_b_starts au 0
      in List.map_filter (\<lambda>(index, (_, start)).
           let end = (case get_at starts (index + 1) of Some (nxt, _) \<Rightarrow> nxt | None \<Rightarrow> length au)
           in case get_range au start end of
                Some nalu \<Rightarrow> if nalu \<noteq> [] then Some nalu else None
              | None \<Rightarrow> None) (enumerate 0 starts))"

definition fua_fragment :: "nat \<Rightarrow> nat \<Rightarrow> u8 \<Rightarrow> u8 list \<Rightarrow> nat \<Rightarrow> u8 list option" where
  "fua_fragment fragment_payload fragments header body fragment_index =
     (let start = fragment_index * fragment_payload;
          end = min ((fragment_index + 1) * fragment_payload) (length body);
          start_fragment = (fragment_index = 0);
          end_fragment = (fragment_index + 1 = fragments)
      in map_option (\<lambda>fragment.
           [(header AND 0xe0) OR FUA_NALU_TYPE,
            (header AND NALU_TYPE_MASK) OR (if start_fragment then FU_START_MASK else 0)
              OR (if end_fragment then FU_END_MASK else 0)] @ fragment) (get_range body start end))"

definition nalu_payloads :: "nat \<Rightarrow> u8 list \<Rightarrow> u8 list list" where
  "nalu_payloads mtu nalu =
     (if length nalu \<le> mtu then [nalu]
      else case nalu of
        [] \<Rightarrow> []
      | header # body \<Rightarrow>
          let fragment_payload = max (mtu - FUA_HEADER_SIZE) 1;
              fragments = (length body + fragment_payload - 1) div fragment_payload
          in List.map_filter (fua_fragment fragment_payload fragments header body) [0..<fragments])"

definition mark_first :: "PacketizedChunk list \<Rightarrow> PacketizedChunk list" where
  "mark_first cs = (case cs of [] \<Rightarrow> [] | c # cs \<Rightarrow> c\<lparr>pc_start_of_frame := True\<rparr> # cs)"

definition mark_last :: "PacketizedChunk list \<Rightarrow> PacketizedChunk list" where
  "mark_last cs = (if cs = [] then [] else butlast cs @ [(last cs)\<lparr>pc_end_of_frame := True\<rparr>])"

definition h264_packetize :: "Packetizer \<Rightarrow> u8 list \<Rightarrow> PacketizedChunk list" where
  "h264_packetize p au =
     mark_last (mark_first (map (\<lambda>x. \<lparr>pc_payload = x, pc_start_of_frame = False, pc_end_of_frame = False\<rparr>)
       (concat (map (nalu_payloads (pk_mtu p)) (annex_b_nalus au)))))"

declare classify_stapa.simps [simp del] stapa_units.simps [simp del] annex_b_starts.simps [simp del]

subsection \<open>Annex B\<close>

text \<open>
  An access unit in Annex B form: every NAL unit behind a start code of four bytes.  A unit in it is not
  empty, has the forbidden bit clear and a type from 1 to 23, and does not contain the three bytes that
  end a start code.
\<close>

definition annex_b :: "u8 list list \<Rightarrow> u8 list" where
  "annex_b ns = concat (map (\<lambda>n. ANNEX_B_START_CODE @ n) ns)"

fun no_start_code :: "u8 list \<Rightarrow> bool" where
  "no_start_code (a # b # c # s) \<longleftrightarrow> \<not> (a = 0 \<and> b = 0 \<and> c = 1) \<and> no_start_code (b # c # s)"
| "no_start_code s \<longleftrightarrow> True"

definition nalu_ok :: "u8 list \<Rightarrow> bool" where
  "nalu_ok n \<longleftrightarrow> n \<noteq> [] \<and> hd n AND 0x80 = 0 \<and> single_nalu_type (hd n AND NALU_TYPE_MASK) \<and> no_start_code n"

lemma annex_b_simps [simp]: "annex_b [] = []" "annex_b (n # ns) = 0 # 0 # 0 # 1 # n @ annex_b ns"
  by (simp_all add: annex_b_def ANNEX_B_START_CODE_def)

definition start_code_at :: "u8 list \<Rightarrow> nat option" where
  "start_code_at s = (case s of a # b # c # d # _ \<Rightarrow>
     if a = 0 \<and> b = 0 \<and> c = 1 then Some 3
     else if a = 0 \<and> b = 0 \<and> c = 0 \<and> d = 1 then Some 4 else None | _ \<Rightarrow> None)"

lemma annex_b_starts_step:
  "annex_b_starts au i =
     (if i + 3 < length au then
        case start_code_at (drop i au) of
          Some k \<Rightarrow> (i, i + k) # annex_b_starts au (i + k)
        | None \<Rightarrow> annex_b_starts au (i + 1)
      else [])"
proof (cases "i + 3 < length au")
  case True
  then have "4 \<le> length (drop i au)" by simp
  then obtain a b c d t where s: "drop i au = a # b # c # d # t"
    using four_bytes by fastforce
  have "au ! i = a" "au ! (i + 1) = b" "au ! (i + 2) = c" "au ! (i + 3) = d"
    using s True nth_drop [of i au 0] nth_drop [of i au 1] nth_drop [of i au 2] nth_drop [of i au 3] by simp_all
  then show ?thesis using True s
    by (subst annex_b_starts.simps) (simp add: get_at_def start_code_at_def)
qed (simp add: annex_b_starts.simps)

lemma no_start_code_inside:
  assumes "no_start_code (x # n)"
  shows "start_code_at (x # n @ annex_b ns) = None"
proof -
  show ?thesis
    using assms by (cases n; cases "tl n"; cases "tl (tl n)"; cases ns) (auto simp: start_code_at_def)
qed

lemma scan_nalu:
  "no_start_code n \<Longrightarrow> drop i au = n @ annex_b ns \<Longrightarrow> annex_b_starts au i = annex_b_starts au (i + length n)"
proof (induction n arbitrary: i)
  case (Cons x n)
  have d: "drop (Suc i) au = n @ annex_b ns" using arg_cong [OF Cons.prems(2), of tl] by (simp add: drop_Suc tl_drop)
  have "no_start_code n" using Cons.prems(1) by (cases n rule: no_start_code.cases) auto
  then have IH: "annex_b_starts au (Suc i) = annex_b_starts au (Suc i + length n)" using Cons.IH d by blast
  show ?case
  proof (cases "i + 3 < length au")
    case True
    then show ?thesis using no_start_code_inside [OF Cons.prems(1)] Cons.prems(2) IH
      by (subst annex_b_starts_step) simp
  next
    case False
    then show ?thesis by (subst (1 2) annex_b_starts_step) simp
  qed
qed simp

fun positions :: "nat \<Rightarrow> u8 list list \<Rightarrow> (nat \<times> nat) list" where
  "positions p [] = []"
| "positions p (n # ns) = (p, p + 4) # positions (p + 4 + length n) ns"

lemma annex_b_starts_positions:
  "list_all no_start_code ns \<Longrightarrow> drop i au = annex_b ns \<Longrightarrow> annex_b_starts au i = positions i ns"
proof (induction ns arbitrary: i)
  case Nil
  then show ?case by (subst annex_b_starts_step) simp
next
  case (Cons n ns)
  have l: "i + 3 < length au" using arg_cong [OF Cons.prems(2), of length] by simp
  have d4: "drop (i + 4) au = n @ annex_b ns"
    using arg_cong [OF Cons.prems(2), of "drop 4"] by (simp add: add.commute)
  have dn: "drop (i + 4 + length n) au = annex_b ns"
    using arg_cong [OF d4, of "drop (length n)"] by (simp add: add.commute)
  have "annex_b_starts au i = (i, i + 4) # annex_b_starts au (i + 4)"
    using l Cons.prems(2) by (subst annex_b_starts_step) (simp add: start_code_at_def)
  also have "annex_b_starts au (i + 4) = annex_b_starts au (i + 4 + length n)"
    using Cons.prems(1) d4 by (intro scan_nalu) auto
  also have "\<dots> = positions (i + 4 + length n) ns" using Cons.prems(1) dn by (intro Cons.IH) auto
  finally show ?case by simp
qed

fun cut :: "u8 list \<Rightarrow> (nat \<times> nat) list \<Rightarrow> u8 list option list" where
  "cut au [] = []"
| "cut au [(_, s)] = [get_range au s (length au)]"
| "cut au ((_, s) # (nx, t) # r) = get_range au s nx # cut au ((nx, t) # r)"

lemma cut_enumerate:
  "map (\<lambda>(index, (_, start)). get_range au start (case get_at (xs @ ys) (index + 1) of Some (nxt, _) \<Rightarrow> nxt | None \<Rightarrow> length au))
     (enumerate (length xs) ys) = cut au ys"
proof (induction au ys arbitrary: xs rule: cut.induct)
  case (3 au p s nx t r)
  show ?case using 3 [of "xs @ [(p, s)]"] by (simp add: get_at_def nth_append)
qed (auto simp: get_at_def nth_append)

lemma cut_positions:
  "drop i au = annex_b ns \<Longrightarrow> cut au (positions i ns) = map Some ns"
proof (induction ns arbitrary: i)
  case (Cons n ns)
  have d4: "drop (i + 4) au = n @ annex_b ns"
    using arg_cong [OF Cons.prems, of "drop 4"] by (simp add: add.commute)
  have dn: "drop (i + 4 + length n) au = annex_b ns"
    using arg_cong [OF d4, of "drop (length n)"] by (simp add: add.commute)
  have l: "length au = i + 4 + length n + length (annex_b ns)"
    using arg_cong [OF Cons.prems, of length] by simp
  have g: "get_range au (i + 4) (i + 4 + length n) = Some n" using d4 l by (simp add: get_range_def)
  show ?case using Cons.IH [OF dn] g l by (cases ns) simp_all
qed simp

lemma annex_b_nalus_exact:
  assumes "list_all nalu_ok ns"
  shows "annex_b_nalus (annex_b ns) = ns"
proof -
  let ?au = "annex_b ns" and ?p = "positions 0 ns"
  let ?g = "\<lambda>(index, (_, start)). get_range ?au start (case get_at ?p (index + 1) of Some (nxt, _) \<Rightarrow> nxt | None \<Rightarrow> length ?au)"
  let ?ne = "\<lambda>v. case v of Some nalu \<Rightarrow> if nalu \<noteq> [] then Some nalu else None | None \<Rightarrow> None"
  have "list_all no_start_code ns" using assms by (auto simp: list_all_iff nalu_ok_def)
  then have "annex_b_starts ?au 0 = ?p" by (intro annex_b_starts_positions) simp_all
  then have "annex_b_nalus ?au = List.map_filter (\<lambda>x. ?ne (?g x)) (enumerate 0 ?p)"
    by (simp add: annex_b_nalus_def Let_def case_prod_unfold)
  also have "\<dots> = List.map_filter ?ne (map ?g (enumerate 0 ?p))"
    by (simp add: List.map_filter_def filter_map o_def)
  also have "map ?g (enumerate 0 ?p) = map Some ns"
    using cut_enumerate [of ?au "[]" ?p] cut_positions [of 0 ?au ns] by simp
  also have "List.map_filter ?ne (map Some ns) = ns"
    using assms by (induction ns) (auto simp: List.map_filter_def nalu_ok_def)
  finally show ?thesis .
qed

subsection \<open>Fragmentation units\<close>

definition fu_indicator :: "u8 \<Rightarrow> u8" where
  "fu_indicator h = (h AND 0xe0) OR FUA_NALU_TYPE"

definition fu_header :: "u8 \<Rightarrow> bool \<Rightarrow> bool \<Rightarrow> u8" where
  "fu_header h s e = (h AND NALU_TYPE_MASK) OR (if s then FU_START_MASK else 0) OR (if e then FU_END_MASK else 0)"

lemma byte_flag: "((b :: u8) AND 0x80 = 0) = (\<not> bit b 7)" "(b AND 0x40 = 0) = (\<not> bit b 6)" "(b AND 0x20 = 0) = (\<not> bit b 5)"
  by (simp_all add: bit_iff_and_push_bit_not_eq_0)

lemma fu_indicator_bits:
  "fu_indicator h AND NALU_TYPE_MASK = FUA_NALU_TYPE" "(fu_indicator h AND 0x80 = 0) = (h AND 0x80 = 0)"
  "fu_indicator h AND 0xe0 = h AND 0xe0"
proof -
  show "fu_indicator h AND NALU_TYPE_MASK = FUA_NALU_TYPE" "fu_indicator h AND 0xe0 = h AND 0xe0"
    unfolding fu_indicator_def nalu_consts by (rule byte_eqI; simp add: byte_bits)+
  show "(fu_indicator h AND 0x80 = 0) = (h AND 0x80 = 0)"
    unfolding fu_indicator_def nalu_consts byte_flag by (simp add: byte_bits)
qed

lemma fu_header_bits:
  "fu_header h s e AND NALU_TYPE_MASK = h AND NALU_TYPE_MASK" "(fu_header h s e AND FU_START_MASK \<noteq> 0) = s"
  "(fu_header h s e AND FU_END_MASK \<noteq> 0) = e" "fu_header h s e AND FU_RESERVED_MASK = 0"
  "(h AND 0xe0) OR (h AND NALU_TYPE_MASK) = h"
proof -
  show "fu_header h s e AND NALU_TYPE_MASK = h AND NALU_TYPE_MASK"
    unfolding fu_header_def nalu_consts by (rule byte_eqI) (simp_all add: byte_bits)
  show "(fu_header h s e AND FU_START_MASK \<noteq> 0) = s" "(fu_header h s e AND FU_END_MASK \<noteq> 0) = e"
    "fu_header h s e AND FU_RESERVED_MASK = 0"
    unfolding fu_header_def nalu_consts byte_flag by (simp_all add: byte_bits)
  show "(h AND 0xe0) OR (h AND NALU_TYPE_MASK) = h"
    unfolding nalu_consts by (rule byte_eqI) (simp_all add: byte_bits)
qed

lemma fua_not_single: "\<not> single_nalu_type FUA_NALU_TYPE" "FUA_NALU_TYPE \<noteq> STAPA_NALU_TYPE"
  by (simp_all add: single_nalu_type_def nalu_consts)

text \<open>The part of a unit that the first \<open>k\<close> fragments carry, and the effect of the next fragment.\<close>

lemma push_fragment:
  assumes "h AND 0x80 = 0" "single_nalu_type (h AND NALU_TYPE_MASK)" "x \<noteq> []" "\<not> (s \<and> e)"
    and "dp_fua d = (if s then None else Some (h, h # y))" "s \<Longrightarrow> y = []"
    and "length (dp_frame d) + 5 + length y + length x \<le> dp_max_access_unit_size d"
  shows "push_payload ([fu_indicator h, fu_header h s e] @ x) d =
    Inr (if e then d\<lparr>dp_fua := None, dp_frame := dp_frame d @ ANNEX_B_START_CODE @ h # y @ x\<rparr>
         else d\<lparr>dp_fua := Some (h, h # y @ x)\<rparr>)"
proof -
  have "push_payload ([fu_indicator h, fu_header h s e] @ x) d = push_fua ([fu_indicator h, fu_header h s e] @ x) (fu_indicator h) d"
    using fua_not_single by (simp add: push_payload_def fu_indicator_bits)
  also have "\<dots> = Inr (if e then d\<lparr>dp_fua := None, dp_frame := dp_frame d @ ANNEX_B_START_CODE @ h # y @ x\<rparr>
         else d\<lparr>dp_fua := Some (h, h # y @ x)\<rparr>)"
  proof (cases s)
    case True
    then show ?thesis using assms
      by (simp add: push_fua_def fu_header_bits fu_indicator_bits ensure_capacity_def ANNEX_B_START_CODE_def Let_def)
  next
    case False
    have "h AND 0x1f = h AND NALU_TYPE_MASK" by (simp add: nalu_consts)
    then show ?thesis using assms False
      by (simp add: push_fua_def fu_header_bits fu_indicator_bits ANNEX_B_START_CODE_def Let_def)
  qed
  finally show ?thesis .
qed

fun push_payloads :: "u8 list list \<Rightarrow> Depacketizer \<Rightarrow> DepacketizationError + Depacketizer" where
  "push_payloads [] d = Inr d"
| "push_payloads (p # ps) d = and_then (push_payload p d) (push_payloads ps)"

lemma push_payloads_append: "push_payloads (ps @ qs) d = and_then (push_payloads ps d) (push_payloads qs)"
  by (induction ps arbitrary: d) (simp_all add: and_then_assoc cong: and_then_cong)

text \<open>The number of fragments of \<open>f\<close> bytes.\<close>

lemma fragments_bounds:
  fixes n f :: nat
  assumes "0 < f" "f < n"
  defines "F \<equiv> (n + f - 1) div f"
  shows "2 \<le> F" "n \<le> F * f" "k < F \<Longrightarrow> k * f < n"
proof -
  have n: "n \<le> F * f"
  proof -
    have "n + f - 1 < (F + 1) * f" unfolding F_def using assms(1)
      by (metis Suc_eq_plus1 div_less_iff_less_mult lessI)
    then show ?thesis using assms(1) by simp
  qed
  show "n \<le> F * f" by (rule n)
  have "\<not> F \<le> 1"
  proof
    assume "F \<le> 1"
    then have "F * f \<le> 1 * f" by (rule mult_le_mono1)
    with n assms(2) show False by simp
  qed
  then show "2 \<le> F" by simp
  assume "k < F"
  then have "Suc k * f \<le> F * f" by (intro mult_le_mono1) simp
  also have "F * f \<le> n + f - 1" unfolding F_def by (rule div_times_less_eq_dividend)
  finally show "k * f < n" using assms(1, 2) by simp
qed

definition fragment :: "nat \<Rightarrow> nat \<Rightarrow> u8 \<Rightarrow> u8 list \<Rightarrow> nat \<Rightarrow> u8 list" where
  "fragment f F h body k = [fu_indicator h, fu_header h (k = 0) (k + 1 = F)] @ take f (drop (k * f) body)"

lemma fua_fragment_eq:
  "k * f < length body \<Longrightarrow> fua_fragment f F h body k = Some (fragment f F h body k)"
proof -
  assume k: "k * f < length body"
  have "take (min ((k + 1) * f) (length body) - k * f) (drop (k * f) body) = take f (drop (k * f) body)"
  proof (cases "(k + 1) * f \<le> length body")
    case True then show ?thesis by (simp add: min_def)
  next
    case False
    then have "length (drop (k * f) body) \<le> f" by simp
    then show ?thesis using False k by (simp add: min_def)
  qed
  then show ?thesis using k
    by (simp add: fua_fragment_def fragment_def get_range_def Let_def fu_indicator_def fu_header_def)
qed

lemma push_fragments:
  assumes "h AND 0x80 = 0" "single_nalu_type (h AND NALU_TYPE_MASK)" "0 < f" "f < length body"
    and F: "F = (length body + f - 1) div f"
    and cap: "length (dp_frame d) + 5 + length body \<le> dp_max_access_unit_size d"
  shows "k < F \<Longrightarrow> dp_fua d = (if k = 0 then None else Some (h, h # take (k * f) body)) \<Longrightarrow>
    push_payloads (map (fragment f F h body) [k..<F]) d =
      Inr (d\<lparr>dp_fua := None, dp_frame := dp_frame d @ ANNEX_B_START_CODE @ h # body\<rparr>)"
  using cap
proof (induction "F - k" arbitrary: k d)
  case (Suc n)
  note b = fragments_bounds [OF assms(3, 4), folded F]
  let ?x = "take f (drop (k * f) body)" and ?y = "take (k * f) body"
  have up: "[k..<F] = k # [k + 1..<F]" using Suc(3) by (simp add: upt_conv_Cons)
  have xy: "?y @ ?x = take ((k + 1) * f) body" using take_add [of "k * f" f body] by (simp add: add.commute)
  have "length ?y + length ?x \<le> length body" using b(3) [OF Suc(3)] by simp
  then have p: "push_payload (fragment f F h body k) d =
      Inr (if k + 1 = F then d\<lparr>dp_fua := None, dp_frame := dp_frame d @ ANNEX_B_START_CODE @ h # ?y @ ?x\<rparr>
         else d\<lparr>dp_fua := Some (h, h # ?y @ ?x)\<rparr>)"
    unfolding fragment_def using Suc(3, 4, 5) b(1) b(3) [OF Suc(3)] assms(1, 2, 3)
    by (intro push_fragment) auto
  show ?case
  proof (cases "k + 1 = F")
    case True
    then have "take ((k + 1) * f) body = body" using b(2) by simp
    then show ?thesis using p True xy up by simp
  next
    case False
    let ?d = "d\<lparr>dp_fua := Some (h, h # take ((k + 1) * f) body)\<rparr>"
    have "push_payloads (map (fragment f F h body) [k + 1..<F]) ?d =
        Inr (?d\<lparr>dp_fua := None, dp_frame := dp_frame ?d @ ANNEX_B_START_CODE @ h # body\<rparr>)"
      using Suc False by (intro Suc(1)) auto
    then show ?thesis using p False xy up by simp
  qed
qed simp

subsection \<open>Packetizing and depacketizing\<close>

lemma map_filter_Some: "(\<And>x. x \<in> set xs \<Longrightarrow> f x = Some (g x)) \<Longrightarrow> List.map_filter f xs = map g xs"
  by (induction xs) (auto simp: List.map_filter_def)

lemma nalu_payloads_eq:
  assumes "3 \<le> mtu" "mtu < length (h # body)"
  defines "F \<equiv> (length body + (mtu - 2) - 1) div (mtu - 2)"
  shows "nalu_payloads mtu (h # body) = map (fragment (mtu - 2) F h body) [0..<F]" "2 \<le> F"
proof -
  have f: "0 < mtu - 2" "mtu - 2 < length body" "max (mtu - 2) 1 = mtu - 2" using assms(1, 2) by auto
  note b = fragments_bounds [OF f(1, 2), folded F_def]
  have "List.map_filter (fua_fragment (mtu - 2) F h body) [0..<F] = map (fragment (mtu - 2) F h body) [0..<F]"
    using b(3) by (intro map_filter_Some fua_fragment_eq) auto
  then show "nalu_payloads mtu (h # body) = map (fragment (mtu - 2) F h body) [0..<F]"
    using assms(2) f(3) by (simp add: nalu_payloads_def FUA_HEADER_SIZE_def Let_def F_def)
  show "2 \<le> F" by (rule b(1))
qed

lemma nalu_payloads_mtu:
  assumes "3 \<le> mtu"
  shows "list_all (\<lambda>p. length p \<le> mtu) (nalu_payloads mtu n)" and "n \<noteq> [] \<Longrightarrow> nalu_payloads mtu n \<noteq> []"
proof -
  have "list_all (\<lambda>p. length p \<le> mtu) (nalu_payloads mtu n) \<and> (n \<noteq> [] \<longrightarrow> nalu_payloads mtu n \<noteq> [])"
  proof (cases "length n \<le> mtu")
    case True then show ?thesis by (simp add: nalu_payloads_def)
  next
    case False
    then obtain h body where n: "n = h # body" by (cases n) auto
    show ?thesis using nalu_payloads_eq [of mtu h body] assms False
      by (auto simp: n list_all_iff fragment_def)
  qed
  then show "list_all (\<lambda>p. length p \<le> mtu) (nalu_payloads mtu n)" and "n \<noteq> [] \<Longrightarrow> nalu_payloads mtu n \<noteq> []" by auto
qed

lemma push_nalu:
  assumes "nalu_ok n" "3 \<le> mtu" "dp_fua d = None"
    and "length (dp_frame d) + 4 + length n \<le> dp_max_access_unit_size d"
  shows "push_payloads (nalu_payloads mtu n) d = Inr (d\<lparr>dp_frame := dp_frame d @ ANNEX_B_START_CODE @ n\<rparr>)"
proof -
  obtain h body where n: "n = h # body" using assms(1) by (cases n) (auto simp: nalu_ok_def)
  show ?thesis
  proof (cases "length n \<le> mtu")
    case True
    then show ?thesis using assms
      by (simp add: nalu_payloads_def push_payload_def n nalu_ok_def ensure_capacity_def ANNEX_B_START_CODE_def Let_def)
  next
    case False
    let ?f = "mtu - 2"
    have f: "0 < ?f" "?f < length body" using False assms(2) n by auto
    have "push_payloads (nalu_payloads mtu n) d =
        Inr (d\<lparr>dp_fua := None, dp_frame := dp_frame d @ ANNEX_B_START_CODE @ h # body\<rparr>)"
      unfolding n nalu_payloads_eq(1) [OF assms(2) False [unfolded n not_le]]
      using assms nalu_payloads_eq(2) [OF assms(2) False [unfolded n not_le]] n
      by (intro push_fragments [OF _ _ f refl]) (auto simp: nalu_ok_def)
    then show ?thesis using assms(3) n by (cases d) simp
  qed
qed

lemma push_nalus:
  "list_all nalu_ok ns \<Longrightarrow> 3 \<le> mtu \<Longrightarrow> dp_fua d = None \<Longrightarrow>
   length (dp_frame d) + length (annex_b ns) \<le> dp_max_access_unit_size d \<Longrightarrow>
   push_payloads (concat (map (nalu_payloads mtu) ns)) d = Inr (d\<lparr>dp_frame := dp_frame d @ annex_b ns\<rparr>)"
proof (induction ns arbitrary: d)
  case (Cons n ns)
  let ?d = "d\<lparr>dp_frame := dp_frame d @ ANNEX_B_START_CODE @ n\<rparr>"
  have "push_payloads (nalu_payloads mtu n) d = Inr ?d" using Cons.prems by (intro push_nalu) auto
  moreover have "push_payloads (concat (map (nalu_payloads mtu) ns)) ?d = Inr (?d\<lparr>dp_frame := dp_frame ?d @ annex_b ns\<rparr>)"
    using Cons.prems by (intro Cons.IH) (auto simp: ANNEX_B_START_CODE_def)
  ultimately show ?case by (simp add: push_payloads_append ANNEX_B_START_CODE_def)
qed simp

text \<open>The chunks of a frame, pushed one after the other.\<close>

fun push_chunks :: "PacketizedChunk list \<Rightarrow> Depacketizer \<Rightarrow>
    (DepacketizationError + u8 list option) list \<times> Depacketizer" where
  "push_chunks [] d = ([], d)"
| "push_chunks (c # cs) d =
     (let (r, d) = dp_push (pc_payload c) (pc_start_of_frame c) (pc_end_of_frame c) d;
          (rs, d) = push_chunks cs d
      in (r # rs, d))"

abbreviation plain_chunk :: "u8 list \<Rightarrow> PacketizedChunk" where
  "plain_chunk x \<equiv> \<lparr>pc_payload = x, pc_start_of_frame = False, pc_end_of_frame = False\<rparr>"

lemma push_payload_started:
  "push_payload p d = Inr d' \<Longrightarrow> dp_started d' = dp_started d \<and> dp_max_access_unit_size d' = dp_max_access_unit_size d"
  by (auto simp: push_payload_def push_fua_def Let_def and_then_Inr_iff split: list.splits if_splits option.splits prod.splits)

lemma mark_last_Cons: "cs \<noteq> [] \<Longrightarrow> mark_last (c # cs) = c # mark_last cs"
  by (simp add: mark_last_def)

lemma mark_last_mark_first: "cs \<noteq> [] \<Longrightarrow> mark_last (mark_first cs) = mark_first (mark_last cs)"
  by (cases cs) (auto simp: mark_last_def mark_first_def)

lemma mark_payloads: "map pc_payload (mark_first cs) = map pc_payload cs" "map pc_payload (mark_last cs) = map pc_payload cs"
  by (cases cs; simp add: mark_first_def) (cases cs rule: rev_cases; simp add: mark_last_def)

lemma push_chunks_first:
  "cs \<noteq> [] \<Longrightarrow> \<not> pc_start_of_frame (hd cs) \<Longrightarrow>
   push_chunks (mark_first cs) d = push_chunks cs ((depacketizer_reset d)\<lparr>dp_started := True\<rparr>)"
  by (cases cs) (auto simp: mark_first_def dp_push_def Let_def)

lemma push_chunks_last:
  "ps \<noteq> [] \<Longrightarrow> dp_started d \<Longrightarrow> push_payloads ps d = Inr d' \<Longrightarrow> dp_fua d' = None \<Longrightarrow> dp_frame d' \<noteq> [] \<Longrightarrow>
   push_chunks (mark_last (map plain_chunk ps)) d =
     (replicate (length ps - 1) (Inr None) @ [Inr (Some (dp_frame d'))], d'\<lparr>dp_frame := [], dp_started := False\<rparr>)"
proof (induction ps arbitrary: d)
  case (Cons p ps)
  obtain d1 where d1: "push_payload p d = Inr d1" "push_payloads ps d1 = Inr d'"
    using Cons.prems(3) by (auto simp: and_then_Inr_iff)
  have st: "dp_started d1" using push_payload_started [OF d1(1)] Cons.prems(2) by simp
  show ?case
  proof (cases "ps = []")
    case True
    then show ?thesis using d1 Cons.prems by (simp add: mark_last_def dp_push_def)
  next
    case False
    have "push_chunks (mark_last (map plain_chunk ps)) d1 =
        (replicate (length ps - 1) (Inr None) @ [Inr (Some (dp_frame d'))], d'\<lparr>dp_frame := [], dp_started := False\<rparr>)"
      using Cons.IH [OF False st d1(2)] Cons.prems(4, 5) by blast
    then show ?thesis using d1(1) Cons.prems(2) False
      by (cases ps) (simp_all add: mark_last_Cons dp_push_def)
  qed
qed simp

text \<open>
  C12. What the packetizer sends, the depacketizer rebuilds: an access unit of well-formed NAL units that
  fits the depacketizer's limit comes back byte for byte with its last chunk, every chunk before it is
  accepted without output, whatever state the depacketizer was in, and no payload exceeds the MTU.
\<close>

theorem h264_roundtrip:
  assumes "list_all nalu_ok ns" and "ns \<noteq> []" and "3 \<le> mtu" and "length (annex_b ns) \<le> dp_max_access_unit_size d"
    and cs: "cs = h264_packetize (h264_packetizer_new mtu) (annex_b ns)"
  shows "fst (push_chunks cs d) = replicate (length cs - 1) (Inr None) @ [Inr (Some (annex_b ns))] \<and>
    list_all (\<lambda>c. length (pc_payload c) \<le> mtu) cs"
proof -
  define ps where "ps = concat (map (nalu_payloads mtu) ns)"
  let ?d = "(depacketizer_reset d)\<lparr>dp_started := True\<rparr>"
  have m: "pk_mtu (h264_packetizer_new mtu) = mtu" using assms(3) by (simp add: h264_packetizer_new_def FUA_HEADER_SIZE_def)
  have ne: "ps \<noteq> []"
    using assms(1, 2) nalu_payloads_mtu(2) [OF assms(3)] by (cases ns) (auto simp: ps_def nalu_ok_def)
  have c: "cs = mark_first (mark_last (map plain_chunk ps))"
    using ne by (simp add: cs h264_packetize_def m annex_b_nalus_exact [OF assms(1)] ps_def [symmetric] mark_last_mark_first)
  have "push_payloads ps ?d = Inr (?d\<lparr>dp_frame := dp_frame ?d @ annex_b ns\<rparr>)"
    unfolding ps_def using assms by (intro push_nalus) (auto simp: depacketizer_reset_def)
  then have "push_chunks (mark_last (map plain_chunk ps)) ?d =
      (replicate (length ps - 1) (Inr None) @ [Inr (Some (annex_b ns))], ?d\<lparr>dp_frame := [], dp_started := False\<rparr>)"
    using push_chunks_last [OF ne, of ?d] assms(2) by (cases ns) (auto simp: depacketizer_reset_def)
  moreover have "\<not> pc_start_of_frame (hd (mark_last (map plain_chunk ps)))" "mark_last (map plain_chunk ps) \<noteq> []"
    using ne by (cases ps; auto simp: mark_last_def hd_append)+
  moreover have pay: "map pc_payload cs = ps"
    by (simp add: c mark_payloads o_def)
  then have "length cs = length ps" by (metis length_map)
  ultimately have "fst (push_chunks cs d) = replicate (length cs - 1) (Inr None) @ [Inr (Some (annex_b ns))]"
    by (simp add: c push_chunks_first)
  moreover have "list_all (\<lambda>p. length p \<le> mtu) ps"
    using nalu_payloads_mtu(1) [OF assms(3)] by (auto simp: ps_def list_all_iff)
  ultimately show ?thesis using pay by (auto simp: list_all_iff)
qed

subsection \<open>What the depacketizer holds and what the classifier sees\<close>

definition unit_type :: "u8 list \<Rightarrow> u8" where
  "unit_type u = hd u AND NALU_TYPE_MASK"

definition unit_ok :: "u8 list \<Rightarrow> bool" where
  "unit_ok u \<longleftrightarrow> u \<noteq> [] \<and> hd u AND 0x80 = 0 \<and> single_nalu_type (unit_type u)"

text \<open>The frame under construction is the Annex B form of the units \<open>us\<close>; a fragmented unit is pending.\<close>

definition dp_units :: "Depacketizer \<Rightarrow> u8 list list \<Rightarrow> bool" where
  "dp_units d us \<longleftrightarrow> dp_frame d = annex_b us \<and> list_all unit_ok us \<and>
     (case dp_fua d of None \<Rightarrow> True | Some (h, data) \<Rightarrow> unit_ok data \<and> hd data = h)"

definition dp_held :: "Depacketizer \<Rightarrow> nat" where
  "dp_held d = length (dp_frame d) + (case dp_fua d of None \<Rightarrow> 0 | Some (_, data) \<Rightarrow> 4 + length data)"

definition held_types :: "Depacketizer \<Rightarrow> u8 list list \<Rightarrow> u8 set" where
  "held_types d us = unit_type ` set us \<union> (case dp_fua d of None \<Rightarrow> {} | Some (h, _) \<Rightarrow> {h AND NALU_TYPE_MASK})"

definition switch_types :: "u8 set" where
  "switch_types = {IDR_NALU_TYPE, SPS_NALU_TYPE, PPS_NALU_TYPE}"

definition nal_types :: "NalFlags \<Rightarrow> u8 set" where
  "nal_types f = {t. t = IDR_NALU_TYPE \<and> nf_idr f \<or> t = SPS_NALU_TYPE \<and> nf_sps f \<or> t = PPS_NALU_TYPE \<and> nf_pps f}"

lemma nal_types_empty: "nal_types nf_empty = {}"
  by (simp add: nal_types_def nf_empty_def nf_idr_def nf_sps_def nf_pps_def)

lemma nal_types_note: "nal_types (note_nalu_type t f) = nal_types f \<union> ({t} \<inter> switch_types)"
proof -
  have b: "(w AND FLAG_SPS \<noteq> 0) = bit w 0" "(w AND FLAG_PPS \<noteq> 0) = bit w 1" "(w AND FLAG_IDR \<noteq> 0) = bit w 2" for w :: u8
    by (simp_all add: FLAG_SPS_def FLAG_PPS_def FLAG_IDR_def bit_iff_and_push_bit_not_eq_0)
  have "bit FLAG_IDR 2" "\<not> bit FLAG_IDR 1" "\<not> bit FLAG_IDR 0" "bit FLAG_PPS 1" "\<not> bit FLAG_PPS 2" "\<not> bit FLAG_PPS 0"
    "bit FLAG_SPS 0" "\<not> bit FLAG_SPS 1" "\<not> bit FLAG_SPS 2"
    by (simp_all add: FLAG_SPS_def FLAG_PPS_def FLAG_IDR_def)
  moreover have "IDR_NALU_TYPE \<noteq> SPS_NALU_TYPE" "IDR_NALU_TYPE \<noteq> PPS_NALU_TYPE" "SPS_NALU_TYPE \<noteq> PPS_NALU_TYPE"
    by (simp_all add: IDR_NALU_TYPE_def SPS_NALU_TYPE_def PPS_NALU_TYPE_def)
  ultimately show ?thesis
    unfolding nal_types_def nf_idr_def nf_sps_def nf_pps_def b note_nalu_type_def nf_set_def switch_types_def
    by (auto simp: bit_or_iff split: if_splits)
qed

lemma get_range_nth:
  "get_range xs a b = Some ys \<Longrightarrow> a \<le> b \<and> b \<le> length xs \<and> length ys = b - a \<and> (\<forall>i < length ys. ys ! i = xs ! (a + i))"
  by (auto simp: get_range_def split: if_splits)

lemma stapa_units_step:
  assumes "stapa_units payload off acc = Inr us" "off < length payload"
  obtains h t n where "off + 2 + n \<le> length payload" "n = length (h # t)" "payload ! (off + 2) = h"
    "n = unat (be16 (payload ! off) (payload ! (off + 1)))" "unit_ok (h # t)"
    "stapa_units payload (off + 2 + n) (acc @ [h # t]) = Inr us"
proof -
  note eq = assms(1) [unfolded stapa_units.simps [of payload off acc] Let_def STAPA_NALU_LENGTH_SIZE_def]
  obtain hi lo where r: "get_range payload off (off + 2) = Some [hi, lo]"
    using eq assms(2) by (auto split: option.splits list.splits)
  let ?n = "unat (be16 hi lo)"
  obtain h t where u: "get_range payload (off + 2) (off + 2 + ?n) = Some (h # t)"
      and h: "h AND 0x80 = 0" "single_nalu_type (h AND NALU_TYPE_MASK)"
      and rec: "stapa_units payload (off + 2 + ?n) (acc @ [h # t]) = Inr us"
    using eq assms(2) r by (auto split: option.splits list.splits if_splits)
  note gr = get_range_nth [OF r] and gu = get_range_nth [OF u]
  have "[hi, lo] ! 0 = payload ! (off + 0)" "[hi, lo] ! 1 = payload ! (off + 1)" using gr by auto
  moreover have "(h # t) ! 0 = payload ! (off + 2 + 0)" using gu by (metis length_greater_0_conv list.discI)
  ultimately have e: "payload ! off = hi" "payload ! (off + 1) = lo" "payload ! (off + 2) = h" by simp_all
  have "unit_ok (h # t)" using h by (simp add: unit_ok_def unit_type_def)
  moreover have "off + 2 + ?n \<le> length payload" "?n = length (h # t)" using gu by simp_all
  ultimately show thesis using that [of ?n h t] rec unfolding e by blast
qed

lemma stapa_units_classified:
  "stapa_units payload off acc = Inr us \<Longrightarrow>
   \<exists>vs. us = acc @ vs \<and> list_all unit_ok vs \<and>
     nal_types (classify_stapa payload off f) = nal_types f \<union> (unit_type ` set vs \<inter> switch_types)"
proof (induction "length payload - off" arbitrary: off acc f rule: less_induct)
  case less
  show ?case
  proof (cases "off < length payload")
    case False
    then show ?thesis using less(2)
      by (subst classify_stapa.simps) (simp add: stapa_units.simps STAPA_NALU_LENGTH_SIZE_def)
  next
    case True
    obtain h t n where s: "off + 2 + n \<le> length payload" "n = length (h # t)" "payload ! (off + 2) = h"
        "n = unat (be16 (payload ! off) (payload ! (off + 1)))" "unit_ok (h # t)"
        "stapa_units payload (off + 2 + n) (acc @ [h # t]) = Inr us"
      using less(2) True by (rule stapa_units_step)
    let ?f = "note_nalu_type (h AND NALU_TYPE_MASK) f"
    have "length payload - (off + 2 + n) < length payload - off" using True by simp
    then obtain vs where vs: "us = (acc @ [h # t]) @ vs" "list_all unit_ok vs"
        "nal_types (classify_stapa payload (off + 2 + n) ?f) = nal_types ?f \<union> (unit_type ` set vs \<inter> switch_types)"
      using less(1) [OF _ s(6), of ?f] by blast
    have "n \<noteq> 0" using s(2) by simp
    then have "classify_stapa payload off f = classify_stapa payload (off + 2 + n) ?f"
      using s(1, 3, 4) by (subst classify_stapa.simps) (simp add: get_at_def STAPA_NALU_LENGTH_SIZE_def Let_def)
    then show ?thesis using vs s(5)
      by (intro exI [of _ "(h # t) # vs"]) (auto simp: unit_type_def nal_types_note)
  qed
qed

lemma annex_b_append: "annex_b (us @ vs) = annex_b us @ annex_b vs"
  by (simp add: annex_b_def)

lemma length_annex_b: "length (annex_b us) = sum_list (map (\<lambda>u. length ANNEX_B_START_CODE + length u) us)"
  by (induction us) (simp_all add: ANNEX_B_START_CODE_def)

text \<open>A payload that starts, continues or ends a fragmented unit.\<close>

lemma push_fua_step:
  assumes "push_fua p ind d = Inr d'" "dp_units d us" "p = ind # q" "ind AND NALU_TYPE_MASK = FUA_NALU_TYPE"
  shows "\<exists>us'. dp_units d' us' \<and> (us' \<noteq> [] \<or> dp_fua d' \<noteq> None) \<and> (dp_held d' \<le> dp_max_access_unit_size d) \<and>
    held_types d' us' \<inter> switch_types = (held_types d us \<inter> switch_types) \<union> nal_types (classify p)"
proof -
  obtain fh body where p: "p = ind # fh # body" using assms(1, 3) by (cases q) (auto simp: push_fua_def)
  let ?t = "fh AND NALU_TYPE_MASK" and ?s = "fh AND FU_START_MASK \<noteq> 0" and ?e = "fh AND FU_END_MASK \<noteq> 0"
  let ?h = "(ind AND 0xe0) OR ?t"
  have ok: "single_nalu_type ?t" "body \<noteq> []" "ind AND 0x80 = 0" "\<not> (?s \<and> ?e)"
    using assms(1) by (auto simp: push_fua_def p Let_def split: if_splits)
  have c: "nal_types (classify p) = (if ?s then {?t} \<inter> switch_types else {})"
    using assms(4) fua_not_single
    by (simp add: classify_def p Let_def FUA_HEADER_SIZE_def get_at_def nal_types_note nal_types_empty)
  show ?thesis
  proof (cases ?s)
    case True
    have h: "?h AND NALU_TYPE_MASK = ?t" unfolding nalu_consts by (rule byte_eqI) (simp_all add: byte_bits)
    have h7: "?h AND 0x80 = 0" using ok(3) unfolding nalu_consts byte_flag by (simp add: byte_bits)
    have d': "dp_fua d = None" "d' = d\<lparr>dp_fua := Some (?h, ?h # body)\<rparr>"
      "length (dp_frame d) + (5 + length body) \<le> dp_max_access_unit_size d"
      using assms(1) True ok(4)
      by (cases "dp_fua d"; auto simp: push_fua_def p Let_def and_then_Inr_iff ensure_capacity_def ANNEX_B_START_CODE_def split: if_splits)+
    show ?thesis
      using assms(2) d' True c h h7 ok(1)
      by (intro exI [of _ us]) (auto simp: dp_units_def unit_ok_def unit_type_def dp_held_def held_types_def)
  next
    case False
    obtain h data where f: "dp_fua d = Some (h, data)" "h AND NALU_TYPE_MASK = ?t"
        "length (dp_frame d) + 4 + length data + length body \<le> dp_max_access_unit_size d"
        and d': "d' = (if ?e then d\<lparr>dp_fua := None, dp_frame := dp_frame d @ ANNEX_B_START_CODE @ data @ body\<rparr>
          else d\<lparr>dp_fua := Some (h, data @ body)\<rparr>)"
      using assms(1) False ok(4)
      by (auto simp: push_fua_def p Let_def and_then_Inr_iff ANNEX_B_START_CODE_def NALU_TYPE_MASK_def split: if_splits option.splits)
    have data: "unit_ok data" "hd data = h" using assms(2) f(1) by (auto simp: dp_units_def)
    then have u: "unit_ok (data @ body)" "unit_type (data @ body) = h AND NALU_TYPE_MASK" "hd (data @ body) = h"
      by (auto simp: unit_ok_def unit_type_def)
    show ?thesis
    proof (cases ?e)
      case True
      then show ?thesis using assms(2) f d' u c False
        by (intro exI [of _ "us @ [data @ body]"])
          (auto simp: dp_units_def annex_b_append dp_held_def held_types_def ANNEX_B_START_CODE_def)
    next
      case False
      then show ?thesis using assms(2) f d' u c \<open>\<not> ?s\<close>
        by (intro exI [of _ us]) (auto simp: dp_units_def dp_held_def held_types_def)
    qed
  qed
qed

lemma push_payload_step:
  assumes "push_payload p d = Inr d'" "dp_units d us"
  shows "\<exists>us'. dp_units d' us' \<and> (us' \<noteq> [] \<or> dp_fua d' \<noteq> None) \<and> (dp_held d' \<le> dp_max_access_unit_size d) \<and>
    held_types d' us' \<inter> switch_types = (held_types d us \<inter> switch_types) \<union> nal_types (classify p)"
proof -
  obtain ind q where p: "p = ind # q" using assms(1) by (cases p) (auto simp: push_payload_def)
  let ?t = "ind AND NALU_TYPE_MASK"
  consider "single_nalu_type ?t" | "\<not> single_nalu_type ?t" "?t = STAPA_NALU_TYPE"
    | "\<not> single_nalu_type ?t" "?t \<noteq> STAPA_NALU_TYPE" "?t = FUA_NALU_TYPE"
    using assms(1) by (auto simp: push_payload_def p Let_def split: if_splits)
  then show ?thesis
  proof cases
    case 1
    then have d': "dp_fua d = None" "ind AND 0x80 = 0" "d' = d\<lparr>dp_frame := dp_frame d @ ANNEX_B_START_CODE @ p\<rparr>"
      "length (dp_frame d) + (4 + length p) \<le> dp_max_access_unit_size d"
      using assms(1) by (cases "dp_fua d"; auto simp: push_payload_def p Let_def and_then_Inr_iff ensure_capacity_def
        ANNEX_B_START_CODE_def split: if_splits)+
    have "unit_ok p" "nal_types (classify p) = {unit_type p} \<inter> switch_types"
      using 1 d'(2) by (simp_all add: p unit_ok_def unit_type_def classify_def nal_types_note nal_types_empty)
    then show ?thesis using assms(2) d'
      by (intro exI [of _ "us @ [p]"])
        (auto simp: dp_units_def annex_b_append dp_held_def held_types_def ANNEX_B_START_CODE_def)
  next
    case 2
    obtain vs where vs: "stapa_units p STAPA_HEADER_SIZE [] = Inr vs" "vs \<noteq> []" "dp_fua d = None"
        "length (dp_frame d) + length (annex_b vs) \<le> dp_max_access_unit_size d"
        and d': "d' = d\<lparr>dp_frame := dp_frame d @ annex_b vs\<rparr>"
      using assms(1) 2 by (cases "dp_fua d") (auto simp: push_payload_def p Let_def and_then_Inr_iff ensure_capacity_def
        annex_b_def [symmetric] length_annex_b split: if_splits)
    have "list_all unit_ok vs" "nal_types (classify p) = unit_type ` set vs \<inter> switch_types"
      using stapa_units_classified [OF vs(1), of nf_empty] 2 by (auto simp: p classify_def nal_types_empty)
    then show ?thesis using assms(2) vs d'
      by (intro exI [of _ "us @ vs"]) (auto simp: dp_units_def annex_b_append dp_held_def held_types_def)
  next
    case 3
    then have "push_fua p ind d = Inr d'" using assms(1) fua_not_single by (simp add: push_payload_def p)
    then show ?thesis using push_fua_step [OF _ assms(2) p 3(3)] by blast
  qed
qed

text \<open>A depacketizer between calls, and any sequence of calls \<open>(payload, start, end)\<close>.\<close>

definition dp_ok :: "Depacketizer \<Rightarrow> bool" where
  "dp_ok d \<longleftrightarrow> (\<exists>us. dp_units d us) \<and> dp_held d \<le> dp_max_access_unit_size d"

fun push_calls :: "(u8 list \<times> bool \<times> bool) list \<Rightarrow> Depacketizer \<Rightarrow>
    (DepacketizationError + u8 list option) list \<times> Depacketizer" where
  "push_calls [] d = ([], d)"
| "push_calls ((p, s, e) # cs) d = (let (r, d) = dp_push p s e d; (rs, d) = push_calls cs d in (r # rs, d))"

definition emission_ok :: "nat \<Rightarrow> DepacketizationError + u8 list option \<Rightarrow> bool" where
  "emission_ok n r \<longleftrightarrow> (case r of Inr (Some frame) \<Rightarrow>
     length frame \<le> n \<and> (\<exists>us. us \<noteq> [] \<and> list_all unit_ok us \<and> frame = annex_b us) | _ \<Rightarrow> True)"

lemma dp_ok_reset: "dp_ok (depacketizer_reset d)" "dp_ok ((depacketizer_reset d)\<lparr>dp_started := b\<rparr>)"
  by (auto simp: dp_ok_def dp_units_def dp_held_def depacketizer_reset_def intro!: exI [of _ "[]"])

lemma dp_push_ok:
  assumes "dp_ok d"
  shows "dp_ok (snd (dp_push p s e d)) \<and> dp_max_access_unit_size (snd (dp_push p s e d)) = dp_max_access_unit_size d \<and>
    emission_ok (dp_max_access_unit_size d) (fst (dp_push p s e d))"
proof -
  let ?d = "if s then (depacketizer_reset d)\<lparr>dp_started := True\<rparr> else d"
  have ok: "dp_ok ?d" "dp_max_access_unit_size ?d = dp_max_access_unit_size d" using assms dp_ok_reset
    by (auto simp: depacketizer_reset_def)
  have rs: "dp_max_access_unit_size (depacketizer_reset x) = dp_max_access_unit_size x" for x :: Depacketizer
    by (simp add: depacketizer_reset_def)
  show ?thesis
  proof (cases "\<not> s \<and> \<not> dp_started d")
    case True
    then show ?thesis using dp_ok_reset rs by (simp add: dp_push_def emission_ok_def)
  next
    case False
    show ?thesis
    proof (cases "push_payload p ?d")
      case (Inl x)
      then show ?thesis using False dp_ok_reset rs ok by (simp add: dp_push_def emission_ok_def Let_def)
    next
      case (Inr d1)
      obtain us0 where "dp_units ?d us0" using ok(1) unfolding dp_ok_def by blast
      from push_payload_step [OF Inr this] obtain us where us: "dp_units d1 us"
        "dp_held d1 \<le> dp_max_access_unit_size d" "us \<noteq> [] \<or> dp_fua d1 \<noteq> None" unfolding ok(2) by blast
      have m: "dp_max_access_unit_size d1 = dp_max_access_unit_size d" using push_payload_started [OF Inr] ok(2) by simp
      have "dp_ok d1" using us m by (auto simp: dp_ok_def)
      moreover have "dp_ok (d1\<lparr>dp_frame := [], dp_started := False\<rparr>)" if "dp_fua d1 = None"
        using that us by (auto simp: dp_ok_def dp_units_def dp_held_def intro!: exI [of _ "[]"])
      moreover have "emission_ok (dp_max_access_unit_size d) (Inr (Some (dp_frame d1)))" if "dp_fua d1 = None"
        using that us by (auto simp: emission_ok_def dp_units_def dp_held_def)
      ultimately show ?thesis using False Inr dp_ok_reset rs m
        by (cases "dp_fua d1") (simp_all add: dp_push_def Let_def emission_ok_def [of _ "Inr None"] emission_ok_def [of _ "Inl _"])
    qed
  qed
qed

text \<open>
  C13. Whatever payloads and frame boundaries a sender chooses, the depacketizer never holds more than its
  limit, and every access unit it emits is within the limit and is the Annex B form of at least one NAL
  unit with a clear forbidden bit and a type from 1 to 23.
\<close>

theorem depacketizer_safe:
  "let (rs, d) = push_calls cs (with_max_access_unit_size n)
   in list_all (emission_ok (max n 1)) rs \<and> dp_held d \<le> max n 1"
proof -
  have "dp_ok d \<Longrightarrow> list_all (emission_ok (dp_max_access_unit_size d)) (fst (push_calls cs d)) \<and>
      dp_ok (snd (push_calls cs d)) \<and> dp_max_access_unit_size (snd (push_calls cs d)) = dp_max_access_unit_size d" for d
  proof (induction cs arbitrary: d)
    case (Cons c cs)
    obtain p s e where c: "c = (p, s, e)" by (cases c)
    have "dp_ok (snd (dp_push p s e d))" using dp_push_ok [OF Cons.prems] by blast
    from Cons.IH [OF this] dp_push_ok [OF Cons.prems, of p s e] show ?case by (simp add: c Let_def case_prod_unfold)
  qed simp
  moreover have "dp_ok (with_max_access_unit_size n)" "dp_max_access_unit_size (with_max_access_unit_size n) = max n 1"
    by (auto simp: dp_ok_def dp_units_def dp_held_def with_max_access_unit_size_def h264_default_def intro!: exI [of _ "[]"])
  ultimately show ?thesis unfolding case_prod_unfold Let_def dp_ok_def by metis
qed

text \<open>
  C14. The classifier sees exactly what the depacketizer rebuilds, for every packetization of an access
  unit into single-unit, STAP-A and FU-A payloads: when the payloads are accepted and no fragmented unit is
  pending, the frame is the Annex B form of some units, and one of the payloads is classified as carrying
  an IDR slice, a sequence or a picture parameter set if and only if one of the units is one.
\<close>

theorem classify_complete:
  assumes "push_payloads ps d = Inr d'" and "dp_frame d = []" and "dp_fua d = None" and "dp_fua d' = None"
  shows "\<exists>us. dp_frame d' = annex_b us \<and> list_all unit_ok us \<and>
    ((\<exists>p \<in> set ps. nf_idr (classify p)) \<longleftrightarrow> IDR_NALU_TYPE \<in> unit_type ` set us) \<and>
    ((\<exists>p \<in> set ps. nf_sps (classify p)) \<longleftrightarrow> SPS_NALU_TYPE \<in> unit_type ` set us) \<and>
    ((\<exists>p \<in> set ps. nf_pps (classify p)) \<longleftrightarrow> PPS_NALU_TYPE \<in> unit_type ` set us)"
proof -
  have run: "push_payloads ps d = Inr d' \<Longrightarrow> dp_units d us \<Longrightarrow> \<exists>us'. dp_units d' us' \<and>
      held_types d' us' \<inter> switch_types = (held_types d us \<inter> switch_types) \<union> (\<Union>p \<in> set ps. nal_types (classify p))" for us
    using assms(1)
  proof (induction ps arbitrary: d us)
    case (Cons p ps)
    then obtain d1 where d1: "push_payload p d = Inr d1" "push_payloads ps d1 = Inr d'" by (auto simp: and_then_Inr_iff)
    obtain us1 where us1: "dp_units d1 us1" "held_types d1 us1 \<inter> switch_types = (held_types d us \<inter> switch_types) \<union> nal_types (classify p)"
      using push_payload_step [OF d1(1) Cons.prems(2)] by blast
    from Cons.IH [OF d1(2) us1(1) d1(2)] us1(2) show ?case by auto
  qed auto
  have "dp_units d []" "held_types d [] = {}" using assms(2, 3) by (auto simp: dp_units_def held_types_def)
  with run [OF assms(1)] obtain us where us: "dp_units d' us"
      "held_types d' us \<inter> switch_types = (\<Union>p \<in> set ps. nal_types (classify p))" by fastforce
  have h: "held_types d' us = unit_type ` set us" using assms(4) by (simp add: held_types_def)
  have n: "IDR_NALU_TYPE \<noteq> SPS_NALU_TYPE" "IDR_NALU_TYPE \<noteq> PPS_NALU_TYPE" "SPS_NALU_TYPE \<noteq> PPS_NALU_TYPE"
    by (simp_all add: IDR_NALU_TYPE_def SPS_NALU_TYPE_def PPS_NALU_TYPE_def)
  have "t \<in> switch_types \<Longrightarrow> (t \<in> unit_type ` set us) = (\<exists>p \<in> set ps. t \<in> nal_types (classify p))" for t
    using us(2) h by blast
  from this [of IDR_NALU_TYPE] this [of SPS_NALU_TYPE] this [of PPS_NALU_TYPE]
  show ?thesis using us(1) n by (intro exI [of _ us]) (simp add: dp_units_def switch_types_def nal_types_def)
qed

text \<open>Three units, the last of which needs three fragments at an MTU of four bytes.\<close>

theorem h264_roundtrip_witness:
  "fst (push_chunks (h264_packetize (h264_packetizer_new 4) (annex_b [[0x67, 1, 2], [0x68, 3], [0x65, 9, 8, 7, 6, 5]])) (with_max_access_unit_size 64)) =
     [Inr None, Inr None, Inr None, Inr None, Inr (Some (annex_b [[0x67, 1, 2], [0x68, 3], [0x65, 9, 8, 7, 6, 5]]))]"
proof -
  let ?ns = "[[0x67, 1, 2], [0x68, 3], [0x65, 9, 8, 7, 6, 5]] :: u8 list list"
  have "list_all nalu_ok ?ns" by code_simp
  moreover have "length (annex_b ?ns) \<le> dp_max_access_unit_size (with_max_access_unit_size 64)" by code_simp
  moreover have "length (h264_packetize (h264_packetizer_new 4) (annex_b ?ns)) = 5" by code_simp
  ultimately show ?thesis using h264_roundtrip [OF _ _ _ _ refl, of ?ns 4 "with_max_access_unit_size 64"]
    by (simp add: eval_nat_numeral)
qed

text \<open>A STAP-A payload with both parameter sets, then an IDR slice in two fragments.\<close>

theorem classify_complete_witness:
  "\<exists>us. dp_frame (projr (push_payloads [[0x78, 0, 2, 0x67, 1, 0, 2, 0x68, 2], [0x7C, 0x85, 7], [0x7C, 0x45, 8]] (with_max_access_unit_size 64))) = annex_b us \<and>
     list_all unit_ok us \<and> IDR_NALU_TYPE \<in> unit_type ` set us \<and> SPS_NALU_TYPE \<in> unit_type ` set us \<and> PPS_NALU_TYPE \<in> unit_type ` set us"
proof -
  let ?ps = "[[0x78, 0, 2, 0x67, 1, 0, 2, 0x68, 2], [0x7C, 0x85, 7], [0x7C, 0x45, 8]] :: u8 list list"
  let ?d = "with_max_access_unit_size 64"
  have r: "push_payloads ?ps ?d = Inr (projr (push_payloads ?ps ?d))" by code_simp
  have f: "dp_frame ?d = []" "dp_fua ?d = None" by code_simp+
  have e: "dp_fua (projr (push_payloads ?ps ?d)) = None" by code_simp
  have n: "\<exists>p \<in> set ?ps. nf_idr (classify p)" "\<exists>p \<in> set ?ps. nf_sps (classify p)" "\<exists>p \<in> set ?ps. nf_pps (classify p)"
    by code_simp+
  from classify_complete [OF r f e] n show ?thesis by blast
qed

end
