(* ===== verification/Spec2Isabelle.thy ===== *)
theory Spec2Isabelle
  imports DD_Temporal Framing Steer Route Demux Handles Packet Vla H264
begin

text \<open>
  \<^bold>\<open>The program.\<close>  PulseBeam is a selective forwarding unit for real-time media, written in
  Rust under \<open>src/crates\<close>.  A datagram reaches a node through the steering path, which reads a
  transport route out of the ICE user name of a STUN request or follows a learned flow
  (\<open>pulsebeam-steer\<close>); the demultiplexer of a shard maps source addresses to participants
  (\<open>pulsebeam/src/shard/demux.rs\<close>); media packets are parsed (\<open>pulsebeam-rtc/src/packet.rs\<close>) and
  described by codec metadata (\<open>pulsebeam-core\<close>: dependency descriptors, layer allocations, H.264 and
  codec-agnostic framing); frames travel between shards over compiled routes
  (\<open>pulsebeam/src/route.rs\<close>), on an NTP timeline (\<open>pulsebeam/src/clock.rs\<close>), and a shard is
  driven by its timer wheel (\<open>pulsebeam/src/shard/timer.rs\<close>).  This library models those parts, each as
  total HOL functions with the names of the source, and proves what they promise.

  \<^bold>\<open>Conventions.\<close>  Integers of a fixed width are words of that width, so wrap-around and saturation are
  those of the code.  \<open>usize\<close> lengths and indices are \<open>nat\<close>; their additions are bounded by objects in
  memory, so the checked and saturating forms do not differ from \<open>+\<close>.  \<open>Result\<close> is a sum with the
  error on the left, \<open>?\<close> is \<open>and_then\<close>, \<open>Option\<close> is \<open>option\<close>, and a panic or a fatal error is
  \<open>None\<close>.  Instants are integers of nanoseconds.  \<open>HashMap\<close> and \<open>BTreeMap\<close> are the association
  lists of theory Collections.  A \<open>debug_assert!\<close> is not part of a release build and not part of a
  definition; the bounds that the writer of descriptors and the expander of timestamps assert are
  hypotheses or conclusions of their theorems.  Logging and metrics are left out.

  \<^bold>\<open>The theories.\<close>

  \<^item> \<open>Prelude\<close>, \<open>Bytes\<close>, \<open>Collections\<close>, \<open>Threaded\<close> hold what the components share: the error
    monad and its loops, saturating arithmetic, words as bit lists, big-endian integers, the keyed
    collections, and doubly linked lists threaded through the entries of a map.

  \<^item> \<open>DD_Bits\<close> (\<open>dd/bits.rs\<close>), \<open>DD_Model\<close> (\<open>dd/model.rs\<close>), \<open>DD_Read\<close> (\<open>dd/read.rs\<close>) and
    \<open>DD_Write\<close> (\<open>dd/write.rs\<close>) are the codec of the AV1 dependency descriptor: one function per
    syntax element, the reader's and the writer's structure in force as state.  \<open>DD_Roundtrip\<close> gives the
    wire format as bit strings and proves that the writer produces it and the reader inverts it;
    \<open>DD_Accept\<close> proves that whatever the reader accepts is well formed and can be written again in no
    more bits.  Together: round trip, forwarding, the reader's invariant, totality of writing.
    \<open>DD_Temporal\<close> (\<open>dd/temporal.rs\<close>) is the sender's descriptor source; its streams decode at a
    receiver, and every decode target is closed under references.

  \<^item> \<open>Framing\<close> (\<open>framing.rs\<close>) is the codec-agnostic packetizer and depacketizer.  The walk over
    buffered packets is a partial function, since it does not end for one input; it is proved to return
    for all others, frames are never torn, and frames that fit the window come out again under any order of
    arrival of their packets.

  \<^item> \<open>H264\<close> (\<open>h264.rs\<close>) is the classifier of payloads, the FU-A packetizer and the depacketizer of
    access units: what is packetized is depacketized again in Annex B form, payloads respect the MTU, and
    the depacketizer never holds more than its limit.  \<open>Vla\<close> (\<open>vla.rs\<close>) is the decoder of the layer
    allocation extension, which inverts the encoder that specifies the format and accepts nothing beyond
    the format's bounds.

  \<^item> \<open>Packet\<close> (\<open>pulsebeam-rtc/src/packet.rs\<close>) is the RTP and RTCP parser.  Encoders specify the wire
    formats; the parsers accept exactly the encodings.  The locale \<open>element_form\<close> states what one turn
    of the extension validator and one call of the extension iterator do; it is interpreted for the
    one-byte and the two-byte form, and the facts on whole blocks come from it.

  \<^item> \<open>Ufrag\<close>, \<open>Stun\<close>, \<open>Steer\<close> (\<open>pulsebeam-steer\<close>) are the route packing and the Crockford code of
    the ICE user fragment, the STUN parser, and the classification and affinity decisions; the flow table
    behind the trait \<open>FlowLookup\<close> is an argument.

  \<^item> \<open>Clock\<close> (\<open>clock.rs\<close>) is NTP arithmetic, the anchor to the host clock and the expansion of
    middle-32 timestamps.  \<open>Route\<close> (\<open>route.rs\<close>, \<open>route/envelope.rs\<close>) is the envelope codec, the link
    counters, the slot allocator with quarantine and the route table; \<open>alloc\<close> runs are an inductive
    reachability, and no two live addresses are equal.

  \<^item> \<open>Demux\<close> (\<open>demux.rs\<close>) and \<open>Timer\<close> (\<open>timer.rs\<close>) keep intrusive linked lists.  Each is related to
    a small specification (a recency list; a map of deadlines) by a representation relation that every
    operation preserves, and the simulation is lifted to runs of operations.  The wheel is proved right over a
    plain map first, the locale \<open>node_store\<close>.  In the code its nodes are in a \<open>SecondaryMap\<close> of a
    third-party crate, keyed by the handles of a \<open>SlotMap\<close>: both are arguments.  \<open>Handles\<close> states what the
    crate documents of them, which for a secondary map covers live handles only (\<open>handle_laws\<close>, the locale
    \<open>handle_store\<close>), follows participants that join and leave the shard (\<open>add_participant\<close> and the removal
    in \<open>shard/core.rs\<close> cancel a timer before the handle is taken back), and proves that such a run gives the
    results of the wheel over a plain map.  It is interpreted on maps by slot and version, in which a stale
    handle is refused and a newer one evicts.

  \<^bold>\<open>Bounds and fuel.\<close>  No definition uses fuel.  Loops are structural, or have a termination proof with
  the distance to the end of the input (parsers), the number of free places (\<open>unregister_loop\<close>), or the
  ticks left (\<open>drain_ticks\<close>) as measure.  \<open>find_end\<close> of Framing and \<open>drain_location\<close> of Timer may run
  for ever on states the code does not reach; they are \<open>partial_function (option)\<close>, and that they return
  is proved.  The limits of the code (\<open>MAX_ADDR_ENTRIES\<close>, \<open>MAX_DD_LEN\<close>, \<open>MAX_VLA_LEN\<close>,
  \<open>MAX_RTCP_REPORT_BLOCKS\<close> and the others) are definitions with their values.

  \<^bold>\<open>Not modelled.\<close>  The bindings to libwebrtc, the simulator, the command line and the client agents are
  foreign interfaces or drivers.  UDP, TCP, DTLS and the asynchronous runtime are input and output over
  operating system and third-party interfaces.  The congestion controllers, the bandwidth allocators and
  the media monitors are heuristics in floating point arithmetic.  The controller, the participant core
  and the shard worker compose the parts above with those interfaces and with the SCTP, DTLS and SRTP
  state of \<open>pulsebeam-rtc\<close>; their state is mostly that of the parts left out.
\<close>

end
